(* ===== verification/Dodb_Prelude.thy ===== *)
theory Dodb_Prelude
  imports Main "HOL-Library.Word" "HOL-Library.List_Lexorder"
begin

text \<open>
  What every component of the development shares: the machine integers of the Rust code
  (\<open>u8\<close>, \<open>u16\<close>, \<open>u32\<close>, \<open>u64\<close> as words, \<open>usize\<close> as a natural number whose arithmetic
  is checked at \<open>2 ^ 64\<close>), byte strings, the little-endian integer encodings of the standard
  library, sub-slices of a buffer and \<open>copy_from_slice\<close>, Rust's \<open>?\<close> on results as
  a bind on sums, and the same for code that also changes a state. The lemmas about slices are
  collected in \<open>codec_simps\<close>; they are what the fixed-layout codecs are proved with.
\<close>

section \<open>Machine integers and bytes\<close>

type_synonym u8 = "8 word"
type_synonym u16 = "16 word"
type_synonym u32 = "32 word"
type_synonym u64 = "64 word"
type_synonym usize = nat
type_synonym bytes = "u8 list"

named_theorems codec_simps

abbreviation usize_limit :: nat where
  "usize_limit \<equiv> 2 ^ 64"

definition checked_add_usize :: "usize \<Rightarrow> usize \<Rightarrow> usize option" where
  "checked_add_usize a b = (if a + b < usize_limit then Some (a + b) else None)"

definition checked_mul_usize :: "usize \<Rightarrow> usize \<Rightarrow> usize option" where
  "checked_mul_usize a b = (if a * b < usize_limit then Some (a * b) else None)"

definition checked_sub_usize :: "usize \<Rightarrow> usize \<Rightarrow> usize option" where
  "checked_sub_usize a b = (if b \<le> a then Some (a - b) else None)"

definition saturating_add_usize :: "usize \<Rightarrow> usize \<Rightarrow> usize" where
  "saturating_add_usize a b = min (a + b) (usize_limit - 1)"

definition checked_add_u64 :: "u64 \<Rightarrow> u64 \<Rightarrow> u64 option" where
  "checked_add_u64 a b = (if unat a + unat b < 2 ^ 64 then Some (a + b) else None)"

definition checked_mul_u64 :: "u64 \<Rightarrow> u64 \<Rightarrow> u64 option" where
  "checked_mul_u64 a b = (if unat a * unat b < 2 ^ 64 then Some (a * b) else None)"

lemma checked_add_u64_Some:
  "checked_add_u64 a b = Some c \<longleftrightarrow> unat a + unat b < 2 ^ 64 \<and> c = a + b"
  by (auto simp: checked_add_u64_def)

lemma unat_checked_add_u64:
  "checked_add_u64 a b = Some c \<Longrightarrow> unat c = unat a + unat b"
  by (auto simp: checked_add_u64_Some unat_word_ariths)

lemma checked_add_u64_less:
  "checked_add_u64 a b = Some c \<Longrightarrow> 0 < b \<Longrightarrow> a < c"
  by (auto dest!: unat_checked_add_u64 simp: word_less_nat_alt unat_gt_0)

lemma checked_add_usize_Some:
  "checked_add_usize a b = Some c \<longleftrightarrow> a + b < usize_limit \<and> c = a + b"
  by (auto simp: checked_add_usize_def)

section \<open>Results\<close>

text \<open>
  A Rust \<open>Result\<close> is a sum with the error on the left. \<open>bindR r f\<close> is what the
  \<open>?\<close> operator does: an error returns at once, a value is passed on.
\<close>

primrec bindR :: "'e + 'a \<Rightarrow> ('a \<Rightarrow> 'e + 'b) \<Rightarrow> 'e + 'b" where
  "bindR (Inl e) f = Inl e"
| "bindR (Inr x) f = f x"

definition ok_or :: "'a option \<Rightarrow> 'e \<Rightarrow> 'e + 'a" where
  "ok_or x e = (case x of None \<Rightarrow> Inl e | Some y \<Rightarrow> Inr y)"

definition map_err :: "('e \<Rightarrow> 'f) \<Rightarrow> 'e + 'a \<Rightarrow> 'f + 'a" where
  "map_err f r = (case r of Inl e \<Rightarrow> Inl (f e) | Inr x \<Rightarrow> Inr x)"

definition is_ok :: "'e + 'a \<Rightarrow> bool" where
  "is_ok r = (case r of Inl _ \<Rightarrow> False | Inr _ \<Rightarrow> True)"

lemma bindR_cong [fundef_cong]:
  "r = r' \<Longrightarrow> (\<And>x. r' = Inr x \<Longrightarrow> f x = g x) \<Longrightarrow> bindR r f = bindR r' g"
  by (cases r') auto

lemma bindR_eq_Inr [simp]: "bindR r f = Inr y \<longleftrightarrow> (\<exists>x. r = Inr x \<and> f x = Inr y)"
  by (cases r) auto

lemma bindR_eq_Inl:
  "bindR r f = Inl e \<longleftrightarrow> r = Inl e \<or> (\<exists>x. r = Inr x \<and> f x = Inl e)"
  by (cases r) auto

lemma ok_or_simps [simp]: "ok_or None e = Inl e" "ok_or (Some x) e = Inr x"
  by (simp_all add: ok_or_def)

lemma ok_or_eq_Inr [simp]: "ok_or x e = Inr y \<longleftrightarrow> x = Some y"
  by (cases x) auto

lemma ok_or_eq_Inl [simp]: "ok_or x e = Inl f \<longleftrightarrow> x = None \<and> f = e"
  by (cases x) auto

lemma map_err_simps [simp]: "map_err f (Inl e) = Inl (f e)" "map_err f (Inr x) = Inr x"
  by (simp_all add: map_err_def)

lemma map_err_eq_Inr [simp]: "map_err f r = Inr y \<longleftrightarrow> r = Inr y"
  by (cases r) auto

lemma is_ok_simps [simp]: "is_ok (Inl e) = False" "is_ok (Inr x) = True"
  by (simp_all add: is_ok_def)

lemma is_ok_iff: "is_ok r \<longleftrightarrow> (\<exists>x. r = Inr x)"
  by (cases r) auto

text \<open>
  Code that changes a state and may fail returns the result beside the state it leaves
  behind: on an error the changes made before it stay, as they do behind a \<open>&mut self\<close>.
\<close>

type_synonym ('s, 'e, 'a) stateful = "'s \<Rightarrow> ('e + 'a) \<times> 's"

definition bindS :: "('s, 'e, 'a) stateful \<Rightarrow> ('a \<Rightarrow> ('s, 'e, 'b) stateful) \<Rightarrow> ('s, 'e, 'b) stateful"
where
  "bindS m f s = (case m s of (Inl e, s') \<Rightarrow> (Inl e, s') | (Inr x, s') \<Rightarrow> f x s')"

definition returnS :: "'a \<Rightarrow> ('s, 'e, 'a) stateful" where
  "returnS x s = (Inr x, s)"

definition liftR :: "'e + 'a \<Rightarrow> ('s, 'e, 'a) stateful" where
  "liftR r s = (r, s)"

lemma bindS_eq_Inr:
  "bindS m f s = (Inr y, t) \<longleftrightarrow> (\<exists>x s'. m s = (Inr x, s') \<and> f x s' = (Inr y, t))"
  by (auto simp: bindS_def split: prod.splits sum.splits)

lemma bindS_Inr: "m s = (Inr x, s') \<Longrightarrow> bindS m f s = f x s'"
  by (simp add: bindS_def)

lemma bindS_Inl: "m s = (Inl e, s') \<Longrightarrow> bindS m f s = (Inl e, s')"
  by (simp add: bindS_def)

lemma bindS_cong [fundef_cong]:
  "m s = m' s' \<Longrightarrow> (\<And>x t. m' s' = (Inr x, t) \<Longrightarrow> f x t = g x t)
     \<Longrightarrow> bindS m f s = bindS m' g s'"
  by (auto simp: bindS_def split: prod.splits sum.splits)

section \<open>Little-endian integers\<close>

primrec to_le :: "nat \<Rightarrow> nat \<Rightarrow> bytes" where
  "to_le 0 n = []"
| "to_le (Suc k) n = word_of_nat n # to_le k (n div 256)"

primrec from_le :: "bytes \<Rightarrow> nat" where
  "from_le [] = 0"
| "from_le (b # bs) = unat b + 256 * from_le bs"

lemma unat_u8_less [simp]: "unat (b :: u8) < 256"
  using unsigned_less [of b] by simp

lemma unat_u16_less [simp]: "unat (b :: u16) < 65536"
  using unsigned_less [of b] by simp

lemma unat_u32_less [simp]: "unat (b :: u32) < 4294967296"
  using unsigned_less [of b] by simp

lemma unat_u64_less [simp]: "unat (b :: u64) < 18446744073709551616"
  using unsigned_less [of b] by simp

lemma length_to_le [simp]: "length (to_le k n) = k"
  by (induction k arbitrary: n) auto

lemma from_le_to_le: "from_le (to_le k n) = n mod 256 ^ k"
proof (induction k arbitrary: n)
  case 0
  show ?case by simp
next
  case (Suc k)
  have "from_le (to_le (Suc k) n) = n mod 256 + 256 * (n div 256 mod 256 ^ k)"
    by (simp add: Suc.IH unat_of_nat)
  also have "\<dots> = n mod (256 * 256 ^ k)"
    by (simp add: mod_mult2_eq)
  finally show ?case by simp
qed

lemma to_le_from_le: "to_le (length bs) (from_le bs) = bs"
proof (induction bs)
  case Nil
  show ?case by simp
next
  case (Cons b bs)
  have b: "unat b < 256" by simp
  have "(unat b + 256 * from_le bs) div 256 = from_le bs" using b by simp
  moreover have "(word_of_nat (unat b + 256 * from_le bs) :: u8) = b"
  proof (rule word_unat_eq_iff [THEN iffD2])
    show "unat (word_of_nat (unat b + 256 * from_le bs) :: u8) = unat b"
      using b by (simp add: unat_of_nat del: of_nat_add of_nat_mult)
  qed
  ultimately show ?case using Cons.IH by simp
qed

lemma from_le_bound: "from_le bs < 256 ^ length bs"
proof (induction bs)
  case Nil
  show ?case by simp
next
  case (Cons b bs)
  have "unat b < 256" by simp
  moreover have "256 * Suc (from_le bs) \<le> 256 * 256 ^ length bs"
    using Cons.IH by (intro mult_le_mono2) simp
  ultimately show ?case by (simp del: unat_u8_less)
qed

definition u16_to_le_bytes :: "u16 \<Rightarrow> bytes" where
  "u16_to_le_bytes w = to_le 2 (unat w)"

definition u32_to_le_bytes :: "u32 \<Rightarrow> bytes" where
  "u32_to_le_bytes w = to_le 4 (unat w)"

definition u64_to_le_bytes :: "u64 \<Rightarrow> bytes" where
  "u64_to_le_bytes w = to_le 8 (unat w)"

definition u16_from_le_bytes :: "bytes \<Rightarrow> u16" where
  "u16_from_le_bytes bs = word_of_nat (from_le bs)"

definition u32_from_le_bytes :: "bytes \<Rightarrow> u32" where
  "u32_from_le_bytes bs = word_of_nat (from_le bs)"

definition u64_from_le_bytes :: "bytes \<Rightarrow> u64" where
  "u64_from_le_bytes bs = word_of_nat (from_le bs)"

lemma length_uN_to_le_bytes [simp]:
  "length (u16_to_le_bytes a) = 2"
  "length (u32_to_le_bytes b) = 4"
  "length (u64_to_le_bytes c) = 8"
  by (simp_all add: u16_to_le_bytes_def u32_to_le_bytes_def u64_to_le_bytes_def)

lemma uN_from_to_le_bytes [simp]:
  "u16_from_le_bytes (u16_to_le_bytes a) = a"
  "u32_from_le_bytes (u32_to_le_bytes b) = b"
  "u64_from_le_bytes (u64_to_le_bytes c) = c"
  by (simp_all add: u16_to_le_bytes_def u32_to_le_bytes_def u64_to_le_bytes_def
      u16_from_le_bytes_def u32_from_le_bytes_def u64_from_le_bytes_def from_le_to_le)

lemma u16_to_from_le_bytes: "length bs = 2 \<Longrightarrow> u16_to_le_bytes (u16_from_le_bytes bs) = bs"
  using from_le_bound [of bs] to_le_from_le [of bs]
  by (simp add: u16_to_le_bytes_def u16_from_le_bytes_def unat_of_nat)

lemma u32_to_from_le_bytes: "length bs = 4 \<Longrightarrow> u32_to_le_bytes (u32_from_le_bytes bs) = bs"
  using from_le_bound [of bs] to_le_from_le [of bs]
  by (simp add: u32_to_le_bytes_def u32_from_le_bytes_def unat_of_nat)

lemma u64_to_from_le_bytes: "length bs = 8 \<Longrightarrow> u64_to_le_bytes (u64_from_le_bytes bs) = bs"
  using from_le_bound [of bs] to_le_from_le [of bs]
  by (simp add: u64_to_le_bytes_def u64_from_le_bytes_def unat_of_nat)

section \<open>Buffers\<close>

text \<open>
  \<open>byte_slice a b xs\<close> is \<open>&xs[a..b]\<close> and \<open>write_slice a ys xs\<close> is
  \<open>xs[a..a + ys.len()].copy_from_slice(ys)\<close>, both for ranges inside the buffer (the code
  checks its variable ranges before it slices; the constant ones fit their arrays).
\<close>

definition byte_slice :: "nat \<Rightarrow> nat \<Rightarrow> 'a list \<Rightarrow> 'a list" where
  "byte_slice a b xs = take (b - a) (drop a xs)"

definition write_slice :: "nat \<Rightarrow> 'a list \<Rightarrow> 'a list \<Rightarrow> 'a list" where
  "write_slice a ys xs = take a xs @ ys @ drop (a + length ys) xs"

lemma length_byte_slice [simp]: "length (byte_slice a b xs) = min (b - a) (length xs - a)"
  by (simp add: byte_slice_def min.commute)

lemma length_write_slice [simp]:
  "a + length ys \<le> length xs \<Longrightarrow> length (write_slice a ys xs) = length xs"
  by (simp add: write_slice_def)

lemma byte_slice_write_same [codec_simps]:
  "a + length ys \<le> length xs \<Longrightarrow> b = a + length ys \<Longrightarrow> byte_slice a b (write_slice a ys xs) = ys"
  by (simp add: byte_slice_def write_slice_def)

lemma byte_slice_write_before [codec_simps]:
  "b \<le> a \<Longrightarrow> a + length ys \<le> length xs \<Longrightarrow> byte_slice c b (write_slice a ys xs) = byte_slice c b xs"
  by (cases "c \<le> b") (simp_all add: byte_slice_def write_slice_def drop_take)

lemma byte_slice_write_after [codec_simps]:
  assumes "a + length ys \<le> c" "a + length ys \<le> length xs"
  shows "byte_slice c d (write_slice a ys xs) = byte_slice c d xs"
proof -
  have "drop c (write_slice a ys xs) = drop (c - (a + length ys)) (drop (a + length ys) xs)"
    using assms by (simp add: write_slice_def)
  also have "\<dots> = drop c xs"
    using assms by (simp add: add.commute)
  finally show ?thesis by (simp add: byte_slice_def)
qed

lemma nth_write_slice_outside [codec_simps]:
  assumes "i < a \<or> a + length ys \<le> i" "a + length ys \<le> length xs"
  shows "write_slice a ys xs ! i = xs ! i"
  using assms by (auto simp: write_slice_def nth_append)

lemma nth_write_slice_single [codec_simps]:
  "i < length xs \<Longrightarrow> write_slice i [y] xs ! i = y"
  by (simp add: write_slice_def nth_append)

lemma write_slice_write_slice [codec_simps]:
  "length ys = length zs \<Longrightarrow> a + length ys \<le> length xs
     \<Longrightarrow> write_slice a zs (write_slice a ys xs) = write_slice a zs xs"
  by (simp add: write_slice_def)

lemma byte_slice_replicate [codec_simps]:
  "byte_slice a b (replicate n x) = replicate (min (b - a) (n - a)) x"
  by (simp add: byte_slice_def min.commute)

lemma byte_slice_append_left [codec_simps]:
  "b \<le> length xs \<Longrightarrow> byte_slice a b (xs @ ys) = byte_slice a b xs"
  by (cases "a \<le> b") (simp_all add: byte_slice_def)

lemma byte_slice_append_right [codec_simps]:
  "length xs \<le> a \<Longrightarrow> byte_slice a b (xs @ ys) = byte_slice (a - length xs) (b - length xs) ys"
  by (simp add: byte_slice_def)

lemma byte_slice_full [codec_simps]: "length xs \<le> b \<Longrightarrow> byte_slice 0 b xs = xs"
  by (simp add: byte_slice_def)

lemma byte_slice_split:
  assumes "a \<le> b" "b \<le> c"
  shows "byte_slice a c xs = byte_slice a b xs @ byte_slice b c xs"
proof -
  have "take (c - a) (drop a xs) = take ((b - a) + (c - b)) (drop a xs)"
    using assms by simp
  also have "\<dots> = take (b - a) (drop a xs) @ take (c - b) (drop (b - a) (drop a xs))"
    by (rule take_add)
  finally show ?thesis using assms by (simp add: byte_slice_def)
qed

lemma byte_slice_Suc: "i < length xs \<Longrightarrow> byte_slice i (Suc i) xs = [xs ! i]"
  by (simp add: byte_slice_def take_Suc hd_drop_conv_nth)

lemma byte_slice_2:
  assumes "Suc i < length xs"
  shows "byte_slice i (Suc (Suc i)) xs = [xs ! i, xs ! Suc i]"
  using assms byte_slice_split [of i "Suc i" "Suc (Suc i)" xs] by (simp add: byte_slice_Suc)

lemma set_byte_slice: "set (byte_slice a b xs) \<subseteq> set xs"
  by (auto simp: byte_slice_def dest: in_set_takeD in_set_dropD)

end
