(* ===== verification/Key_Codec.thy ===== *)
theory Key_Codec
  imports Dodb_Prelude
begin

text \<open>
  The document key of \<open>dodb-core/src/key.rs\<close>: a primary key and a sort key, both arbitrary
  byte strings, and the canonical encoding the B+Tree orders its records by. The theory shows
  that the encoding and the checked decoder are inverse to each other in both directions and
  that bytewise comparison of encodings is comparison of keys. The locale \<open>ordered_codec\<close>
  is what the storage engine relies on.
\<close>

section \<open>Keys\<close>

text \<open>
  \<open>PrimaryKey\<close> and \<open>SortKey\<close> are newtypes of \<open>Vec<u8>\<close> with the derived (that is,
  lexicographic) order; \<open>DocumentKey\<close> derives its order from its fields in order.
\<close>

type_synonym primary_key = bytes
type_synonym sort_key = bytes

datatype document_key = DocumentKey (pk: primary_key) (sk: sort_key)

instantiation document_key :: linorder
begin

definition less_document_key :: "document_key \<Rightarrow> document_key \<Rightarrow> bool" where
  "less_document_key a b \<longleftrightarrow> pk a < pk b \<or> (pk a = pk b \<and> sk a < sk b)"

definition less_eq_document_key :: "document_key \<Rightarrow> document_key \<Rightarrow> bool" where
  "less_eq_document_key a b \<longleftrightarrow> pk a < pk b \<or> (pk a = pk b \<and> sk a \<le> sk b)"

instance
  by standard
    (auto simp: less_document_key_def less_eq_document_key_def intro: document_key.expand)

end

datatype key_codec_error =
    TruncatedEscape usize
  | InvalidEscape usize u8
  | MissingComponent usize
  | TrailingBytes usize

section \<open>Encoding\<close>

definition encode_component :: "bytes \<Rightarrow> bytes \<Rightarrow> bytes" where
  "encode_component bs output =
     fold (\<lambda>byte out. if byte = 0 then out @ [0, 0xff] else out @ [byte]) bs output @ [0, 0]"

definition encoded_component_len :: "bytes \<Rightarrow> usize" where
  "encoded_component_len bs = length bs + length (filter (\<lambda>byte. byte = 0) bs) + 2"

definition document_key_encode :: "document_key \<Rightarrow> bytes" where
  "document_key_encode k = encode_component (sk k) (encode_component (pk k) [])"

definition document_key_encoded_len :: "document_key \<Rightarrow> usize" where
  "document_key_encoded_len k = encoded_component_len (pk k) + encoded_component_len (sk k)"

section \<open>Decoding\<close>

function decode_component_loop ::
  "bytes \<Rightarrow> usize \<Rightarrow> bytes \<Rightarrow> key_codec_error + bytes \<times> usize" where
  "decode_component_loop encoded offset acc =
     (if offset < length encoded then
        (let byte = encoded ! offset in
         if byte \<noteq> 0 then decode_component_loop encoded (offset + 1) (acc @ [byte])
         else if offset + 1 < length encoded then
           (let escape = encoded ! (offset + 1) in
            if escape = 0 then Inr (acc, offset + 2)
            else if escape = 0xff then decode_component_loop encoded (offset + 2) (acc @ [0])
            else Inl (InvalidEscape offset escape))
         else Inl (TruncatedEscape offset))
      else Inl (TruncatedEscape offset))"
  by pat_completeness auto
termination
  by (relation "measure (\<lambda>(encoded, offset, acc). length encoded - offset)") auto

declare decode_component_loop.simps [simp del]

definition decode_component :: "bytes \<Rightarrow> usize \<Rightarrow> key_codec_error + bytes \<times> usize" where
  "decode_component encoded start =
     (if length encoded \<le> start then Inl (MissingComponent start)
      else decode_component_loop encoded start [])"

definition document_key_decode :: "bytes \<Rightarrow> key_codec_error + document_key" where
  "document_key_decode encoded =
     bindR (decode_component encoded 0) (\<lambda>(p, next).
     bindR (decode_component encoded next) (\<lambda>(s, end).
     if end \<noteq> length encoded then Inl (TrailingBytes end)
     else Inr (DocumentKey p s)))"

section \<open>The escaped form of one component\<close>

definition escape_bytes :: "bytes \<Rightarrow> bytes" where
  "escape_bytes bs = concat (map (\<lambda>byte. if byte = 0 then [0, 0xff] else [byte]) bs)"

lemma escape_bytes_simps [simp]:
  "escape_bytes [] = []"
  "escape_bytes (b # bs) = (if b = 0 then [0, 0xff] else [b]) @ escape_bytes bs"
  by (simp_all add: escape_bytes_def)

lemma encode_component_eq: "encode_component bs out = out @ escape_bytes bs @ [0, 0]"
proof -
  have "fold (\<lambda>byte out. if byte = 0 then out @ [0, 0xff] else out @ [byte]) bs out
          = out @ escape_bytes bs"
    by (induction bs arbitrary: out) auto
  then show ?thesis by (simp add: encode_component_def)
qed

lemma document_key_encode_eq:
  "document_key_encode k = escape_bytes (pk k) @ [0, 0] @ escape_bytes (sk k) @ [0, 0]"
  by (simp add: document_key_encode_def encode_component_eq)

lemma length_escape_bytes:
  "length (escape_bytes bs) = length bs + length (filter (\<lambda>byte. byte = 0) bs)"
  by (induction bs) auto

lemma word8_0_less_iff: "(0 :: u8) < c \<longleftrightarrow> c \<noteq> 0"
  by (simp add: word_neq_0_conv)

lemma escape_order:
  "escape_bytes a @ 0 # 0 # x < escape_bytes b @ 0 # 0 # y \<longleftrightarrow> a < b \<or> a = b \<and> x < y"
proof (induction a arbitrary: b)
  case Nil
  show ?case by (cases b) (auto simp: word8_0_less_iff)
next
  case (Cons c cs)
  show ?case
  proof (cases b)
    case Nil
    then show ?thesis by (auto simp: word8_0_less_iff)
  next
    case (Cons d ds)
    then show ?thesis using Cons.IH [of ds] by (auto simp: word8_0_less_iff)
  qed
qed

lemma decode_component_loop_escape:
  "decode_component_loop (pre @ escape_bytes bs @ 0 # 0 # rest) (length pre) acc
     = Inr (acc @ bs, length pre + length (escape_bytes bs) + 2)"
proof (induction bs arbitrary: pre acc)
  case Nil
  show ?case by (subst decode_component_loop.simps) (simp add: nth_append)
next
  case (Cons b bs)
  show ?case
  proof (cases "b = 0")
    case True
    then have "decode_component_loop (pre @ escape_bytes (b # bs) @ 0 # 0 # rest) (length pre) acc
        = decode_component_loop ((pre @ [0, 0xff]) @ escape_bytes bs @ 0 # 0 # rest)
            (length (pre @ [0, 0xff])) (acc @ [0])"
      by (subst decode_component_loop.simps) (simp add: nth_append)
    also have "\<dots> = Inr ((acc @ [0]) @ bs, length (pre @ [0, 0xff]) + length (escape_bytes bs) + 2)"
      by (rule Cons.IH)
    finally show ?thesis using True by simp
  next
    case False
    then have "decode_component_loop (pre @ escape_bytes (b # bs) @ 0 # 0 # rest) (length pre) acc
        = decode_component_loop ((pre @ [b]) @ escape_bytes bs @ 0 # 0 # rest)
            (length (pre @ [b])) (acc @ [b])"
      by (subst decode_component_loop.simps) (simp add: nth_append)
    also have "\<dots> = Inr ((acc @ [b]) @ bs, length (pre @ [b]) + length (escape_bytes bs) + 2)"
      by (rule Cons.IH)
    finally show ?thesis using False by simp
  qed
qed

lemma decode_component_loop_sound:
  "decode_component_loop encoded offset acc = Inr (out, end) \<Longrightarrow>
     \<exists>bs. out = acc @ bs \<and> offset < end \<and> end \<le> length encoded \<and>
       byte_slice offset end encoded = escape_bytes bs @ [0, 0]"
proof (induction encoded offset acc rule: decode_component_loop.induct)
  case (1 encoded offset acc)
  show ?case
  proof (cases "offset < length encoded \<and> encoded ! offset \<noteq> 0")
    case True
    then have "decode_component_loop encoded (offset + 1) (acc @ [encoded ! offset]) = Inr (out, end)"
      using "1.prems" by (subst (asm) decode_component_loop.simps) simp
    then obtain bs where "out = (acc @ [encoded ! offset]) @ bs" "offset + 1 < end"
        "end \<le> length encoded" "byte_slice (offset + 1) end encoded = escape_bytes bs @ [0, 0]"
      using "1.IH"(1) True by blast
    then show ?thesis
      using True byte_slice_Suc [of offset encoded] byte_slice_split [of offset "offset + 1" "end" encoded]
      by (intro exI [of _ "encoded ! offset # bs"]) simp
  next
    case False
    show ?thesis
    proof (cases "offset + 1 < length encoded \<and> encoded ! (offset + 1) = 0xff")
      case True
      then have rec: "decode_component_loop encoded (offset + 2) (acc @ [0]) = Inr (out, end)"
        using "1.prems" False by (subst (asm) decode_component_loop.simps) simp
      then obtain bs where "out = (acc @ [0]) @ bs" "offset + 2 < end"
          "end \<le> length encoded" "byte_slice (offset + 2) end encoded = escape_bytes bs @ [0, 0]"
        using "1.IH"(2) True False by fastforce
      then show ?thesis
        using True False byte_slice_2 [of offset encoded]
          byte_slice_split [of offset "offset + 2" "end" encoded]
        by (intro exI [of _ "0 # bs"]) simp
    next
      case no_escape: False
      have hyps: "offset + 1 < length encoded" "encoded ! offset = 0" "encoded ! (offset + 1) = 0"
          "out = acc" "end = offset + 2"
        using "1.prems" False no_escape
        by (simp_all add: decode_component_loop.simps [of encoded offset acc] Let_def split: if_splits)
      then show ?thesis using byte_slice_2 [of offset encoded] by (intro exI [of _ "[]"]) simp
    qed
  qed
qed

section \<open>The codec as an interface\<close>

text \<open>
  What a client of an ordered key encoding may rely on: decoding accepts exactly the encodings
  and inverts them, and the order of encodings is the order of keys.
\<close>

locale ordered_codec =
  fixes encode :: "'k::linorder \<Rightarrow> 'b::linorder"
    and decode :: "'b \<Rightarrow> 'e + 'k"
  assumes decode_iff: "decode b = Inr k \<longleftrightarrow> encode k = b"
    and encode_less_iff: "encode k < encode k' \<longleftrightarrow> k < k'"
begin

lemma decode_encode: "decode (encode k) = Inr k"
  by (simp add: decode_iff)

lemma encode_inject: "encode k = encode k' \<longleftrightarrow> k = k'"
  by (metis decode_encode sum.inject(2))

lemma encode_le_iff: "encode k \<le> encode k' \<longleftrightarrow> k \<le> k'"
  by (metis encode_less_iff linorder_not_less)

lemma decode_less_iff:
  "decode b = Inr k \<Longrightarrow> decode b' = Inr k' \<Longrightarrow> b < b' \<longleftrightarrow> k < k'"
  using encode_less_iff by (auto simp: decode_iff)

lemma decode_inject: "decode b = Inr k \<Longrightarrow> decode b' = Inr k \<Longrightarrow> b = b'"
  by (simp add: decode_iff)

lemma sorted_decode:
  "sorted_wrt (<) bs \<Longrightarrow> list_all2 (\<lambda>b k. decode b = Inr k) bs ks \<Longrightarrow> sorted_wrt (<) ks"
  unfolding sorted_wrt_iff_nth_less list_all2_conv_all_nth
  by (metis decode_less_iff less_trans)

end

lemma decode_component_at:
  "length pre \<noteq> length enc \<Longrightarrow> enc = pre @ escape_bytes bs @ 0 # 0 # rest \<Longrightarrow>
     decode_component enc (length pre) = Inr (bs, length pre + length (escape_bytes bs) + 2)"
  using decode_component_loop_escape [of pre bs rest "[]"] by (simp add: decode_component_def)

lemma document_key_decode_encode: "document_key_decode (document_key_encode k) = Inr k"
proof -
  let ?p = "escape_bytes (pk k)" and ?s = "escape_bytes (sk k)"
  have "decode_component (document_key_encode k) 0 = Inr (pk k, length ?p + 2)"
    using decode_component_at [of "[]" "document_key_encode k" "pk k" "?s @ [0, 0]"]
    by (simp add: document_key_encode_eq)
  moreover have "decode_component (document_key_encode k) (length ?p + 2)
      = Inr (sk k, length ?p + 2 + length ?s + 2)"
    using decode_component_at [of "?p @ [0, 0]" "document_key_encode k" "sk k" "[]"]
    by (simp add: document_key_encode_eq)
  ultimately show ?thesis
    by (simp add: document_key_decode_def document_key_encode_eq)
qed

lemma decode_component_sound:
  assumes "decode_component encoded start = Inr (out, end)"
  shows "start < end \<and> end \<le> length encoded \<and>
    byte_slice start end encoded = escape_bytes out @ [0, 0]"
  using assms decode_component_loop_sound [of encoded start "[]" out "end"]
  by (auto simp: decode_component_def split: if_splits)

lemma document_key_encode_decode:
  assumes "document_key_decode encoded = Inr k"
  shows "document_key_encode k = encoded"
proof -
  obtain p n s where p: "decode_component encoded 0 = Inr (p, n)"
      and s: "decode_component encoded n = Inr (s, length encoded)" and k: "k = DocumentKey p s"
    using assms by (auto simp: document_key_decode_def split: if_splits)
  have "encoded = byte_slice 0 n encoded @ byte_slice n (length encoded) encoded"
    using decode_component_sound [OF p] byte_slice_split [of 0 n "length encoded" encoded]
    by (simp add: byte_slice_def)
  then show ?thesis
    using decode_component_sound [OF p] decode_component_sound [OF s] k
    by (simp add: document_key_encode_eq)
qed

interpretation document_key: ordered_codec document_key_encode document_key_decode
proof
  show "document_key_decode b = Inr k \<longleftrightarrow> document_key_encode k = b" for b k
    using document_key_decode_encode document_key_encode_decode by blast
  show "document_key_encode k < document_key_encode k' \<longleftrightarrow> k < k'" for k k'
    using escape_order [of "pk k" "escape_bytes (sk k) @ [0, 0]" "pk k'" "escape_bytes (sk k') @ [0, 0]"]
      escape_order [of "sk k" "[]" "sk k'" "[]"]
    by (auto simp: document_key_encode_eq less_document_key_def)
qed

section \<open>Properties\<close>

lemma length_document_key_encode: "length (document_key_encode k) = document_key_encoded_len k"
  by (simp add: document_key_encode_eq document_key_encoded_len_def encoded_component_len_def
      length_escape_bytes)

lemma document_key_encode_pk_start:
  "document_key_encode (DocumentKey p []) \<le> document_key_encode (DocumentKey p s)"
  unfolding document_key.encode_le_iff by (simp add: less_eq_document_key_def)

text \<open>
  C18. The decoder accepts exactly the canonical encodings and returns the key that was encoded:
  \<open>decode(bytes) = Ok(key)\<close> if and only if \<open>bytes = key.encode()\<close>. So encoding then
  decoding gives the key back for all binary contents, empty components included, and no second
  byte string decodes to the same key.
\<close>

theorem document_key_codec_exact:
  "document_key_decode encoded = Inr k \<longleftrightarrow> document_key_encode k = encoded"
  by (rule document_key.decode_iff)

text \<open>
  C17. Bytewise lexicographic comparison of two encoded keys is the derived comparison of the
  keys (primary key first, then sort key), so an engine that orders encoded keys orders documents.
\<close>

theorem document_key_encode_order:
  "(document_key_encode a < document_key_encode b \<longleftrightarrow> a < b) \<and>
   (document_key_encode a \<le> document_key_encode b \<longleftrightarrow> a \<le> b)"
  using document_key.encode_less_iff document_key.encode_le_iff by blast

end
