(* ===== verification/Btree_Map.thy ===== *)
theory Btree_Map
  imports Dodb_Prelude
begin

text \<open>
  The \<open>BTreeMap\<close> of Rust's standard library as the code uses it: a list of key-value pairs in
  strictly ascending key order, so that iteration order is explicit. Lookup is \<open>map_of\<close>.
  The interface the clients rely on is the locale \<open>ordered_map\<close>, whose laws the
  operations below are shown to satisfy; what several insertions in a row do is proved
  once inside it.
\<close>

section \<open>Operations\<close>

type_synonym ('k, 'v) bmap = "('k \<times> 'v) list"

fun bm_insert :: "'k::linorder \<Rightarrow> 'v \<Rightarrow> ('k, 'v) bmap \<Rightarrow> ('k, 'v) bmap" where
  "bm_insert k v [] = [(k, v)]"
| "bm_insert k v ((k', v') # m) =
     (if k < k' then (k, v) # (k', v') # m
      else if k = k' then (k, v) # m
      else (k', v') # bm_insert k v m)"

definition bm_remove :: "'k::linorder \<Rightarrow> ('k, 'v) bmap \<Rightarrow> ('k, 'v) bmap" where
  "bm_remove k m = filter (\<lambda>(k', v). k' \<noteq> k) m"

definition bm_extend :: "('k::linorder, 'v) bmap \<Rightarrow> ('k \<times> 'v) list \<Rightarrow> ('k, 'v) bmap" where
  "bm_extend m kvs = fold (\<lambda>(k, v). bm_insert k v) kvs m"

definition bm_wf :: "('k::linorder, 'v) bmap \<Rightarrow> bool" where
  "bm_wf m \<longleftrightarrow> sorted_wrt (<) (map fst m)"

section \<open>The interface\<close>

locale ordered_map =
  fixes lookup :: "'m \<Rightarrow> 'k::linorder \<Rightarrow> 'v option"
    and insert :: "'k \<Rightarrow> 'v \<Rightarrow> 'm \<Rightarrow> 'm"
    and remove :: "'k \<Rightarrow> 'm \<Rightarrow> 'm"
    and entries :: "'m \<Rightarrow> ('k \<times> 'v) list"
    and invar :: "'m \<Rightarrow> bool"
  assumes lookup_insert: "lookup (insert k v m) = (lookup m)(k \<mapsto> v)"
    and lookup_remove: "lookup (remove k m) = (lookup m)(k := None)"
    and lookup_entries: "lookup m = map_of (entries m)"
    and invar_insert: "invar m \<Longrightarrow> invar (insert k v m)"
    and invar_remove: "invar m \<Longrightarrow> invar (remove k m)"
    and entries_sorted: "invar m \<Longrightarrow> sorted_wrt (<) (map fst (entries m))"
begin

lemma lookup_insert_many:
  "lookup (fold (\<lambda>(k, v). insert k v) kvs m) = lookup m ++ map_of (rev kvs)"
proof (induction kvs arbitrary: m)
  case Nil
  show ?case by simp
next
  case (Cons kv kvs)
  then show ?case by (cases kv) (simp add: lookup_insert map_add_def fun_eq_iff split: option.splits)
qed

lemma invar_insert_many: "invar m \<Longrightarrow> invar (fold (\<lambda>(k, v). insert k v) kvs m)"
  by (induction kvs arbitrary: m) (auto simp: invar_insert)

lemma entries_distinct: "invar m \<Longrightarrow> distinct (map fst (entries m))"
  using entries_sorted by (simp add: strict_sorted_iff)

lemma lookup_eq_Some_iff: "invar m \<Longrightarrow> lookup m k = Some v \<longleftrightarrow> (k, v) \<in> set (entries m)"
  by (simp add: lookup_entries entries_distinct)

end

section \<open>The operations satisfy it\<close>

lemma map_of_bm_insert [simp]: "map_of (bm_insert k v m) = (map_of m)(k \<mapsto> v)"
  by (induction m) auto

lemma map_of_bm_remove [simp]: "map_of (bm_remove k m) = (map_of m)(k := None)"
  by (induction m) (auto simp: bm_remove_def fun_eq_iff)

lemma fst_set_bm_insert: "fst ` set (bm_insert k v m) = insert k (fst ` set m)"
  by (simp flip: dom_map_of_conv_image_fst)

lemma bm_wf_Nil [simp]: "bm_wf []"
  by (simp add: bm_wf_def)

lemma bm_wf_insert [simp]: "bm_wf m \<Longrightarrow> bm_wf (bm_insert k v m)"
proof (induction m)
  case Nil
  show ?case by (simp add: bm_wf_def)
next
  case (Cons kv m)
  obtain k' v' where kv: "kv = (k', v')" by force
  have "\<forall>x \<in> fst ` set m. k' < x" and m: "bm_wf m" using Cons.prems kv by (auto simp: bm_wf_def)
  then have "\<forall>x \<in> fst ` set (bm_insert k v m). k' < x" if "k' < k"
    using that by (simp add: fst_set_bm_insert)
  then show ?case using Cons.IH [OF m] Cons.prems kv
    by (auto simp: bm_wf_def)
qed

lemma bm_wf_remove [simp]: "bm_wf m \<Longrightarrow> bm_wf (bm_remove k m)"
  unfolding bm_wf_def bm_remove_def
  by (induction m) auto

interpretation bmap: ordered_map map_of bm_insert bm_remove "\<lambda>m. m" bm_wf
  by unfold_locales (simp_all add: bm_wf_def [THEN iffD1])

lemma map_of_bm_extend: "map_of (bm_extend m kvs) = map_of m ++ map_of (rev kvs)"
  unfolding bm_extend_def by (rule bmap.lookup_insert_many)

lemma bm_wf_extend [simp]: "bm_wf m \<Longrightarrow> bm_wf (bm_extend m kvs)"
  unfolding bm_extend_def by (rule bmap.invar_insert_many)

lemma map_of_rev_wf: "bm_wf kvs \<Longrightarrow> map_of (rev kvs) = map_of kvs"
  using bmap.entries_distinct [of kvs]
  by (intro map_of_eqI) (auto simp: rev_map [symmetric] image_comp intro: map_of_is_SomeI)

lemma length_bm_card: "bm_wf m \<Longrightarrow> length m = card (fst ` set m)"
  using distinct_card [OF bmap.entries_distinct [of m]] by simp

lemma length_bm_insert:
  "bm_wf m \<Longrightarrow> length (bm_insert k v m) = (if k \<in> fst ` set m then length m else Suc (length m))"
  by (simp add: length_bm_card fst_set_bm_insert insert_absorb)

lemma length_bm_insert_le: "length (bm_insert k v m) \<le> Suc (length m)"
  by (induction m) auto

lemma length_bm_remove:
  assumes "bm_wf m" "k \<in> fst ` set m"
  shows "Suc (length (bm_remove k m)) = length m"
proof -
  have "fst ` set (bm_remove k m) = fst ` set m - {k}"
    by (simp flip: dom_map_of_conv_image_fst)
  then have "length (bm_remove k m) = card (fst ` set m - {k})"
    using length_bm_card [OF bm_wf_remove [OF assms(1)]] by simp
  also have "Suc \<dots> = card (fst ` set m)"
    using assms(2) by (intro card.remove [symmetric]) auto
  finally show ?thesis using length_bm_card [OF assms(1)] by simp
qed

end
