(* ===== verification/Core_Types.thy ===== *)
theory Core_Types
  imports Key_Codec Btree_Map
begin

text \<open>
  The semantic contracts of \<open>dodb-core\<close>: identifiers (\<open>identifiers.rs\<close>), revision states
  (\<open>revision.rs\<close>), the transaction vocabulary and its validation (\<open>transaction.rs\<close>) and the
  shared error type (\<open>error.rs\<close>). Error constructors keep their structured payload; the
  human-readable message text is not modelled.
\<close>

section \<open>Identifiers\<close>

text \<open>Each identifier is a newtype of \<open>u64\<close> with the derived order.\<close>

type_synonym tenant_id = u64
type_synonym shard_id = u64
type_synonym shard_epoch = u64
type_synonym page_id = u64
type_synonym lsn = u64
type_synonym txn_id = u64
type_synonym revision = u64

section \<open>Revision states\<close>

datatype revision_state =
    Present (state_value: bytes) revision
  | Missing revision

datatype observed_state =
    ObservedPresent revision
  | ObservedMissing revision

primrec observed_revision :: "observed_state \<Rightarrow> revision" where
  "observed_revision (ObservedPresent r) = r"
| "observed_revision (ObservedMissing r) = r"

primrec observed_is_missing :: "observed_state \<Rightarrow> bool" where
  "observed_is_missing (ObservedPresent r) = False"
| "observed_is_missing (ObservedMissing r) = True"

primrec state_revision :: "revision_state \<Rightarrow> revision" where
  "state_revision (Present v r) = r"
| "state_revision (Missing r) = r"

primrec state_value_opt :: "revision_state \<Rightarrow> bytes option" where
  "state_value_opt (Present v r) = Some v"
| "state_value_opt (Missing r) = None"

primrec state_is_missing :: "revision_state \<Rightarrow> bool" where
  "state_is_missing (Present v r) = False"
| "state_is_missing (Missing r) = True"

primrec observed :: "revision_state \<Rightarrow> observed_state" where
  "observed (Present v r) = ObservedPresent r"
| "observed (Missing r) = ObservedMissing r"

lemma observed_revision_observed [simp]: "observed_revision (observed s) = state_revision s"
  by (cases s) auto

lemma observed_is_missing_observed [simp]: "observed_is_missing (observed s) = state_is_missing s"
  by (cases s) auto

section \<open>Transactions\<close>

datatype write_intent = PutIntent bytes | DeleteIntent

datatype transaction_condition =
    RevisionEquals document_key revision
  | Exists document_key
  | NotExists document_key

datatype condition_expectation =
    ExpectRevisionEquals revision
  | ExpectExists
  | ExpectNotExists

datatype transaction_mutation =
    MutPut document_key bytes
  | MutDelete document_key

record transaction_request =
  conditions :: "transaction_condition list"
  mutations :: "transaction_mutation list"

record transaction_result =
  result_commit_lsn :: "lsn option"

record transaction_conflict =
  conflict_key :: document_key
  conflict_expected :: condition_expectation
  conflict_actual :: observed_state

fun condition_key :: "transaction_condition \<Rightarrow> document_key" where
  "condition_key (RevisionEquals k _) = k"
| "condition_key (Exists k) = k"
| "condition_key (NotExists k) = k"

fun expectation :: "transaction_condition \<Rightarrow> condition_expectation" where
  "expectation (RevisionEquals _ r) = ExpectRevisionEquals r"
| "expectation (Exists _) = ExpectExists"
| "expectation (NotExists _) = ExpectNotExists"

fun mutation_key :: "transaction_mutation \<Rightarrow> document_key" where
  "mutation_key (MutPut k _) = k"
| "mutation_key (MutDelete k) = k"

datatype error =
    InvalidInput
  | InvalidRequest
  | Overloaded
  | ResponseTooLarge
  | Conflict transaction_conflict
  | Corruption
  | Io
  | UnsupportedFormat
  | DurabilityFailure
  | RecoveryFailure
  | CheckpointFailure
  | InternalInvariantViolation

type_synonym 'a result = "error + 'a"

fun reject_duplicate_keys :: "document_key list \<Rightarrow> document_key set \<Rightarrow> unit result" where
  "reject_duplicate_keys [] seen = Inr ()"
| "reject_duplicate_keys (k # ks) seen =
     (if k \<in> seen then Inl InvalidRequest else reject_duplicate_keys ks (insert k seen))"

definition validate_request :: "transaction_request \<Rightarrow> unit result" where
  "validate_request req =
     (if conditions req = [] \<and> mutations req = [] then Inl InvalidRequest
      else bindR (reject_duplicate_keys (map mutation_key (mutations req)) {}) (\<lambda>_.
           reject_duplicate_keys (map condition_key (conditions req)) {}))"

text \<open>The test of one condition against the observed state of its key.\<close>

fun condition_satisfied :: "transaction_condition \<Rightarrow> observed_state \<Rightarrow> bool" where
  "condition_satisfied (RevisionEquals _ r) actual \<longleftrightarrow> observed_revision actual = r"
| "condition_satisfied (Exists _) actual \<longleftrightarrow> \<not> observed_is_missing actual"
| "condition_satisfied (NotExists _) actual \<longleftrightarrow> observed_is_missing actual"

definition conflict_of :: "transaction_condition \<Rightarrow> observed_state \<Rightarrow> error" where
  "conflict_of c actual =
     Conflict \<lparr>conflict_key = condition_key c, conflict_expected = expectation c,
               conflict_actual = actual\<rparr>"

section \<open>Read and write sets\<close>

type_synonym read_set = "(document_key, revision) bmap"
type_synonym write_set = "(document_key, write_intent) bmap"

definition read_set_record :: "document_key \<Rightarrow> revision \<Rightarrow> read_set \<Rightarrow> read_set" where
  "read_set_record k r rs = (case map_of rs k of None \<Rightarrow> bm_insert k r rs | Some _ \<Rightarrow> rs)"

definition write_set_put :: "document_key \<Rightarrow> bytes \<Rightarrow> write_set \<Rightarrow> write_set" where
  "write_set_put k v ws = bm_insert k (PutIntent v) ws"

definition write_set_delete :: "document_key \<Rightarrow> write_set \<Rightarrow> write_set" where
  "write_set_delete k ws = bm_insert k DeleteIntent ws"

section \<open>Validation\<close>

lemma reject_duplicate_keys_ok:
  "reject_duplicate_keys ks seen = Inr () \<longleftrightarrow> distinct ks \<and> set ks \<inter> seen = {}"
  by (induction ks arbitrary: seen) auto

lemma reject_duplicate_keys_error:
  "reject_duplicate_keys ks seen = Inl e \<Longrightarrow> e = InvalidRequest"
  by (induction ks arbitrary: seen) (auto split: if_splits)

lemma validate_request_ok:
  "validate_request req = Inr () \<longleftrightarrow>
     (conditions req \<noteq> [] \<or> mutations req \<noteq> []) \<and>
     distinct (map mutation_key (mutations req)) \<and>
     distinct (map condition_key (conditions req))"
  by (auto simp: validate_request_def reject_duplicate_keys_ok)

lemma validate_request_error: "validate_request req = Inl e \<Longrightarrow> e = InvalidRequest"
  by (auto simp: validate_request_def bindR_eq_Inl split: if_splits dest: reject_duplicate_keys_error)

lemma map_of_read_set_record:
  "map_of (read_set_record k r rs) =
     (if map_of rs k = None then (map_of rs)(k \<mapsto> r) else map_of rs)"
  by (auto simp: read_set_record_def split: option.splits)

lemma bm_wf_read_set_record [simp]: "bm_wf rs \<Longrightarrow> bm_wf (read_set_record k r rs)"
  by (auto simp: read_set_record_def split: option.splits)

end
