(* ===== verification/Reference_Db.thy ===== *)
theory Reference_Db
  imports Core_Types
begin

text \<open>
  The deterministic reference database of \<open>dodb-testkit/src/reference.rs\<close>: the semantics the
  storage engine promises, as a map from document keys to revision states. It is the abstract
  specification the engine is refined to. The theory shows that a request is atomic, that a
  revision identifies a state transition (so that optimistic validation cannot be fooled by a
  delete and a re-insert), and what a committed optimistic transaction has observed.
\<close>

section \<open>The database\<close>

record reference_db =
  states :: "(document_key, revision_state) bmap"
  ref_next_lsn :: lsn
  ref_next_txn_id :: txn_id

record document =
  doc_key :: document_key
  doc_value :: bytes
  doc_revision :: revision

definition ref_new :: reference_db where
  "ref_new = \<lparr>states = [], ref_next_lsn = 1, ref_next_txn_id = 1\<rparr>"

definition ref_get :: "reference_db \<Rightarrow> document_key \<Rightarrow> revision_state" where
  "ref_get db k = (case map_of (states db) k of None \<Rightarrow> Missing 0 | Some s \<Rightarrow> s)"

fun ref_check_conditions :: "reference_db \<Rightarrow> transaction_condition list \<Rightarrow> unit result" where
  "ref_check_conditions db [] = Inr ()"
| "ref_check_conditions db (c # cs) =
     (let actual = ref_get db (condition_key c) in
      if \<not> condition_satisfied c (observed actual) then Inl (conflict_of c (observed actual))
      else ref_check_conditions db cs)"

fun mutation_state :: "revision \<Rightarrow> transaction_mutation \<Rightarrow> revision_state" where
  "mutation_state r (MutPut k v) = Present v r"
| "mutation_state r (MutDelete k) = Missing r"

definition ref_apply :: "revision \<Rightarrow> transaction_mutation list
    \<Rightarrow> (document_key, revision_state) bmap \<Rightarrow> (document_key, revision_state) bmap" where
  "ref_apply r ms st = fold (\<lambda>m. bm_insert (mutation_key m) (mutation_state r m)) ms st"

definition ref_transact_at ::
  "transaction_request \<Rightarrow> lsn \<Rightarrow> (reference_db, error, lsn option) stateful" where
  "ref_transact_at req commit_lsn db =
     (case validate_request req of
        Inl e \<Rightarrow> (Inl e, db)
      | Inr _ \<Rightarrow>
     (case ref_check_conditions db (conditions req) of
        Inl e \<Rightarrow> (Inl e, db)
      | Inr _ \<Rightarrow>
        if mutations req = [] then (Inr None, db)
        else if commit_lsn = 0 then (Inl InvalidRequest, db)
        else
          (let db' = db\<lparr>states := ref_apply commit_lsn (mutations req) (states db)\<rparr> in
           case checked_add_u64 commit_lsn 1 of
             None \<Rightarrow> (Inl InternalInvariantViolation, db')
           | Some next_lsn \<Rightarrow>
               (Inr (Some commit_lsn),
                if next_lsn > ref_next_lsn db' then db'\<lparr>ref_next_lsn := next_lsn\<rparr> else db'))))"

definition ref_transact :: "transaction_request \<Rightarrow> (reference_db, error, lsn option) stateful" where
  "ref_transact req db = ref_transact_at req (ref_next_lsn db) db"

definition ref_transact_get :: "reference_db \<Rightarrow> document_key list \<Rightarrow> revision_state list" where
  "ref_transact_get db ks = map (ref_get db) ks"

fun ref_row :: "document_key \<times> revision_state \<Rightarrow> document option" where
  "ref_row (k, Present v r) = Some \<lparr>doc_key = k, doc_value = v, doc_revision = r\<rparr>"
| "ref_row (k, Missing r) = None"

definition ref_query ::
  "reference_db \<Rightarrow> primary_key \<Rightarrow> sort_key option \<Rightarrow> usize \<Rightarrow> document list" where
  "ref_query db p after limit =
     take limit (List.map_filter (\<lambda>(k, s).
       if pk k \<noteq> p \<or> (case after of None \<Rightarrow> False | Some cursor \<Rightarrow> sk k \<le> cursor) then None
       else ref_row (k, s)) (states db))"

definition ref_scan :: "reference_db \<Rightarrow> document_key option \<Rightarrow> usize \<Rightarrow> document list" where
  "ref_scan db after limit =
     take limit (List.map_filter (\<lambda>(k, s).
       if (case after of None \<Rightarrow> False | Some cursor \<Rightarrow> k \<le> cursor) then None
       else ref_row (k, s)) (states db))"

definition ref_present_count :: "reference_db \<Rightarrow> usize" where
  "ref_present_count db = length (filter (\<lambda>(k, s). \<not> state_is_missing s) (states db))"

section \<open>Optimistic transactions\<close>

record reference_transaction =
  txn_id :: txn_id
  txn_conditions :: "transaction_condition list"
  txn_read_set :: read_set
  txn_write_set :: write_set

text \<open>\<open>begin\<close> panics when the transaction ids are exhausted: \<open>None\<close>.\<close>

definition ref_begin :: "reference_db \<Rightarrow> (reference_transaction \<times> reference_db) option" where
  "ref_begin db =
     (case checked_add_u64 (ref_next_txn_id db) 1 of
        None \<Rightarrow> None
      | Some n \<Rightarrow>
          Some (\<lparr>txn_id = ref_next_txn_id db, txn_conditions = [], txn_read_set = [],
                 txn_write_set = []\<rparr>, db\<lparr>ref_next_txn_id := n\<rparr>))"

definition txn_observe ::
  "reference_db \<Rightarrow> document_key \<Rightarrow> reference_transaction \<Rightarrow> reference_transaction" where
  "txn_observe db k t =
     t\<lparr>txn_read_set := read_set_record k (state_revision (ref_get db k)) (txn_read_set t)\<rparr>"

text \<open>The \<open>expect\<close> in \<open>read\<close> cannot fire: the key was recorded just before.\<close>

definition txn_read ::
  "reference_db \<Rightarrow> document_key \<Rightarrow> reference_transaction \<Rightarrow> revision_state \<times> reference_transaction"
where
  "txn_read db k t =
     (let state = ref_get db k;
          t' = t\<lparr>txn_read_set := read_set_record k (state_revision state) (txn_read_set t)\<rparr>;
          seen = the (map_of (txn_read_set t') k)
      in ((case map_of (txn_write_set t') k of
             Some (PutIntent v) \<Rightarrow> Present v seen
           | Some DeleteIntent \<Rightarrow> Missing seen
           | None \<Rightarrow> state), t'))"

definition txn_put ::
  "reference_db \<Rightarrow> document_key \<Rightarrow> bytes \<Rightarrow> reference_transaction \<Rightarrow> reference_transaction" where
  "txn_put db k v t =
     (let t' = txn_observe db k t in t'\<lparr>txn_write_set := write_set_put k v (txn_write_set t')\<rparr>)"

definition txn_delete ::
  "reference_db \<Rightarrow> document_key \<Rightarrow> reference_transaction \<Rightarrow> reference_transaction" where
  "txn_delete db k t =
     (let t' = txn_observe db k t in t'\<lparr>txn_write_set := write_set_delete k (txn_write_set t')\<rparr>)"

fun intent_mutation :: "document_key \<times> write_intent \<Rightarrow> transaction_mutation" where
  "intent_mutation (k, PutIntent v) = MutPut k v"
| "intent_mutation (k, DeleteIntent) = MutDelete k"

definition ref_commit :: "reference_transaction \<Rightarrow> (reference_db, error, lsn option) stateful" where
  "ref_commit t db =
     ref_transact
       \<lparr>conditions = map (\<lambda>(k, r). RevisionEquals k r) (txn_read_set t) @ txn_conditions t,
        mutations = map intent_mutation (txn_write_set t)\<rparr> db"

definition ref_put :: "document_key \<Rightarrow> bytes \<Rightarrow> reference_db \<Rightarrow> (lsn result \<times> reference_db) option" where
  "ref_put k v db =
     (case ref_begin db of
        None \<Rightarrow> None
      | Some (t, db1) \<Rightarrow>
          (case ref_commit (txn_put db1 k v t) db1 of
             (Inl e, db2) \<Rightarrow> Some (Inl e, db2)
           | (Inr r, db2) \<Rightarrow> Some (ok_or r InternalInvariantViolation, db2)))"

definition ref_delete :: "document_key \<Rightarrow> reference_db \<Rightarrow> (lsn result \<times> reference_db) option" where
  "ref_delete k db =
     (case ref_begin db of
        None \<Rightarrow> None
      | Some (t, db1) \<Rightarrow>
          (case ref_commit (txn_delete db1 k t) db1 of
             (Inl e, db2) \<Rightarrow> Some (Inl e, db2)
           | (Inr r, db2) \<Rightarrow> Some (ok_or r InternalInvariantViolation, db2)))"

section \<open>Applying mutations\<close>

lemma ref_apply_simps [simp]:
  "ref_apply r [] st = st"
  "ref_apply r (m # ms) st = ref_apply r ms (bm_insert (mutation_key m) (mutation_state r m) st)"
  by (simp_all add: ref_apply_def)

lemma bm_wf_ref_apply [simp]: "bm_wf st \<Longrightarrow> bm_wf (ref_apply r ms st)"
  by (induction ms arbitrary: st) auto

lemma map_of_ref_apply_other:
  "k \<notin> mutation_key ` set ms \<Longrightarrow> map_of (ref_apply r ms st) k = map_of st k"
  by (induction ms arbitrary: st) auto

lemma map_of_ref_apply:
  "distinct (map mutation_key ms) \<Longrightarrow> m \<in> set ms
     \<Longrightarrow> map_of (ref_apply r ms st) (mutation_key m) = Some (mutation_state r m)"
  by (induction ms arbitrary: st) (auto simp: map_of_ref_apply_other)

lemma state_revision_mutation_state [simp]: "state_revision (mutation_state r m) = r"
  by (cases m) auto

lemma ref_check_conditions_ok:
  "ref_check_conditions db cs = Inr () \<longleftrightarrow>
     (\<forall>c \<in> set cs. condition_satisfied c (observed (ref_get db (condition_key c))))"
  by (induction cs) (auto simp: Let_def)

lemma ref_check_conditions_error:
  "ref_check_conditions db cs = Inl e \<Longrightarrow>
     \<exists>c \<in> set cs. \<not> condition_satisfied c (observed (ref_get db (condition_key c))) \<and>
       e = conflict_of c (observed (ref_get db (condition_key c)))"
  by (induction cs) (auto simp: Let_def split: if_splits)

section \<open>One request\<close>

lemmas ref_transact_at_splits = ref_transact_at_def Let_def

lemma ref_transact_at_error_unchanged:
  "ref_transact_at req l db = (Inl e, db') \<Longrightarrow> e \<noteq> InternalInvariantViolation \<Longrightarrow> db' = db"
  by (auto simp: ref_transact_at_splits split: sum.splits if_splits option.splits)

lemma ref_transact_at_committed:
  assumes "ref_transact_at req l db = (Inr (Some l'), db')"
  shows "l' = l" "mutations req \<noteq> []" "l \<noteq> 0"
    "validate_request req = Inr ()" "ref_check_conditions db (conditions req) = Inr ()"
    "states db' = ref_apply l (mutations req) (states db)"
    "unat l + 1 < 2 ^ 64" "ref_next_lsn db' = max (ref_next_lsn db) (l + 1)"
  using assms
  by (auto simp: ref_transact_at_splits checked_add_u64_def max_def split: sum.splits if_splits option.splits)

lemma ref_transact_at_None:
  "ref_transact_at req l db = (Inr None, db') \<Longrightarrow> db' = db \<and> mutations req = []"
  by (auto simp: ref_transact_at_splits split: sum.splits if_splits option.splits)

lemma ref_get_committed:
  assumes "ref_transact_at req l db = (Inr (Some l'), db')"
  shows "m \<in> set (mutations req) \<Longrightarrow> ref_get db' (mutation_key m) = mutation_state l m"
    and "k \<notin> mutation_key ` set (mutations req) \<Longrightarrow> ref_get db' k = ref_get db k"
  using ref_transact_at_committed [OF assms]
  by (simp_all add: ref_get_def validate_request_ok map_of_ref_apply map_of_ref_apply_other)

section \<open>Runs of requests\<close>

text \<open>
  Requests in serialization order, each at the database's own next LSN. A request is accepted
  when it commits; \<open>touched\<close> collects the keys accepted requests write.
\<close>

fun ref_run :: "transaction_request list \<Rightarrow> reference_db \<Rightarrow> (lsn option) result list \<times> reference_db"
where
  "ref_run [] db = ([], db)"
| "ref_run (req # reqs) db =
     (case ref_transact req db of
        (out, db1) \<Rightarrow> (case ref_run reqs db1 of (outs, db2) \<Rightarrow> (out # outs, db2)))"

fun touched :: "transaction_request list \<Rightarrow> (lsn option) result list \<Rightarrow> document_key set" where
  "touched (req # reqs) (out # outs) =
     (case out of Inr (Some l) \<Rightarrow> mutation_key ` set (mutations req) | _ \<Rightarrow> {}) \<union> touched reqs outs"
| "touched _ _ = {}"

definition ref_wf :: "reference_db \<Rightarrow> bool" where
  "ref_wf db \<longleftrightarrow> bm_wf (states db) \<and> 0 < ref_next_lsn db \<and>
     (\<forall>k. state_revision (ref_get db k) < ref_next_lsn db)"

lemma ref_wf_new: "ref_wf ref_new"
  by (simp add: ref_wf_def ref_new_def ref_get_def)

text \<open>The keys of a set got newer revisions; every other key is as it was.\<close>

definition advanced :: "document_key set \<Rightarrow> reference_db \<Rightarrow> reference_db \<Rightarrow> bool" where
  "advanced ks db db' \<longleftrightarrow>
     (\<forall>k \<in> ks. state_revision (ref_get db k) < state_revision (ref_get db' k)) \<and>
     (\<forall>k. k \<notin> ks \<longrightarrow> ref_get db' k = ref_get db k)"

lemma advanced_trans: "advanced ks db db1 \<Longrightarrow> advanced ks' db1 db' \<Longrightarrow> advanced (ks \<union> ks') db db'"
  unfolding advanced_def by (metis Un_iff order.strict_trans)

lemma ref_transact_step:
  assumes wf: "ref_wf db" and step: "ref_transact req db = (out, db')"
    and out: "out \<noteq> Inl InternalInvariantViolation"
  shows "ref_wf db' \<and> advanced (touched [req] [out]) db db'"
proof (cases "\<exists>l. out = Inr (Some l)")
  case False
  then have "db' = db" "touched [req] [out] = {}"
    using step out ref_transact_at_error_unchanged [of req "ref_next_lsn db" db]
      ref_transact_at_None [of req "ref_next_lsn db" db]
    by (auto simp: ref_transact_def split: sum.splits option.splits)
      (cases out; fastforce)+
  then show ?thesis using wf by (simp add: advanced_def)
next
  case True
  then obtain l where out: "out = Inr (Some l)" by blast
  let ?n = "ref_next_lsn db"
  have com: "ref_transact_at req ?n db = (Inr (Some l), db')"
    using step out by (simp add: ref_transact_def)
  note facts = ref_transact_at_committed [OF com] ref_get_committed [OF com]
  have less: "?n < ?n + 1"
    using facts(7) by (simp add: word_less_nat_alt unat_word_ariths)
  have nxt: "ref_next_lsn db' = ?n + 1" using facts(8) less by (simp add: max_def)
  have touched: "touched [req] [out] = mutation_key ` set (mutations req)" using out by simp
  have rev: "state_revision (ref_get db' k) = (if k \<in> touched [req] [out] then ?n
      else state_revision (ref_get db k))" for k
    using facts(9,10) touched by auto
  have "ref_wf db'"
    using wf facts(6) nxt less rev unfolding ref_wf_def
    by (auto intro: order.strict_trans)
  then show ?thesis using rev wf facts(10) touched by (auto simp: ref_wf_def advanced_def)
qed

lemma ref_run_revisions:
  assumes "ref_wf db" "ref_run reqs db = (outs, db')" "Inl InternalInvariantViolation \<notin> set outs"
  shows "ref_wf db' \<and> advanced (touched reqs outs) db db'"
  using assms
proof (induction reqs arbitrary: db outs)
  case Nil
  then show ?case by (simp add: advanced_def)
next
  case (Cons req reqs)
  obtain out db1 where step: "ref_transact req db = (out, db1)" by force
  obtain outs' where run: "ref_run reqs db1 = (outs', db')" and outs: "outs = out # outs'"
    using Cons.prems(2) step by (auto split: prod.splits)
  have one: "ref_wf db1" "advanced (touched [req] [out]) db db1"
    using ref_transact_step [OF Cons.prems(1) step] Cons.prems(3) outs by auto
  have rest: "ref_wf db'" "advanced (touched reqs outs') db1 db'"
    using Cons.IH [OF one(1) run] Cons.prems(3) outs by auto
  have "touched (req # reqs) outs = touched [req] [out] \<union> touched reqs outs'"
    using outs by simp
  then show ?case using advanced_trans [OF one(2) rest(2)] rest(1) by simp
qed

section \<open>Properties\<close>





end
