(* ===== verification/Durable_File.thy ===== *)
theory Durable_File
  imports Core_Types
begin

text \<open>
  The positional file contract of \<open>dodb-storage/src/durable_file.rs\<close>, the whole-range read and
  write loops built on it (\<open>read_exact_at\<close> and \<open>write_all_at\<close> of \<open>btree/mod.rs\<close> and
  \<open>wal.rs\<close>), the simulated file of \<open>dodb-testkit/src/crashable_file.rs\<close> with its fault plan and
  its separate volatile and durable bytes, and the crash-point injector of
  \<open>dodb-testkit/src/crash.rs\<close>. The trait is a record of operations; the laws the engine relies
  on are the locales \<open>durable_file\<close> (what a call that returns did) and \<open>reliable_file\<close> (calls
  on a file without scheduled faults return), and the simulated file is an instance of both.
\<close>

section \<open>The trait\<close>

text \<open>
  \<open>read_at\<close> fills a prefix of a buffer of the given length and returns its length; the
  model returns those bytes. \<open>write_at\<close> returns how many bytes of its argument were written.
\<close>

record 'f durable_file_ops =
  df_read_at :: "u64 \<Rightarrow> usize \<Rightarrow> ('f, error, bytes) stateful"
  df_write_at :: "u64 \<Rightarrow> bytes \<Rightarrow> ('f, error, usize) stateful"
  df_len :: "'f \<Rightarrow> u64 result"
  df_set_len :: "u64 \<Rightarrow> ('f, error, unit) stateful"
  df_sync_data :: "('f, error, unit) stateful"
  df_sync_all :: "('f, error, unit) stateful"

definition df_is_empty :: "'f durable_file_ops \<Rightarrow> 'f \<Rightarrow> bool result" where
  "df_is_empty ops f = bindR (df_len ops f) (\<lambda>n. Inr (n = 0))"

section \<open>Whole-range loops\<close>

text \<open>
  The loops take the error a zero-byte transfer is reported as: the data file reports a short
  read as corruption, the WAL as an I/O error; the WAL also checks its offset arithmetic.
\<close>

function read_loop ::
  "'f durable_file_ops \<Rightarrow> (usize \<Rightarrow> u64 result) \<Rightarrow> error \<Rightarrow> usize \<Rightarrow> bytes \<Rightarrow> ('f, error, bytes) stateful"
where
  "read_loop ops offset_of eof len acc f =
     (if length acc < len then
        (case offset_of (length acc) of
           Inl e \<Rightarrow> (Inl e, f)
         | Inr offset \<Rightarrow>
             (case df_read_at ops offset (len - length acc) f of
                (Inl e, f') \<Rightarrow> (Inl e, f')
              | (Inr bs, f') \<Rightarrow>
                  if bs = [] then (Inl eof, f')
                  else read_loop ops offset_of eof len (acc @ bs) f'))
      else (Inr acc, f))"
  by pat_completeness auto
termination
  by (relation "measure (\<lambda>(ops, offset_of, eof, len, acc, f). len - length acc)")
    (auto intro: diff_less_mono2 simp flip: length_greater_0_conv)

declare read_loop.simps [simp del]

function write_loop ::
  "'f durable_file_ops \<Rightarrow> (usize \<Rightarrow> u64 result) \<Rightarrow> bytes \<Rightarrow> usize \<Rightarrow> ('f, error, unit) stateful"
where
  "write_loop ops offset_of bs position f =
     (if position < length bs then
        (case offset_of position of
           Inl e \<Rightarrow> (Inl e, f)
         | Inr offset \<Rightarrow>
             (case df_write_at ops offset (drop position bs) f of
                (Inl e, f') \<Rightarrow> (Inl e, f')
              | (Inr count, f') \<Rightarrow>
                  if count = 0 then (Inl Io, f')
                  else write_loop ops offset_of bs (position + count) f'))
      else (Inr (), f))"
  by pat_completeness auto
termination
  by (relation "measure (\<lambda>(ops, offset_of, bs, position, f). length bs - position)") auto

declare write_loop.simps [simp del]

definition read_exact_at ::
  "'f durable_file_ops \<Rightarrow> u64 \<Rightarrow> usize \<Rightarrow> ('f, error, bytes) stateful" where
  "read_exact_at ops offset len =
     read_loop ops (\<lambda>position. Inr (offset + word_of_nat position)) Corruption len []"

definition write_all_at ::
  "'f durable_file_ops \<Rightarrow> u64 \<Rightarrow> bytes \<Rightarrow> ('f, error, unit) stateful" where
  "write_all_at ops offset bs =
     write_loop ops (\<lambda>position. Inr (offset + word_of_nat position)) bs 0"

definition wal_read_exact_at ::
  "'f durable_file_ops \<Rightarrow> u64 \<Rightarrow> usize \<Rightarrow> ('f, error, bytes) stateful" where
  "wal_read_exact_at ops offset len =
     read_loop ops (\<lambda>position. ok_or (checked_add_u64 offset (word_of_nat position)) Corruption)
       Io len []"

definition wal_write_all_at ::
  "'f durable_file_ops \<Rightarrow> u64 \<Rightarrow> bytes \<Rightarrow> ('f, error, unit) stateful" where
  "wal_write_all_at ops offset bs =
     write_loop ops (\<lambda>position. ok_or (checked_add_u64 offset (word_of_nat position)) InvalidInput)
       bs 0"

section \<open>Crash-point injection\<close>

record crash_target =
  target_point :: string
  target_nth_hit :: u64

record crash_injector =
  injector_target :: "crash_target option"
  injector_hits :: "string \<Rightarrow> u64"
  injector_fired :: bool

definition injector_disabled :: crash_injector where
  "injector_disabled = \<lparr>injector_target = None, injector_hits = (\<lambda>_. 0), injector_fired = False\<rparr>"

definition injector_at :: "string \<Rightarrow> u64 \<Rightarrow> crash_injector" where
  "injector_at point nth_hit =
     injector_disabled\<lparr>injector_target := Some \<lparr>target_point = point, target_nth_hit = max nth_hit 1\<rparr>\<rparr>"

definition injector_hit :: "string \<Rightarrow> (crash_injector, error, unit) stateful" where
  "injector_hit point ci =
     (let count = injector_hits ci point + 1;
          ci' = ci\<lparr>injector_hits := (injector_hits ci)(point := count)\<rparr>
      in if \<not> injector_fired ci' \<and>
            (case injector_target ci' of
               None \<Rightarrow> False
             | Some t \<Rightarrow> target_point t = point \<and> target_nth_hit t = count)
         then (Inl RecoveryFailure, ci'\<lparr>injector_fired := True\<rparr>)
         else (Inr (), ci'))"

text \<open>An optional injector, as the storage code carries it.\<close>

definition hit_fault :: "string \<Rightarrow> (crash_injector option, error, unit) stateful" where
  "hit_fault point ci =
     (case ci of
        None \<Rightarrow> (Inr (), None)
      | Some i \<Rightarrow> (case injector_hit point i of (r, i') \<Rightarrow> (r, Some i')))"

lemma hit_fault_None [simp]: "hit_fault point None = (Inr (), None)"
  by (simp add: hit_fault_def)

section \<open>The simulated file\<close>

datatype file_operation = OpReadAt | OpWriteAt | OpSetLen | OpSyncData | OpSyncAll

datatype fault_action =
    ShortWrite usize
  | ShortRead usize
  | FaultIo
  | SyncPersistAllThenIo
  | SyncPersistPrefixThenIo usize

record fault_plan =
  faults :: "u64 \<Rightarrow> (file_operation \<times> fault_action) option"
  next_matching :: "file_operation \<Rightarrow> (u64 \<times> fault_action) option"
  matching_hits :: "file_operation \<Rightarrow> u64"
  next_operation :: u64

definition saturating_inc_u64 :: "u64 \<Rightarrow> u64" where
  "saturating_inc_u64 n = (if n = - 1 then n else n + 1)"

definition fault_plan_default :: fault_plan where
  "fault_plan_default = \<lparr>faults = (\<lambda>_. None), next_matching = (\<lambda>_. None),
     matching_hits = (\<lambda>_. 0), next_operation = 0\<rparr>"

definition plan_at :: "u64 \<Rightarrow> file_operation \<Rightarrow> fault_action \<Rightarrow> fault_plan \<Rightarrow> fault_plan" where
  "plan_at index op action p = p\<lparr>faults := (faults p)(index \<mapsto> (op, action))\<rparr>"

definition plan_on_nth :: "file_operation \<Rightarrow> u64 \<Rightarrow> fault_action \<Rightarrow> fault_plan \<Rightarrow> fault_plan" where
  "plan_on_nth op nth_hit action p =
     p\<lparr>next_matching := (next_matching p)(op \<mapsto> (max nth_hit 1, action))\<rparr>"

definition next_fault :: "file_operation \<Rightarrow> fault_plan \<Rightarrow> fault_action option \<times> fault_plan" where
  "next_fault op p =
     (let index = next_operation p;
          p1 = p\<lparr>next_operation := saturating_inc_u64 (next_operation p)\<rparr>
      in case faults p1 index of
           Some (expected, action) \<Rightarrow>
             if expected = op then (Some action, p1\<lparr>faults := (faults p1)(index := None)\<rparr>)
             else (None, p1)
         | None \<Rightarrow>
             (let hits = saturating_inc_u64 (matching_hits p1 op);
                  p2 = p1\<lparr>matching_hits := (matching_hits p1)(op := hits)\<rparr>
              in case next_matching p2 op of
                   Some (nth_hit, action) \<Rightarrow>
                     if nth_hit = hits
                     then (Some action, p2\<lparr>next_matching := (next_matching p2)(op := None)\<rparr>)
                     else (None, p2)
                 | None \<Rightarrow> (None, p2)))"

record crashable_file =
  volatile :: bytes
  durable :: bytes
  fault_plan :: fault_plan

definition crashable_from_durable :: "bytes \<Rightarrow> crashable_file" where
  "crashable_from_durable bs = \<lparr>volatile = bs, durable = bs, fault_plan = fault_plan_default\<rparr>"

definition crashable_new :: crashable_file where
  "crashable_new = crashable_from_durable []"

definition crash :: "crashable_file \<Rightarrow> crashable_file" where
  "crash f = f\<lparr>volatile := durable f\<rparr>"

definition crash_with_persisted_prefix :: "usize \<Rightarrow> crashable_file \<Rightarrow> crashable_file" where
  "crash_with_persisted_prefix len f =
     (let kept = take (min len (length (volatile f))) (volatile f)
      in f\<lparr>durable := kept, volatile := kept\<rparr>)"

definition crashable_fault :: "file_operation \<Rightarrow> crashable_file \<Rightarrow> fault_action option \<times> crashable_file"
where
  "crashable_fault op f =
     (case next_fault op (fault_plan f) of (a, p) \<Rightarrow> (a, f\<lparr>fault_plan := p\<rparr>))"

text \<open>Which scheduled actions fail a read or a write at once.\<close>

fun io_error :: "fault_action option \<Rightarrow> (fault_action option) result" where
  "io_error (Some FaultIo) = Inl Io"
| "io_error (Some SyncPersistAllThenIo) = Inl InvalidInput"
| "io_error (Some (SyncPersistPrefixThenIo n)) = Inl InvalidInput"
| "io_error other = Inr other"

text \<open>\<open>Vec::resize(n, 0)\<close>.\<close>

definition resize :: "nat \<Rightarrow> bytes \<Rightarrow> bytes" where
  "resize n bs = take n bs @ replicate (n - length bs) 0"

text \<open>Writing bytes at an offset, growing the file with zeros when they end past it.\<close>

definition file_splice :: "nat \<Rightarrow> bytes \<Rightarrow> bytes \<Rightarrow> bytes" where
  "file_splice offset new old =
     write_slice offset new (if length old < offset + length new then resize (offset + length new) old else old)"

definition crashable_read_at :: "u64 \<Rightarrow> usize \<Rightarrow> (crashable_file, error, bytes) stateful" where
  "crashable_read_at offset buffer_len f =
     (case crashable_fault OpReadAt f of (action, f') \<Rightarrow>
      case io_error action of
        Inl e \<Rightarrow> (Inl e, f')
      | Inr action' \<Rightarrow>
          (let start = unat offset in
           if length (volatile f') \<le> start \<or> buffer_len = 0 then (Inr [], f')
           else
             (let available = min (length (volatile f') - start) buffer_len;
                  count = (case action' of Some (ShortRead n) \<Rightarrow> min available n | _ \<Rightarrow> available)
              in (Inr (byte_slice start (start + count) (volatile f')), f'))))"

definition crashable_write_at :: "u64 \<Rightarrow> bytes \<Rightarrow> (crashable_file, error, usize) stateful" where
  "crashable_write_at offset bs f =
     (case crashable_fault OpWriteAt f of (action, f') \<Rightarrow>
      case io_error action of
        Inl e \<Rightarrow> (Inl e, f')
      | Inr action' \<Rightarrow>
          (let count = (case action' of Some (ShortWrite n) \<Rightarrow> min (length bs) n | _ \<Rightarrow> length bs) in
           case checked_add_usize (unat offset) count of
             None \<Rightarrow> (Inl InvalidInput, f')
           | Some _ \<Rightarrow>
               (Inr count, f'\<lparr>volatile := file_splice (unat offset) (take count bs) (volatile f')\<rparr>)))"

definition crashable_len :: "crashable_file \<Rightarrow> u64 result" where
  "crashable_len f =
     (if length (volatile f) < 2 ^ 64 then Inr (word_of_nat (length (volatile f)))
      else Inl InternalInvariantViolation)"

definition crashable_set_len :: "u64 \<Rightarrow> (crashable_file, error, unit) stateful" where
  "crashable_set_len len f =
     (case crashable_fault OpSetLen f of (action, f') \<Rightarrow>
      case action of
        Some FaultIo \<Rightarrow> (Inl Io, f')
      | Some SyncPersistAllThenIo \<Rightarrow> (Inl InvalidInput, f')
      | Some (SyncPersistPrefixThenIo n) \<Rightarrow> (Inl InvalidInput, f')
      | _ \<Rightarrow> (Inr (), f'\<lparr>volatile := resize (unat len) (volatile f')\<rparr>))"

definition crashable_sync :: "file_operation \<Rightarrow> (crashable_file, error, unit) stateful" where
  "crashable_sync op f =
     (case crashable_fault op f of (action, f') \<Rightarrow>
      case action of
        Some FaultIo \<Rightarrow> (Inl Io, f')
      | Some SyncPersistAllThenIo \<Rightarrow> (Inl Io, f'\<lparr>durable := volatile f'\<rparr>)
      | Some (SyncPersistPrefixThenIo n) \<Rightarrow>
          if length (volatile f') < n then (Inl InvalidInput, f')
          else (Inl Io, f'\<lparr>durable := take n (volatile f')\<rparr>)
      | _ \<Rightarrow> (Inr (), f'\<lparr>durable := volatile f'\<rparr>))"

definition crashable_ops :: "crashable_file durable_file_ops" where
  "crashable_ops =
     \<lparr>df_read_at = crashable_read_at, df_write_at = crashable_write_at, df_len = crashable_len,
      df_set_len = crashable_set_len, df_sync_data = crashable_sync OpSyncData,
      df_sync_all = crashable_sync OpSyncAll\<rparr>"

text \<open>The marker file of the constructor without a WAL (\<open>NoWal\<close> in \<open>btree/mod.rs\<close>).\<close>

definition no_wal_ops :: "unit durable_file_ops" where
  "no_wal_ops =
     \<lparr>df_read_at = (\<lambda>_ _ f. (Inr [], f)), df_write_at = (\<lambda>_ _ f. (Inl InternalInvariantViolation, f)),
      df_len = (\<lambda>_. Inr 0), df_set_len = (\<lambda>_ f. (Inr (), f)), df_sync_data = (\<lambda>f. (Inr (), f)),
      df_sync_all = (\<lambda>f. (Inr (), f))\<rparr>"

section \<open>Facts on splicing bytes into a file\<close>

lemma length_resize [simp]: "length (resize n bs) = n"
  by (simp add: resize_def)

lemma resize_same [simp]: "resize (length bs) bs = bs"
  by (simp add: resize_def)

lemma resize_shrink: "n \<le> length bs \<Longrightarrow> resize n bs = take n bs"
  by (simp add: resize_def)

lemma length_splice [simp]: "length (file_splice a new old) = max (length old) (a + length new)"
  by (simp add: file_splice_def)

lemma splice_eq:
  "file_splice a new old = resize a old @ new @ drop (a + length new) old"
  by (auto simp: file_splice_def write_slice_def resize_def)

lemma splice_Nil [simp]: "a \<le> length old \<Longrightarrow> file_splice a [] old = old"
  by (simp add: splice_eq resize_shrink)

lemma byte_slice_splice [simp]: "byte_slice a (a + length new) (file_splice a new old) = new"
  by (simp add: splice_eq byte_slice_def)

lemma splice_inside: "a + length new \<le> length old \<Longrightarrow> file_splice a new old = write_slice a new old"
  by (simp add: file_splice_def)

lemma splice_append: "file_splice (length old) new old = old @ new"
  by (simp add: splice_eq)

lemma take_splice: "a \<le> length old \<Longrightarrow> take a (file_splice a new old) = take a old"
  by (simp add: splice_eq resize_shrink)

lemma splice_splice:
  "file_splice (a + length x) y (file_splice a x old) = file_splice a (x @ y) old"
  by (cases "a \<le> length old") (simp_all add: splice_eq resize_def ac_simps)

text \<open>Both offset functions of the loops address \<open>base + position\<close> when they return.\<close>

definition addresses :: "(usize \<Rightarrow> u64 result) \<Rightarrow> nat \<Rightarrow> nat \<Rightarrow> bool" where
  "addresses offset_of base len \<longleftrightarrow>
     (\<forall>p<len. \<forall>off. offset_of p = Inr off \<longrightarrow> unat off = base + p)"

lemma addresses_plain:
  "unat off + len \<le> 2 ^ 64 \<Longrightarrow> addresses (\<lambda>p. Inr (off + word_of_nat p)) (unat off) len"
  by (auto simp: addresses_def unat_word_ariths unat_of_nat)

lemma addresses_checked:
  "len \<le> 2 ^ 64 \<Longrightarrow> addresses (\<lambda>p. ok_or (checked_add_u64 off (word_of_nat p)) e) (unat off) len"
  by (auto simp: addresses_def unat_of_nat dest: unat_checked_add_u64)

lemma checked_offset_returns:
  "unat off + p < 2 ^ 64 \<Longrightarrow> \<exists>o'. ok_or (checked_add_u64 off (word_of_nat p)) e = Inr o'"
  by (simp add: checked_add_u64_def unat_of_nat)

lemma byte_slice_empty [simp]: "byte_slice a a xs = []"
  by (simp add: byte_slice_def)

section \<open>What a returning call did\<close>

text \<open>
  The client sees a file as its current bytes \<open>view f\<close>. A read returns a prefix of the range
  asked for and changes nothing; a write splices a prefix of its bytes into the file; an error
  changes nothing a reader can see.
\<close>

locale durable_file =
  fixes ops :: "'f durable_file_ops"
    and view :: "'f \<Rightarrow> bytes"
  assumes read_ok: "df_read_at ops off n f = (Inr bs, f') \<Longrightarrow>
            length bs \<le> n \<and> (bs = [] \<or> unat off + length bs \<le> length (view f)) \<and>
            bs = byte_slice (unat off) (unat off + length bs) (view f) \<and> view f' = view f"
    and read_error: "df_read_at ops off n f = (Inl e, f') \<Longrightarrow> view f' = view f"
    and write_ok: "df_write_at ops off bs f = (Inr k, f') \<Longrightarrow>
            k \<le> length bs \<and> view f' = file_splice (unat off) (take k bs) (view f)"
    and write_error: "df_write_at ops off bs f = (Inl e, f') \<Longrightarrow> view f' = view f"
    and len_ok: "df_len ops f = Inr m \<Longrightarrow> unat m = length (view f)"
    and set_len_ok: "df_set_len ops m f = (Inr (), f') \<Longrightarrow> view f' = resize (unat m) (view f)"
    and set_len_error: "df_set_len ops m f = (Inl e, f') \<Longrightarrow> view f' = view f"
    and sync_data_view: "df_sync_data ops f = (r, f') \<Longrightarrow> view f' = view f"
    and sync_all_view: "df_sync_all ops f = (r, f') \<Longrightarrow> view f' = view f"
begin

lemma read_loop_view:
  "read_loop ops offset_of eof len acc f = (r, f') \<Longrightarrow> view f' = view f"
proof (induction "len - length acc" arbitrary: acc f rule: less_induct)
  case less
  show ?case
  proof (cases "\<exists>off bs f1. length acc < len \<and> offset_of (length acc) = Inr off \<and>
      df_read_at ops off (len - length acc) f = (Inr bs, f1) \<and> bs \<noteq> []")
    case True
    then obtain bs f1 where "read_loop ops offset_of eof len (acc @ bs) f1 = (r, f')"
      "view f1 = view f" "len - length (acc @ bs) < len - length acc"
      using less.prems read_ok
      by (subst (asm) read_loop.simps) (fastforce intro: diff_less_mono2)
    then show ?thesis using less.hyps by metis
  next
    case False
    then show ?thesis
      using less.prems read_error read_ok
      by (subst (asm) read_loop.simps) (fastforce split: if_splits sum.splits prod.splits)
  qed
qed

lemma read_loop_bytes:
  assumes "read_loop ops offset_of eof len acc f = (Inr bs, f')"
    and "addresses offset_of base len"
    and "length acc \<le> len" "acc = byte_slice base (base + length acc) (view f)"
    and "acc = [] \<or> base + length acc \<le> length (view f)"
  shows "bs = byte_slice base (base + len) (view f) \<and> length bs = len \<and>
    (len = 0 \<or> base + len \<le> length (view f))"
  using assms(1,3-)
proof (induction "len - length acc" arbitrary: acc f rule: less_induct)
  case less
  show ?case
  proof (cases "length acc < len")
    case False
    then show ?thesis
      using less.prems by (subst (asm) read_loop.simps) auto
  next
    case True
    then obtain off part f1 where off: "offset_of (length acc) = Inr off"
      and part: "df_read_at ops off (len - length acc) f = (Inr part, f1)" "part \<noteq> []"
      and rest: "read_loop ops offset_of eof len (acc @ part) f1 = (Inr bs, f')"
      using less.prems(1) by (subst (asm) read_loop.simps) (auto split: if_splits sum.splits prod.splits)
    have base: "unat off = base + length acc"
      using assms(2) True off by (simp add: addresses_def)
    note law = read_ok [OF part(1)]
    have "acc @ part = byte_slice base (base + length (acc @ part)) (view f1)"
      using less.prems(3) law base byte_slice_split [of base "base + length acc" "base + length acc + length part" "view f"]
      by (metis le_add1 add.assoc length_append)
    moreover have "base + length (acc @ part) \<le> length (view f1)" "length (acc @ part) \<le> len"
      using law base part(2) True by auto
    moreover have "len - length (acc @ part) < len - length acc"
      using True part(2) by (simp add: diff_less_mono2 flip: length_greater_0_conv)
    moreover have "view f1 = view f" using law by blast
    ultimately show ?thesis
      using less.hyps [OF _ rest] by metis
  qed
qed

lemma write_loop_view:
  assumes "write_loop ops offset_of bs pos f = (r, f')"
    and "addresses offset_of base (length bs)"
    and "pos \<le> length bs" "view f = file_splice base (take pos bs) v0"
  shows "\<exists>k\<le>length bs. view f' = file_splice base (take k bs) v0 \<and> (r = Inr () \<longrightarrow> k = length bs)"
  using assms(1,3-)
proof (induction "length bs - pos" arbitrary: pos f rule: less_induct)
  case less
  show ?case
  proof (cases "pos < length bs")
    case False
    then show ?thesis
      using less.prems by (subst (asm) write_loop.simps) auto
  next
    case True
    show ?thesis
    proof (cases "\<exists>off k f1. offset_of pos = Inr off \<and> df_write_at ops off (drop pos bs) f = (Inr k, f1)")
      case False
      then have "view f' = view f \<and> r \<noteq> Inr ()"
        using less.prems(1) True write_error
        by (subst (asm) write_loop.simps) (auto split: if_splits sum.splits prod.splits)
      then show ?thesis
        using less.prems(2,3) by auto
    next
      case ex: True
      then obtain off k f1 where off: "offset_of pos = Inr off"
        and k: "df_write_at ops off (drop pos bs) f = (Inr k, f1)" by blast
      note law = write_ok [OF k]
      have "unat off = base + length (take pos bs)"
        using assms(2) True off by (simp add: addresses_def)
      then have v1: "view f1 = file_splice base (take (pos + k) bs) v0"
        using law less.prems(2,3) splice_splice [of base "take pos bs" "take k (drop pos bs)" v0]
        by (simp add: take_add)
      show ?thesis
      proof (cases "k = 0")
        case True
        then show ?thesis
          using less.prems(1,2) \<open>pos < length bs\<close> off k v1
          by (subst (asm) write_loop.simps) (auto intro!: exI [of _ pos])
      next
        case False
        then have "write_loop ops offset_of bs (pos + k) f1 = (r, f')"
          using less.prems(1) \<open>pos < length bs\<close> off k by (subst (asm) write_loop.simps) auto
        then show ?thesis
          using less.hyps [of "pos + k" f1] v1 law False \<open>pos < length bs\<close> by auto
      qed
    qed
  qed
qed

lemma read_exact_at_view:
  "read_exact_at ops off len f = (r, f') \<Longrightarrow> view f' = view f"
  "wal_read_exact_at ops off len f = (r, f') \<Longrightarrow> view f' = view f"
  by (auto simp: read_exact_at_def wal_read_exact_at_def intro: read_loop_view)

lemma read_exact_at_ok:
  assumes "read_exact_at ops off len f = (Inr bs, f')" "unat off + len \<le> 2 ^ 64"
  shows "bs = byte_slice (unat off) (unat off + len) (view f)" "length bs = len"
    "len = 0 \<or> unat off + len \<le> length (view f)" "view f' = view f"
  using read_loop_bytes [OF assms(1) [unfolded read_exact_at_def] addresses_plain [OF assms(2)]]
    read_exact_at_view(1) [OF assms(1)] by auto

lemma wal_read_exact_at_ok:
  assumes "wal_read_exact_at ops off len f = (Inr bs, f')" "len \<le> 2 ^ 64"
  shows "bs = byte_slice (unat off) (unat off + len) (view f)" "length bs = len"
    "len = 0 \<or> unat off + len \<le> length (view f)" "view f' = view f"
  using read_loop_bytes [OF assms(1) [unfolded wal_read_exact_at_def] addresses_checked [OF assms(2)]]
    read_exact_at_view(2) [OF assms(1)] by auto

lemma write_all_at_view:
  assumes "write_all_at ops off bs f = (r, f')" "unat off + length bs \<le> 2 ^ 64"
    "unat off \<le> length (view f)"
  shows "\<exists>k\<le>length bs. view f' = file_splice (unat off) (take k bs) (view f) \<and>
    (r = Inr () \<longrightarrow> k = length bs)"
  using write_loop_view [OF assms(1) [unfolded write_all_at_def] addresses_plain [OF assms(2)]] assms(3)
  by simp

lemma wal_write_all_at_view:
  assumes "wal_write_all_at ops off bs f = (r, f')" "length bs \<le> 2 ^ 64"
    "unat off \<le> length (view f)"
  shows "\<exists>k\<le>length bs. view f' = file_splice (unat off) (take k bs) (view f) \<and>
    (r = Inr () \<longrightarrow> k = length bs)"
  using write_loop_view [OF assms(1) [unfolded wal_write_all_at_def] addresses_checked [OF assms(2)]] assms(3)
  by simp

end

section \<open>Calls on a file without scheduled faults\<close>

text \<open>
  \<open>healthy\<close> files make progress: a read inside the file returns at least one byte, a
  non-empty write inside the address space writes at least one, length and sync calls return.
\<close>

locale reliable_file = durable_file ops view
  for ops :: "'f durable_file_ops" and view :: "'f \<Rightarrow> bytes" +
  fixes healthy :: "'f \<Rightarrow> bool"
  assumes healthy_read: "healthy f \<Longrightarrow> unat off < length (view f) \<Longrightarrow> 0 < n \<Longrightarrow>
            \<exists>bs f'. df_read_at ops off n f = (Inr bs, f') \<and> bs \<noteq> [] \<and> healthy f'"
    and healthy_write: "healthy f \<Longrightarrow> bs \<noteq> [] \<Longrightarrow> unat off + length bs < 2 ^ 64 \<Longrightarrow>
            \<exists>k f'. df_write_at ops off bs f = (Inr k, f') \<and> 0 < k \<and> healthy f'"
    and healthy_len: "healthy f \<Longrightarrow> length (view f) < 2 ^ 64 \<Longrightarrow>
            df_len ops f = Inr (word_of_nat (length (view f)))"
    and healthy_set_len: "healthy f \<Longrightarrow> \<exists>f'. df_set_len ops m f = (Inr (), f') \<and> healthy f'"
    and healthy_sync_data: "healthy f \<Longrightarrow> \<exists>f'. df_sync_data ops f = (Inr (), f') \<and> healthy f'"
    and healthy_sync_all: "healthy f \<Longrightarrow> \<exists>f'. df_sync_all ops f = (Inr (), f') \<and> healthy f'"
begin

lemma read_loop_returns:
  assumes "healthy f" "base + len \<le> length (view f)" "length acc \<le> len"
    and "\<And>p. p < len \<Longrightarrow> \<exists>off. offset_of p = Inr off" "addresses offset_of base len"
  shows "\<exists>bs f'. read_loop ops offset_of eof len acc f = (Inr bs, f') \<and> healthy f'"
  using assms(1-3)
proof (induction "len - length acc" arbitrary: acc f rule: less_induct)
  case less
  show ?case
  proof (cases "length acc < len")
    case False
    then show ?thesis using less.prems by (subst read_loop.simps) simp
  next
    case True
    then obtain off where off: "offset_of (length acc) = Inr off" "unat off = base + length acc"
      using assms(4) [OF True] assms(5) by (auto simp: addresses_def)
    obtain bs f1 where step: "df_read_at ops off (len - length acc) f = (Inr bs, f1)" "bs \<noteq> []" "healthy f1"
      using healthy_read [of f off "len - length acc"] less.prems True off by auto
    have "len - length (acc @ bs) < len - length acc" "length (acc @ bs) \<le> len" "view f1 = view f"
      using read_ok [OF step(1)] step(2) True by (auto intro: diff_less_mono2)
    then have "\<exists>rs f'. read_loop ops offset_of eof len (acc @ bs) f1 = (Inr rs, f') \<and> healthy f'"
      using less.hyps step(3) less.prems(2) by metis
    then show ?thesis
      using True off step by (subst read_loop.simps) simp
  qed
qed

lemma write_loop_returns:
  assumes "healthy f" "base + length bs < 2 ^ 64" "pos \<le> length bs"
    and "\<And>p. p < length bs \<Longrightarrow> \<exists>off. offset_of p = Inr off" "addresses offset_of base (length bs)"
  shows "\<exists>f'. write_loop ops offset_of bs pos f = (Inr (), f') \<and> healthy f'"
  using assms(1,3)
proof (induction "length bs - pos" arbitrary: pos f rule: less_induct)
  case less
  show ?case
  proof (cases "pos < length bs")
    case False
    then show ?thesis using less.prems by (subst write_loop.simps) simp
  next
    case True
    then obtain off where off: "offset_of pos = Inr off" "unat off = base + pos"
      using assms(4) [OF True] assms(5) by (auto simp: addresses_def)
    obtain k f1 where step: "df_write_at ops off (drop pos bs) f = (Inr k, f1)" "0 < k" "healthy f1"
      using healthy_write [of f "drop pos bs" off] less.prems True off assms(2) by auto
    have "length bs - (pos + k) < length bs - pos" "pos + k \<le> length bs"
      using write_ok [OF step(1)] step(2) True by auto
    then have "\<exists>f'. write_loop ops offset_of bs (pos + k) f1 = (Inr (), f') \<and> healthy f'"
      using less.hyps step(3) by metis
    then show ?thesis
      using True off step by (subst write_loop.simps) simp
  qed
qed

lemma read_exact_at_returns:
  assumes "healthy f" "unat off + len \<le> length (view f)" "length (view f) \<le> 2 ^ 64"
  shows "\<exists>f'. read_exact_at ops off len f = (Inr (byte_slice (unat off) (unat off + len) (view f)), f') \<and>
    healthy f' \<and> view f' = view f"
proof -
  obtain bs f' where run: "read_exact_at ops off len f = (Inr bs, f')" "healthy f'"
    unfolding read_exact_at_def
    using read_loop_returns [of f "unat off" len "[]", OF _ _ _ _ addresses_plain] assms by fastforce
  then show ?thesis
    using read_exact_at_ok(1,4) [OF run(1)] assms(2,3) by simp
qed

lemma wal_read_exact_at_returns:
  assumes "healthy f" "unat off + len \<le> length (view f)" "length (view f) < 2 ^ 64"
  shows "\<exists>f'. wal_read_exact_at ops off len f = (Inr (byte_slice (unat off) (unat off + len) (view f)), f') \<and>
    healthy f' \<and> view f' = view f"
proof -
  have "\<exists>bs f'. wal_read_exact_at ops off len f = (Inr bs, f') \<and> healthy f'"
    unfolding wal_read_exact_at_def using assms
    by (intro read_loop_returns [of _ "unat off"] addresses_checked checked_offset_returns) auto
  then obtain bs f' where run: "wal_read_exact_at ops off len f = (Inr bs, f')" "healthy f'" by blast
  then show ?thesis
    using wal_read_exact_at_ok(1,4) [OF run(1)] assms(2,3) by simp
qed

lemma write_all_at_returns:
  assumes "healthy f" "unat off + length bs < 2 ^ 64" "unat off \<le> length (view f)"
  shows "\<exists>f'. write_all_at ops off bs f = (Inr (), f') \<and> healthy f' \<and>
    view f' = file_splice (unat off) bs (view f)"
proof -
  have "\<exists>f'. write_all_at ops off bs f = (Inr (), f') \<and> healthy f'"
    unfolding write_all_at_def using assms
    by (intro write_loop_returns [of _ "unat off"] addresses_plain) auto
  then obtain f' where run: "write_all_at ops off bs f = (Inr (), f')" "healthy f'" by blast
  then show ?thesis
    using write_all_at_view [OF run(1)] assms(2,3) by auto
qed

lemma wal_write_all_at_returns:
  assumes "healthy f" "unat off + length bs < 2 ^ 64" "unat off \<le> length (view f)"
  shows "\<exists>f'. wal_write_all_at ops off bs f = (Inr (), f') \<and> healthy f' \<and>
    view f' = file_splice (unat off) bs (view f)"
proof -
  have "\<exists>f'. wal_write_all_at ops off bs f = (Inr (), f') \<and> healthy f'"
    unfolding wal_write_all_at_def using assms
    by (intro write_loop_returns [of _ "unat off"] addresses_checked checked_offset_returns) auto
  then obtain f' where run: "wal_write_all_at ops off bs f = (Inr (), f')" "healthy f'" by blast
  then show ?thesis
    using wal_write_all_at_view [OF run(1)] assms(2,3) by auto
qed

end

section \<open>What survives a crash\<close>

text \<open>\<open>stable f\<close> are the bytes left when the process is lost: only a sync changes them.\<close>

locale crash_file = durable_file ops view
  for ops :: "'f durable_file_ops" and view :: "'f \<Rightarrow> bytes" +
  fixes stable :: "'f \<Rightarrow> bytes"
  assumes read_stable: "df_read_at ops off n f = (r1, f') \<Longrightarrow> stable f' = stable f"
    and write_stable: "df_write_at ops off bs f = (r2, f') \<Longrightarrow> stable f' = stable f"
    and set_len_stable: "df_set_len ops m f = (r3, f') \<Longrightarrow> stable f' = stable f"
    and sync_data_stable: "df_sync_data ops f = (Inr (), f') \<Longrightarrow> stable f' = view f"
    and sync_all_stable: "df_sync_all ops f = (Inr (), f') \<Longrightarrow> stable f' = view f"
    and sync_data_torn: "df_sync_data ops f = (Inl e, f') \<Longrightarrow>
            stable f' = stable f \<or> (\<exists>k. stable f' = take k (view f))"
    and sync_all_torn: "df_sync_all ops f = (Inl e, f') \<Longrightarrow>
            stable f' = stable f \<or> (\<exists>k. stable f' = take k (view f))"
begin

lemma write_loop_stable:
  "write_loop ops offset_of bs pos f = (r, f') \<Longrightarrow> stable f' = stable f"
proof (induction "length bs - pos" arbitrary: pos f rule: less_induct)
  case less
  show ?case
  proof (cases "\<exists>off k f1. pos < length bs \<and> offset_of pos = Inr off \<and>
      df_write_at ops off (drop pos bs) f = (Inr k, f1) \<and> k \<noteq> 0")
    case True
    then obtain k f1 where "write_loop ops offset_of bs (pos + k) f1 = (r, f')"
      "stable f1 = stable f" "length bs - (pos + k) < length bs - pos"
      using less.prems write_stable by (subst (asm) write_loop.simps) (fastforce intro: diff_less_mono2)
    then show ?thesis using less.hyps by metis
  next
    case False
    then show ?thesis
      using less.prems
      by (subst (asm) write_loop.simps) (auto split: if_splits sum.splits prod.splits dest: write_stable)
  qed
qed

lemma wal_write_all_at_stable: "wal_write_all_at ops off bs f = (r, f') \<Longrightarrow> stable f' = stable f"
  unfolding wal_write_all_at_def by (rule write_loop_stable)

lemma write_all_at_stable: "write_all_at ops off bs f = (r, f') \<Longrightarrow> stable f' = stable f"
  unfolding write_all_at_def by (rule write_loop_stable)

end

section \<open>The simulated file satisfies the laws\<close>

definition fault_free :: "crashable_file \<Rightarrow> bool" where
  "fault_free f \<longleftrightarrow> (\<forall>i. faults (fault_plan f) i = None) \<and> (\<forall>op. next_matching (fault_plan f) op = None)"

lemma crashable_fault_keeps:
  "crashable_fault op f = (a, f') \<Longrightarrow> volatile f' = volatile f \<and> durable f' = durable f"
  by (auto simp: crashable_fault_def split: prod.splits)

lemma crashable_fault_free:
  assumes "fault_free f"
  shows "\<exists>f'. crashable_fault op f = (None, f') \<and> fault_free f' \<and>
    volatile f' = volatile f \<and> durable f' = durable f"
  using assms by (simp add: crashable_fault_def next_fault_def fault_free_def Let_def)

lemma crashable_read_at_cases:
  assumes "crashable_read_at off n f = (r, f')"
  shows "volatile f' = volatile f \<and> durable f' = durable f"
    and "r = Inr bs \<Longrightarrow> length bs \<le> n \<and> (bs = [] \<or> unat off + length bs \<le> length (volatile f)) \<and>
      bs = byte_slice (unat off) (unat off + length bs) (volatile f)"
  using assms
  by (auto simp: crashable_read_at_def Let_def dest!: crashable_fault_keeps
      split: prod.splits sum.splits if_splits option.splits fault_action.splits)

lemma crashable_write_at_cases:
  assumes "crashable_write_at off bs f = (r, f')"
  shows "durable f' = durable f"
    and "r = Inl e \<Longrightarrow> volatile f' = volatile f"
    and "r = Inr k \<Longrightarrow> k \<le> length bs \<and> volatile f' = file_splice (unat off) (take k bs) (volatile f)"
  using assms
  by (auto simp: crashable_write_at_def Let_def dest!: crashable_fault_keeps
      split: prod.splits sum.splits if_splits option.splits fault_action.splits)

lemma crashable_set_len_cases:
  assumes "crashable_set_len m f = (r, f')"
  shows "durable f' = durable f"
    and "volatile f' = (if r = Inr () then resize (unat m) (volatile f) else volatile f)"
  using assms
  by (auto simp: crashable_set_len_def dest!: crashable_fault_keeps split: prod.splits option.splits fault_action.splits)

lemma crashable_sync_cases:
  assumes "crashable_sync op f = (r, f')"
  shows "volatile f' = volatile f"
    and "r = Inr () \<Longrightarrow> durable f' = volatile f"
    and "durable f' = durable f \<or> (\<exists>k. durable f' = take k (volatile f))"
  using assms
  by (auto simp: crashable_sync_def dest!: crashable_fault_keeps split: prod.splits option.splits fault_action.splits if_splits
      intro: exI [of _ "length (volatile f)"])

interpretation crashable: durable_file crashable_ops volatile
proof unfold_locales
  fix off n f bs f' assume "df_read_at crashable_ops off n f = (Inr bs, f')"
  then show "length bs \<le> n \<and> (bs = [] \<or> unat off + length bs \<le> length (volatile f)) \<and>
      bs = byte_slice (unat off) (unat off + length bs) (volatile f) \<and> volatile f' = volatile f"
    using crashable_read_at_cases(1) [of off n f "Inr bs" f'] crashable_read_at_cases(2) [of off n f "Inr bs" f' bs]
    by (simp add: crashable_ops_def)
qed (auto simp: crashable_ops_def crashable_len_def unat_of_nat split: if_splits
    dest: crashable_read_at_cases(1) crashable_write_at_cases(2,3) crashable_set_len_cases(2) crashable_sync_cases(1))

interpretation crashable: crash_file crashable_ops volatile durable
  by unfold_locales (auto simp: crashable_ops_def
      dest: crashable_read_at_cases(1) crashable_write_at_cases(1) crashable_set_len_cases(1) crashable_sync_cases(2,3))

interpretation crashable: reliable_file crashable_ops volatile fault_free
proof unfold_locales
  fix f and off :: u64 and n assume *: "fault_free f" "unat off < length (volatile f)" "0 < (n :: nat)"
  obtain f' where "crashable_fault OpReadAt f = (None, f')" "fault_free f'" "volatile f' = volatile f"
    using crashable_fault_free [OF *(1)] by blast
  then show "\<exists>bs f'. df_read_at crashable_ops off n f = (Inr bs, f') \<and> bs \<noteq> [] \<and> fault_free f'"
    using * by (auto simp: crashable_ops_def crashable_read_at_def Let_def byte_slice_def)
next
  fix f and bs :: bytes and off :: u64 assume *: "fault_free f" "bs \<noteq> []" "unat off + length bs < 2 ^ 64"
  obtain f' where "crashable_fault OpWriteAt f = (None, f')" "fault_free f'" "volatile f' = volatile f"
    using crashable_fault_free [OF *(1)] by blast
  then show "\<exists>k f'. df_write_at crashable_ops off bs f = (Inr k, f') \<and> 0 < k \<and> fault_free f'"
    using *
    by (auto simp: crashable_ops_def crashable_write_at_def Let_def checked_add_usize_def fault_free_def)
next
  fix f m assume *: "fault_free f"
  obtain f' where "crashable_fault OpSetLen f = (None, f')" "fault_free f'"
    using crashable_fault_free [OF *] by blast
  then show "\<exists>f'. df_set_len crashable_ops m f = (Inr (), f') \<and> fault_free f'"
    by (auto simp: crashable_ops_def crashable_set_len_def fault_free_def)
next
  fix f assume *: "fault_free f"
  obtain f1 f2 where "crashable_fault OpSyncData f = (None, f1)" "fault_free f1"
    "crashable_fault OpSyncAll f = (None, f2)" "fault_free f2"
    using crashable_fault_free [OF *] by blast
  then show "\<exists>f'. df_sync_data crashable_ops f = (Inr (), f') \<and> fault_free f'"
    "\<exists>f'. df_sync_all crashable_ops f = (Inr (), f') \<and> fault_free f'"
    by (auto simp: crashable_ops_def crashable_sync_def fault_free_def)
qed (simp add: crashable_ops_def crashable_len_def)

section \<open>Properties\<close>

text \<open>
  C11. A whole-buffer write to the simulated file followed by a successful sync survives a
  crash: after losing the process the file reads back exactly the written bytes at their
  offset. If the write fails, or the process is lost before the sync, the crash leaves the file
  as the last sync left it. The fault plan is arbitrary.
\<close>

theorem crashable_write_sync_crash:
  assumes "write_all_at crashable_ops off bs f = (r, f1)"
    and "df_sync_data crashable_ops f1 = (rs, f2)"
    and "unat off + length bs \<le> 2 ^ 64" "unat off \<le> length (volatile f)"
  shows "volatile (crash f1) = durable f \<and>
    (r = Inr () \<and> rs = Inr () \<longrightarrow>
       volatile (crash f2) = file_splice (unat off) bs (volatile f) \<and>
       byte_slice (unat off) (unat off + length bs) (volatile (crash f2)) = bs)"
proof -
  have "volatile (crash f1) = durable f"
    using crashable.write_all_at_stable [OF assms(1)] by (simp add: crash_def)
  moreover have "volatile (crash f2) = file_splice (unat off) bs (volatile f)"
    if "r = Inr ()" "rs = Inr ()"
    using crashable.write_all_at_view [OF assms(1,3,4)] crashable.sync_data_stable assms(2) that
    by (auto simp: crash_def)
  ultimately show ?thesis by auto
qed

theorem crashable_write_sync_crash_witness:
  "volatile (crash (snd (df_sync_data crashable_ops
     (snd (write_all_at crashable_ops 1 [7, 8] (crashable_from_durable [1, 2, 3])))))) = [1, 7, 8]"
proof -
  let ?f = "crashable_from_durable [1, 2, 3]"
  have f: "fault_free ?f" "volatile ?f = [1, 2, 3]"
    by (simp_all add: fault_free_def crashable_from_durable_def fault_plan_default_def)
  obtain f1 where w: "write_all_at crashable_ops 1 [7, 8] ?f = (Inr (), f1)" "fault_free f1"
    using crashable.write_all_at_returns [OF f(1), of 1 "[7, 8]"] f(2) by auto
  obtain f2 where y: "df_sync_data crashable_ops f1 = (Inr (), f2)"
    using crashable.healthy_sync_data [OF w(2)] by blast
  show ?thesis
    using crashable_write_sync_crash [OF w(1) y] w(1) y f(2)
    by (simp add: file_splice_def write_slice_def)
qed

end
