(* ===== verification/Exact_Codec.thy ===== *)
theory Exact_Codec
  imports Dodb_Prelude
begin

text \<open>
  The contract shared by the fixed-layout codecs of the storage engine (pages, superblocks,
  tree nodes): decoding an encoded value gives the value back, up to the fields the encoder
  fills in (checksums, zero padding), and a buffer that decodes is the encoding of the value it
  decodes to. The second law makes the formats canonical: two different buffers never decode to
  the same value.
\<close>

locale exact_codec =
  fixes enc :: "'a \<Rightarrow> 'e + bytes"
    and dec :: "bytes \<Rightarrow> 'e + 'a"
    and filled :: "'a \<Rightarrow> bytes \<Rightarrow> 'a"
  assumes dec_enc: "enc x = Inr bs \<Longrightarrow> dec bs = Inr (filled x bs)"
    and enc_dec: "dec bs = Inr x \<Longrightarrow> enc x = Inr bs"
begin

lemma dec_inject: "dec bs = Inr x \<Longrightarrow> dec cs = Inr x \<Longrightarrow> bs = cs"
  by (metis enc_dec sum.inject(2))

lemma filled_fixpoint: "dec bs = Inr x \<Longrightarrow> filled x bs = x"
  by (metis dec_enc enc_dec sum.inject(2))

lemma enc_filled: "enc x = Inr bs \<Longrightarrow> enc (filled x bs) = Inr bs"
  by (metis dec_enc enc_dec)

lemma enc_eq_iff: "enc x = Inr bs \<Longrightarrow> enc y = Inr cs \<Longrightarrow> bs = cs \<longleftrightarrow> filled x bs = filled y cs"
  by (metis dec_enc dec_inject sum.inject(2))

end

section \<open>Comparing buffers field by field\<close>

lemma byte_slice_eq_step:
  assumes "a \<le> b" "b \<le> c" "byte_slice a b xs = byte_slice a b ys" "byte_slice b c xs = byte_slice b c ys"
  shows "byte_slice a c xs = byte_slice a c ys"
  using byte_slice_split [OF assms(1,2)] assms(3,4) by metis

lemma eq_from_slices:
  assumes "length xs = n" "length ys = n" "byte_slice 0 n xs = byte_slice 0 n ys"
  shows "xs = ys"
  using assms by (simp add: byte_slice_def)

lemma byte_slice_one:
  "length xs = length ys \<Longrightarrow> i < length xs \<Longrightarrow> xs ! i = ys ! i
     \<Longrightarrow> byte_slice i (Suc i) xs = byte_slice i (Suc i) ys"
  by (simp add: byte_slice_Suc)

lemma drop_eq_byte_slice: "length xs = n \<Longrightarrow> drop a xs = byte_slice a n xs"
  by (simp add: byte_slice_def)

end
