(* ===== verification/Page_Codec.thy ===== *)
theory Page_Codec
  imports Core_Types Exact_Codec
begin

text \<open>
  The fixed-size page codec of \<open>dodb-storage/src/page.rs\<close>: a 32-byte header, a zero-padded
  body and a checksum over the whole page with its own field zeroed. The checksum function is
  the \<open>crc32c\<close> crate's, a parameter \<open>crc\<close> here: nothing below depends on which function it is.
\<close>

abbreviation PAGE_SIZE :: usize where "PAGE_SIZE \<equiv> 4096"
abbreviation PAGE_HEADER_SIZE :: usize where "PAGE_HEADER_SIZE \<equiv> 32"
abbreviation PAGE_BODY_SIZE :: usize where "PAGE_BODY_SIZE \<equiv> 4064"
abbreviation PAGE_FORMAT_VERSION :: u16 where "PAGE_FORMAT_VERSION \<equiv> 1"
abbreviation PAGE_CHECKSUM_OFFSET :: usize where "PAGE_CHECKSUM_OFFSET \<equiv> 28"

definition PAGE_MAGIC :: bytes where
  "PAGE_MAGIC = [0x44, 0x42, 0x50, 0x47]"

datatype page_type = PtInternal | PtLeaf | PtOverflow | PtFree | PtTest

fun page_type_byte :: "page_type \<Rightarrow> u8" where
  "page_type_byte PtInternal = 1"
| "page_type_byte PtLeaf = 2"
| "page_type_byte PtOverflow = 3"
| "page_type_byte PtFree = 4"
| "page_type_byte PtTest = 255"

definition page_type_decode :: "u8 \<Rightarrow> page_type result" where
  "page_type_decode value =
     (if value = 1 then Inr PtInternal
      else if value = 2 then Inr PtLeaf
      else if value = 3 then Inr PtOverflow
      else if value = 4 then Inr PtFree
      else if value = 255 then Inr PtTest
      else Inl UnsupportedFormat)"

record page_header =
  header_version :: u16
  header_type :: page_type
  header_page_id :: page_id
  header_page_lsn :: lsn
  header_flags :: u32
  header_checksum :: u32

definition page_header_new :: "page_type \<Rightarrow> page_id \<Rightarrow> lsn \<Rightarrow> page_header" where
  "page_header_new ty pid lsn =
     \<lparr>header_version = PAGE_FORMAT_VERSION, header_type = ty, header_page_id = pid,
      header_page_lsn = lsn, header_flags = 0, header_checksum = 0\<rparr>"

record decoded_page =
  decoded_header :: page_header
  decoded_body :: bytes

definition page_checksum :: "(bytes \<Rightarrow> u32) \<Rightarrow> bytes \<Rightarrow> u32" where
  "page_checksum crc page = crc (write_slice PAGE_CHECKSUM_OFFSET [0, 0, 0, 0] page)"

text \<open>The page buffer before its checksum is filled in.\<close>

definition page_fields :: "page_header \<Rightarrow> bytes \<Rightarrow> bytes" where
  "page_fields header body =
     (let page = replicate PAGE_SIZE 0;
          page = write_slice 0 PAGE_MAGIC page;
          page = write_slice 4 (u16_to_le_bytes (header_version header)) page;
          page = write_slice 6 [page_type_byte (header_type header)] page;
          page = write_slice 8 (u64_to_le_bytes (header_page_id header)) page;
          page = write_slice 16 (u64_to_le_bytes (header_page_lsn header)) page;
          page = write_slice 24 (u32_to_le_bytes (header_flags header)) page
      in write_slice PAGE_HEADER_SIZE body page)"

definition encode_page :: "(bytes \<Rightarrow> u32) \<Rightarrow> page_header \<Rightarrow> bytes \<Rightarrow> bytes result" where
  "encode_page crc header body =
     (if header_version header \<noteq> PAGE_FORMAT_VERSION then Inl UnsupportedFormat
      else if length body > PAGE_SIZE - PAGE_HEADER_SIZE then Inl InvalidInput
      else
        (let page = page_fields header body;
             checksum = page_checksum crc page
         in Inr (write_slice PAGE_CHECKSUM_OFFSET (u32_to_le_bytes checksum) page)))"

definition decode_page_at :: "(bytes \<Rightarrow> u32) \<Rightarrow> bytes \<Rightarrow> page_id option \<Rightarrow> decoded_page result" where
  "decode_page_at crc bs expected_page_id =
     (if length bs \<noteq> PAGE_SIZE then Inl Corruption
      else if byte_slice 0 4 bs \<noteq> PAGE_MAGIC then Inl Corruption
      else
        (let format_version = u16_from_le_bytes [bs ! 4, bs ! 5] in
         if format_version \<noteq> PAGE_FORMAT_VERSION then Inl UnsupportedFormat
         else if bs ! 7 \<noteq> 0 then Inl Corruption
         else bindR (page_type_decode (bs ! 6)) (\<lambda>ty.
           (let pid = u64_from_le_bytes (byte_slice 8 16 bs) in
            if (case expected_page_id of None \<Rightarrow> False | Some expected \<Rightarrow> pid \<noteq> expected)
            then Inl Corruption
            else
              (let page_lsn = u64_from_le_bytes (byte_slice 16 24 bs);
                   flags = u32_from_le_bytes (byte_slice 24 28 bs);
                   stored_checksum = u32_from_le_bytes (byte_slice 28 32 bs);
                   calculated_checksum = page_checksum crc bs
               in if stored_checksum \<noteq> calculated_checksum then Inl Corruption
                  else Inr \<lparr>decoded_header =
                          \<lparr>header_version = format_version, header_type = ty, header_page_id = pid,
                           header_page_lsn = page_lsn, header_flags = flags,
                           header_checksum = stored_checksum\<rparr>,
                        decoded_body = drop PAGE_HEADER_SIZE bs\<rparr>)))))"

definition decode_page :: "(bytes \<Rightarrow> u32) \<Rightarrow> bytes \<Rightarrow> decoded_page result" where
  "decode_page crc bs = decode_page_at crc bs None"

section \<open>Round trips\<close>

lemma length_PAGE_MAGIC [simp]: "length PAGE_MAGIC = 4"
  by (simp add: PAGE_MAGIC_def)

lemma page_type_decode_byte [simp]: "page_type_decode (page_type_byte ty) = Inr ty"
  by (cases ty) (simp_all add: page_type_decode_def)

lemma page_type_byte_decode: "page_type_decode b = Inr ty \<Longrightarrow> page_type_byte ty = b"
  by (auto simp: page_type_decode_def split: if_splits)

lemma page_checksum_write [simp]:
  "length c = 4 \<Longrightarrow> 32 \<le> length page \<Longrightarrow>
   page_checksum crc (write_slice PAGE_CHECKSUM_OFFSET c page) = page_checksum crc page"
  by (simp add: page_checksum_def codec_simps)

lemma body_slice:
  assumes "length (page :: bytes) = PAGE_SIZE" "length body \<le> PAGE_BODY_SIZE"
    "byte_slice PAGE_HEADER_SIZE PAGE_SIZE page = replicate PAGE_BODY_SIZE 0"
  shows "byte_slice PAGE_HEADER_SIZE PAGE_SIZE (write_slice PAGE_HEADER_SIZE body page) =
    body @ replicate (PAGE_BODY_SIZE - length body) 0"
proof -
  have "drop (PAGE_HEADER_SIZE + length body) page = drop (length body) (replicate PAGE_BODY_SIZE 0)"
    using assms(1,3) by (simp add: byte_slice_def add.commute flip: drop_drop)
  then show ?thesis
    using assms(1,2) by (simp add: byte_slice_def write_slice_def)
qed

lemma page_fields_slices:
  assumes "length body \<le> PAGE_BODY_SIZE"
  shows "length (page_fields h body) = PAGE_SIZE"
    and "byte_slice 0 4 (page_fields h body) = PAGE_MAGIC"
    and "byte_slice 4 6 (page_fields h body) = u16_to_le_bytes (header_version h)"
    and "page_fields h body ! 6 = page_type_byte (header_type h)"
    and "page_fields h body ! 7 = 0"
    and "byte_slice 8 16 (page_fields h body) = u64_to_le_bytes (header_page_id h)"
    and "byte_slice 16 24 (page_fields h body) = u64_to_le_bytes (header_page_lsn h)"
    and "byte_slice 24 28 (page_fields h body) = u32_to_le_bytes (header_flags h)"
    and "byte_slice 28 32 (page_fields h body) = replicate 4 0"
    and "byte_slice 32 4096 (page_fields h body) = body @ replicate (PAGE_BODY_SIZE - length body) 0"
  using assms
  by (simp_all add: page_fields_def Let_def codec_simps body_slice)

lemma encode_page_ok:
  "encode_page crc h body = Inr bs \<longleftrightarrow>
     header_version h = PAGE_FORMAT_VERSION \<and> length body \<le> PAGE_BODY_SIZE \<and>
     bs = write_slice PAGE_CHECKSUM_OFFSET
            (u32_to_le_bytes (page_checksum crc (page_fields h body))) (page_fields h body)"
  by (auto simp: encode_page_def Let_def)

lemma encode_page_slices:
  assumes "encode_page crc h body = Inr bs"
  shows "length bs = PAGE_SIZE"
    and "byte_slice 0 4 bs = PAGE_MAGIC"
    and "byte_slice 4 6 bs = u16_to_le_bytes PAGE_FORMAT_VERSION"
    and "bs ! 6 = page_type_byte (header_type h)"
    and "bs ! 7 = 0"
    and "byte_slice 8 16 bs = u64_to_le_bytes (header_page_id h)"
    and "byte_slice 16 24 bs = u64_to_le_bytes (header_page_lsn h)"
    and "byte_slice 24 28 bs = u32_to_le_bytes (header_flags h)"
    and "byte_slice 28 32 bs = u32_to_le_bytes (page_checksum crc bs)"
    and "byte_slice 32 4096 bs = body @ replicate (PAGE_BODY_SIZE - length body) 0"
  using assms page_fields_slices [of body h]
  by (auto simp: encode_page_ok codec_simps)

lemma decode_page_at_ok:
  "decode_page_at crc bs expected = Inr d \<longleftrightarrow>
     length bs = PAGE_SIZE \<and> byte_slice 0 4 bs = PAGE_MAGIC \<and>
     byte_slice 4 6 bs = u16_to_le_bytes PAGE_FORMAT_VERSION \<and> bs ! 7 = 0 \<and>
     (expected = None \<or> expected = Some (u64_from_le_bytes (byte_slice 8 16 bs))) \<and>
     byte_slice 28 32 bs = u32_to_le_bytes (page_checksum crc bs) \<and>
     (\<exists>ty. page_type_decode (bs ! 6) = Inr ty \<and>
       d = \<lparr>decoded_header =
            \<lparr>header_version = PAGE_FORMAT_VERSION, header_type = ty,
             header_page_id = u64_from_le_bytes (byte_slice 8 16 bs),
             header_page_lsn = u64_from_le_bytes (byte_slice 16 24 bs),
             header_flags = u32_from_le_bytes (byte_slice 24 28 bs),
             header_checksum = page_checksum crc bs\<rparr>,
          decoded_body = byte_slice PAGE_HEADER_SIZE PAGE_SIZE bs\<rparr>)"
proof (cases "length bs = PAGE_SIZE")
  case True
  then have four: "[bs ! 4, bs ! 5] = byte_slice 4 6 bs"
    using byte_slice_2 [of 4 bs] by simp
  have version: "u16_from_le_bytes (byte_slice 4 6 bs) = 1 \<longleftrightarrow> byte_slice 4 6 bs = u16_to_le_bytes 1"
    using True u16_to_from_le_bytes [of "byte_slice 4 6 bs"] by auto
  have check: "u32_from_le_bytes (byte_slice 28 32 bs) = c \<longleftrightarrow> byte_slice 28 32 bs = u32_to_le_bytes c" for c
    using True u32_to_from_le_bytes [of "byte_slice 28 32 bs"] by auto
  have "drop PAGE_HEADER_SIZE bs = byte_slice PAGE_HEADER_SIZE PAGE_SIZE bs"
    using True by (rule drop_eq_byte_slice)
  then show ?thesis
    unfolding decode_page_at_def Let_def four
    using True version check
    by (cases expected) (auto split: if_splits)
qed (simp add: decode_page_at_def)

lemma decode_encode_page:
  assumes "encode_page crc h body = Inr bs" "expected = None \<or> expected = Some (header_page_id h)"
  shows "decode_page_at crc bs expected =
    Inr \<lparr>decoded_header = h\<lparr>header_checksum := page_checksum crc bs\<rparr>,
         decoded_body = body @ replicate (PAGE_BODY_SIZE - length body) 0\<rparr>"
  using encode_page_slices [OF assms(1)] assms
  by (cases h) (simp add: decode_page_at_ok encode_page_ok)

lemma page_checksum_slices:
  "length bs = PAGE_SIZE \<Longrightarrow>
   page_checksum crc bs = crc (byte_slice 0 28 bs @ [0, 0, 0, 0] @ byte_slice 32 PAGE_SIZE bs)"
  by (simp add: page_checksum_def write_slice_def byte_slice_def)

lemma encode_decode_page:
  assumes "decode_page_at crc bs expected = Inr d"
  shows "encode_page crc (decoded_header d) (decoded_body d) = Inr bs"
proof -
  obtain ty where ty: "page_type_decode (bs ! 6) = Inr ty"
    and d: "d = \<lparr>decoded_header =
            \<lparr>header_version = PAGE_FORMAT_VERSION, header_type = ty,
             header_page_id = u64_from_le_bytes (byte_slice 8 16 bs),
             header_page_lsn = u64_from_le_bytes (byte_slice 16 24 bs),
             header_flags = u32_from_le_bytes (byte_slice 24 28 bs),
             header_checksum = page_checksum crc bs\<rparr>,
          decoded_body = byte_slice PAGE_HEADER_SIZE PAGE_SIZE bs\<rparr>"
    and bs: "length bs = PAGE_SIZE" "byte_slice 0 4 bs = PAGE_MAGIC"
      "byte_slice 4 6 bs = u16_to_le_bytes PAGE_FORMAT_VERSION" "bs ! 7 = 0"
      "byte_slice 28 32 bs = u32_to_le_bytes (page_checksum crc bs)"
    using assms [unfolded decode_page_at_ok] by blast
  then obtain cs where enc: "encode_page crc (decoded_header d) (decoded_body d) = Inr cs"
    by (simp add: encode_page_ok)
  note cs = encode_page_slices [OF enc, unfolded d, simplified]
  have fields: "byte_slice 8 16 cs = byte_slice 8 16 bs" "byte_slice 16 24 cs = byte_slice 16 24 bs"
    "byte_slice 24 28 cs = byte_slice 24 28 bs" "cs ! 6 = bs ! 6"
    "byte_slice 32 4096 cs = byte_slice 32 4096 bs"
    using cs bs(1) page_type_byte_decode [OF ty]
    by (simp_all add: u64_to_from_le_bytes u32_to_from_le_bytes)
  have "byte_slice 6 8 cs = byte_slice 6 8 bs"
    using byte_slice_2 [of 6 cs] byte_slice_2 [of 6 bs] cs(1,5) bs(1,4) fields(4)
    by simp
  then have head: "byte_slice 0 28 cs = byte_slice 0 28 bs"
    using cs(2,3) bs(2,3) fields(1-3)
    by (intro byte_slice_eq_step [of 0 24 28] byte_slice_eq_step [of 0 16 24]
        byte_slice_eq_step [of 0 8 16] byte_slice_eq_step [of 0 6 8] byte_slice_eq_step [of 0 4 6]) auto
  then have "page_checksum crc cs = page_checksum crc bs"
    using cs(1) bs(1) fields(5) by (simp add: page_checksum_slices)
  then have "byte_slice 0 PAGE_SIZE cs = byte_slice 0 PAGE_SIZE bs"
    using cs(9) bs(5) head fields(5)
    by (intro byte_slice_eq_step [of 0 32 PAGE_SIZE] byte_slice_eq_step [of 0 28 32]) auto
  then have "cs = bs"
    using cs(1) bs(1) by (rule eq_from_slices [rotated 2])
  then show ?thesis using enc by simp
qed

lemma decode_page_at_id:
  "decode_page_at crc bs (Some pid) = Inr d \<Longrightarrow> header_page_id (decoded_header d) = pid"
  by (auto simp: decode_page_at_ok)

text \<open>The page codec is exact: what the encoder adds is the checksum and the zero padding.\<close>

definition filled_page :: "(bytes \<Rightarrow> u32) \<Rightarrow> decoded_page \<Rightarrow> bytes \<Rightarrow> decoded_page" where
  "filled_page crc d bs =
     \<lparr>decoded_header = (decoded_header d)\<lparr>header_checksum := page_checksum crc bs\<rparr>,
      decoded_body = decoded_body d @ replicate (PAGE_BODY_SIZE - length (decoded_body d)) 0\<rparr>"

interpretation page: exact_codec
  "\<lambda>d. encode_page crc (decoded_header d) (decoded_body d)" "decode_page crc" "filled_page crc" for crc
proof unfold_locales
  fix d bs
  show "decode_page crc bs = Inr (filled_page crc d bs)"
    if "encode_page crc (decoded_header d) (decoded_body d) = Inr bs"
    unfolding decode_page_def filled_page_def by (rule decode_encode_page [OF that]) simp
  show "encode_page crc (decoded_header d) (decoded_body d) = Inr bs" if "decode_page crc bs = Inr d"
    using that unfolding decode_page_def by (rule encode_decode_page)
qed

text \<open>
  C14. Pages are stored exactly. Encoding a header and a body gives a page that decodes, at
  its own page id, to that header (with the computed checksum) and that body padded with zeros
  to the page size; conversely any buffer that decodes, at any expected page id, has that page id
  and is byte for byte the encoding of what it decodes to.
\<close>

theorem page_codec_exact:
  "(\<forall>h body bs. encode_page crc h body = Inr bs \<longrightarrow>
      decode_page_at crc bs (Some (header_page_id h)) =
        Inr \<lparr>decoded_header = h\<lparr>header_checksum := page_checksum crc bs\<rparr>,
             decoded_body = body @ replicate (PAGE_BODY_SIZE - length body) 0\<rparr>) \<and>
   (\<forall>bs pid d. decode_page_at crc bs (Some pid) = Inr d \<longrightarrow>
      header_page_id (decoded_header d) = pid \<and>
      encode_page crc (decoded_header d) (decoded_body d) = Inr bs)"
  by (intro conjI allI impI)
    (rule decode_encode_page, assumption, simp, rule decode_page_at_id, assumption,
      rule encode_decode_page, assumption)

theorem page_codec_exact_witness:
  "\<exists>bs. encode_page (\<lambda>_. 9) (page_header_new PtLeaf 7 42) [1, 2] = Inr bs \<and>
     decode_page_at (\<lambda>_. 9) bs (Some (header_page_id (page_header_new PtLeaf 7 42))) =
       Inr \<lparr>decoded_header = (page_header_new PtLeaf 7 42)\<lparr>header_checksum := page_checksum (\<lambda>_. 9) bs\<rparr>,
            decoded_body = [1, 2] @ replicate (PAGE_BODY_SIZE - length [1, 2 :: u8]) 0\<rparr>"
proof -
  have "header_version (page_header_new PtLeaf 7 42) = PAGE_FORMAT_VERSION" "length [1, 2 :: u8] \<le> PAGE_BODY_SIZE"
    by (simp_all add: page_header_new_def)
  then obtain bs where bs: "encode_page (\<lambda>_. 9) (page_header_new PtLeaf 7 42) [1, 2] = Inr bs"
    using encode_page_ok by blast
  show ?thesis
    by (rule exI, rule conjI [OF bs], rule page_codec_exact [THEN conjunct1, rule_format, OF bs])
qed

end
