(* ===== verification/Superblock.thy ===== *)
theory Superblock
  imports Page_Codec
begin

text \<open>
  The superblock codec and the choice between its two copies, \<open>dodb-storage/src/superblock.rs\<close>.
  A superblock occupies a full page; the two copies are pages 0 and 1 of the data file. The
  checksum function is again a parameter.
\<close>

abbreviation SUPERBLOCK_FORMAT_VERSION :: u16 where "SUPERBLOCK_FORMAT_VERSION \<equiv> 1"
abbreviation NULL_PAGE_ID :: u64 where "NULL_PAGE_ID \<equiv> - 1"

definition SUPERBLOCK_MAGIC :: bytes where
  "SUPERBLOCK_MAGIC = [0x44, 0x53, 0x42, 0x4b]"

text \<open>\<open>database_uuid\<close> is a 16-byte array: \<open>superblock_wf\<close> below is its type.\<close>

record superblock =
  sb_format_version :: u16
  sb_generation :: u64
  sb_database_uuid :: bytes
  sb_tenant_id :: tenant_id
  sb_shard_id :: shard_id
  sb_shard_epoch :: shard_epoch
  sb_page_size :: u32
  sb_root_page_id :: "page_id option"
  sb_free_list_head :: "page_id option"
  sb_high_water_page_id :: "page_id option"
  sb_checkpoint_lsn :: lsn
  sb_checksum :: u32

definition superblock_new :: "u64 \<Rightarrow> bytes \<Rightarrow> tenant_id \<Rightarrow> shard_id \<Rightarrow> shard_epoch \<Rightarrow> superblock" where
  "superblock_new generation uuid tenant shard epoch =
     \<lparr>sb_format_version = SUPERBLOCK_FORMAT_VERSION, sb_generation = generation,
      sb_database_uuid = uuid, sb_tenant_id = tenant, sb_shard_id = shard, sb_shard_epoch = epoch,
      sb_page_size = 4096, sb_root_page_id = None, sb_free_list_head = None,
      sb_high_water_page_id = None, sb_checkpoint_lsn = 0, sb_checksum = 0\<rparr>"

datatype superblock_slot = SlotA | SlotB

record selected_superblock =
  selected_slot :: superblock_slot
  selected_superblock :: superblock

definition encode_page_id :: "page_id option \<Rightarrow> u64" where
  "encode_page_id page = (case page of None \<Rightarrow> NULL_PAGE_ID | Some p \<Rightarrow> p)"

definition decode_page_id :: "u64 \<Rightarrow> page_id option" where
  "decode_page_id value = (if value \<noteq> NULL_PAGE_ID then Some value else None)"

definition superblock_checksum :: "(bytes \<Rightarrow> u32) \<Rightarrow> bytes \<Rightarrow> u32" where
  "superblock_checksum crc page = crc (write_slice 90 [0, 0, 0, 0] page)"

text \<open>The superblock page before its checksum is filled in.\<close>

definition superblock_fields :: "superblock \<Rightarrow> bytes" where
  "superblock_fields sb =
     (let page = replicate PAGE_SIZE 0;
          page = write_slice 0 SUPERBLOCK_MAGIC page;
          page = write_slice 4 (u16_to_le_bytes (sb_format_version sb)) page;
          page = write_slice 6 (u64_to_le_bytes (sb_generation sb)) page;
          page = write_slice 14 (sb_database_uuid sb) page;
          page = write_slice 30 (u64_to_le_bytes (sb_tenant_id sb)) page;
          page = write_slice 38 (u64_to_le_bytes (sb_shard_id sb)) page;
          page = write_slice 46 (u64_to_le_bytes (sb_shard_epoch sb)) page;
          page = write_slice 54 (u32_to_le_bytes (sb_page_size sb)) page;
          page = write_slice 58 (u64_to_le_bytes (encode_page_id (sb_root_page_id sb))) page;
          page = write_slice 66 (u64_to_le_bytes (encode_page_id (sb_free_list_head sb))) page;
          page = write_slice 74 (u64_to_le_bytes (encode_page_id (sb_high_water_page_id sb))) page
      in write_slice 82 (u64_to_le_bytes (sb_checkpoint_lsn sb)) page)"

definition encode_superblock :: "(bytes \<Rightarrow> u32) \<Rightarrow> superblock \<Rightarrow> bytes result" where
  "encode_superblock crc sb =
     (if sb_format_version sb \<noteq> SUPERBLOCK_FORMAT_VERSION then Inl UnsupportedFormat
      else if sb_page_size sb \<noteq> 4096 then Inl InvalidInput
      else
        (let page = superblock_fields sb;
             checksum = superblock_checksum crc page
         in Inr (write_slice 90 (u32_to_le_bytes checksum) page)))"

definition decode_superblock :: "(bytes \<Rightarrow> u32) \<Rightarrow> bytes \<Rightarrow> superblock result" where
  "decode_superblock crc bs =
     (if length bs \<noteq> PAGE_SIZE then Inl Corruption
      else if byte_slice 0 4 bs \<noteq> SUPERBLOCK_MAGIC then Inl Corruption
      else
        (let format_version = u16_from_le_bytes (byte_slice 4 6 bs) in
         if format_version \<noteq> SUPERBLOCK_FORMAT_VERSION then Inl UnsupportedFormat
         else
           (let stored_checksum = u32_from_le_bytes (byte_slice 90 94 bs);
                calculated_checksum = superblock_checksum crc bs
            in
            if stored_checksum \<noteq> calculated_checksum then Inl Corruption
            else
              (let page_size = u32_from_le_bytes (byte_slice 54 58 bs) in
               if page_size \<noteq> 4096 then Inl UnsupportedFormat
               else Inr
                 \<lparr>sb_format_version = format_version,
                  sb_generation = u64_from_le_bytes (byte_slice 6 14 bs),
                  sb_database_uuid = byte_slice 14 30 bs,
                  sb_tenant_id = u64_from_le_bytes (byte_slice 30 38 bs),
                  sb_shard_id = u64_from_le_bytes (byte_slice 38 46 bs),
                  sb_shard_epoch = u64_from_le_bytes (byte_slice 46 54 bs),
                  sb_page_size = page_size,
                  sb_root_page_id = decode_page_id (u64_from_le_bytes (byte_slice 58 66 bs)),
                  sb_free_list_head = decode_page_id (u64_from_le_bytes (byte_slice 66 74 bs)),
                  sb_high_water_page_id = decode_page_id (u64_from_le_bytes (byte_slice 74 82 bs)),
                  sb_checkpoint_lsn = u64_from_le_bytes (byte_slice 82 90 bs),
                  sb_checksum = stored_checksum\<rparr>))))"

definition choose_superblock :: "(bytes \<Rightarrow> u32) \<Rightarrow> bytes \<Rightarrow> bytes \<Rightarrow> selected_superblock result" where
  "choose_superblock crc slot_a slot_b =
     (let a = decode_superblock crc slot_a;
          b = decode_superblock crc slot_b
      in
      if a = Inl UnsupportedFormat then Inl UnsupportedFormat
      else if b = Inl UnsupportedFormat then Inl UnsupportedFormat
      else
        (case (a, b) of
           (Inr sb, Inl _) \<Rightarrow> Inr \<lparr>selected_slot = SlotA, selected_superblock = sb\<rparr>
         | (Inl _, Inr sb) \<Rightarrow> Inr \<lparr>selected_slot = SlotB, selected_superblock = sb\<rparr>
         | (Inr a, Inr b) \<Rightarrow>
             if sb_generation a \<ge> sb_generation b
             then Inr \<lparr>selected_slot = SlotA, selected_superblock = a\<rparr>
             else Inr \<lparr>selected_slot = SlotB, selected_superblock = b\<rparr>
         | (Inl _, Inl _) \<Rightarrow> Inl Corruption))"

section \<open>Round trip\<close>

text \<open>
  A well-formed superblock has a 16-byte UUID and no page reference equal to the reserved null
  id (the encoding of an absent page).
\<close>

definition superblock_wf :: "superblock \<Rightarrow> bool" where
  "superblock_wf sb \<longleftrightarrow> length (sb_database_uuid sb) = 16 \<and>
     sb_root_page_id sb \<noteq> Some NULL_PAGE_ID \<and> sb_free_list_head sb \<noteq> Some NULL_PAGE_ID \<and>
     sb_high_water_page_id sb \<noteq> Some NULL_PAGE_ID"

lemma length_SUPERBLOCK_MAGIC [simp]: "length SUPERBLOCK_MAGIC = 4"
  by (simp add: SUPERBLOCK_MAGIC_def)

lemma decode_encode_page_id: "p \<noteq> Some NULL_PAGE_ID \<Longrightarrow> decode_page_id (encode_page_id p) = p"
  by (auto simp: decode_page_id_def encode_page_id_def split: option.splits)

lemma decode_page_id_not_null: "decode_page_id v \<noteq> Some NULL_PAGE_ID"
  by (simp add: decode_page_id_def)

lemma superblock_fields_slices:
  assumes "length (sb_database_uuid sb) = 16"
  shows "length (superblock_fields sb) = PAGE_SIZE"
    and "byte_slice 0 4 (superblock_fields sb) = SUPERBLOCK_MAGIC"
    and "byte_slice 4 6 (superblock_fields sb) = u16_to_le_bytes (sb_format_version sb)"
    and "byte_slice 6 14 (superblock_fields sb) = u64_to_le_bytes (sb_generation sb)"
    and "byte_slice 14 30 (superblock_fields sb) = sb_database_uuid sb"
    and "byte_slice 30 38 (superblock_fields sb) = u64_to_le_bytes (sb_tenant_id sb)"
    and "byte_slice 38 46 (superblock_fields sb) = u64_to_le_bytes (sb_shard_id sb)"
    and "byte_slice 46 54 (superblock_fields sb) = u64_to_le_bytes (sb_shard_epoch sb)"
    and "byte_slice 54 58 (superblock_fields sb) = u32_to_le_bytes (sb_page_size sb)"
    and "byte_slice 58 66 (superblock_fields sb) = u64_to_le_bytes (encode_page_id (sb_root_page_id sb))"
    and "byte_slice 66 74 (superblock_fields sb) = u64_to_le_bytes (encode_page_id (sb_free_list_head sb))"
    and "byte_slice 74 82 (superblock_fields sb) = u64_to_le_bytes (encode_page_id (sb_high_water_page_id sb))"
    and "byte_slice 82 90 (superblock_fields sb) = u64_to_le_bytes (sb_checkpoint_lsn sb)"
  using assms by (simp_all add: superblock_fields_def Let_def codec_simps)

lemma superblock_checksum_write [simp]:
  "length c = 4 \<Longrightarrow> 94 \<le> length page \<Longrightarrow>
   superblock_checksum crc (write_slice 90 c page) = superblock_checksum crc page"
  by (simp add: superblock_checksum_def codec_simps)

lemma encode_superblock_ok:
  "encode_superblock crc sb = Inr bs \<longleftrightarrow>
     sb_format_version sb = SUPERBLOCK_FORMAT_VERSION \<and> sb_page_size sb = 4096 \<and>
     bs = write_slice 90 (u32_to_le_bytes (superblock_checksum crc (superblock_fields sb)))
            (superblock_fields sb)"
  by (auto simp: encode_superblock_def Let_def)

lemma length_encode_superblock:
  "encode_superblock crc sb = Inr bs \<Longrightarrow> superblock_wf sb \<Longrightarrow> length bs = PAGE_SIZE"
  by (auto simp: encode_superblock_ok superblock_wf_def superblock_fields_slices)

lemma decode_encode_superblock:
  assumes "encode_superblock crc sb = Inr bs" "superblock_wf sb"
  shows "decode_superblock crc bs = Inr (sb\<lparr>sb_checksum := superblock_checksum crc bs\<rparr>)"
  using assms superblock_fields_slices [of sb]
  by (cases sb) (auto simp: encode_superblock_ok superblock_wf_def decode_superblock_def codec_simps
      decode_encode_page_id)

lemma decode_superblock_wf: "decode_superblock crc bs = Inr sb \<Longrightarrow> superblock_wf sb"
  by (auto simp: decode_superblock_def superblock_wf_def Let_def decode_page_id_not_null split: if_splits)

section \<open>Choosing a copy\<close>

lemma choose_superblock_iff:
  "choose_superblock crc a b = Inr sel \<longleftrightarrow>
     decode_superblock crc a \<noteq> Inl UnsupportedFormat \<and> decode_superblock crc b \<noteq> Inl UnsupportedFormat \<and>
     (case selected_slot sel of
        SlotA \<Rightarrow> decode_superblock crc a = Inr (selected_superblock sel) \<and>
          (\<forall>sb. decode_superblock crc b = Inr sb \<longrightarrow> sb_generation sb \<le> sb_generation (selected_superblock sel))
      | SlotB \<Rightarrow> decode_superblock crc b = Inr (selected_superblock sel) \<and>
          (\<forall>sb. decode_superblock crc a = Inr sb \<longrightarrow> sb_generation sb < sb_generation (selected_superblock sel)))"
  by (cases sel; cases "selected_slot sel"; cases "decode_superblock crc a"; cases "decode_superblock crc b")
    (auto simp: choose_superblock_def Let_def not_le)

text \<open>Putting a page into one of the two slots.\<close>

fun set_slot :: "superblock_slot \<Rightarrow> bytes \<Rightarrow> bytes \<times> bytes \<Rightarrow> bytes \<times> bytes" where
  "set_slot SlotA page (a, b) = (page, b)"
| "set_slot SlotB page (a, b) = (a, page)"

fun other_slot :: "superblock_slot \<Rightarrow> superblock_slot" where
  "other_slot SlotA = SlotB"
| "other_slot SlotB = SlotA"


lemma choose_fresh:
  assumes "encode_superblock crc sb = Inr page" "superblock_wf sb"
  shows "choose_superblock crc page [] =
    Inr \<lparr>selected_slot = SlotA, selected_superblock = sb\<lparr>sb_checksum := superblock_checksum crc page\<rparr>\<rparr>"
  using decode_encode_superblock [OF assms] by (simp add: choose_superblock_iff decode_superblock_def)


end
