(* ===== verification/Wal_Frame.thy ===== *)
theory Wal_Frame
  imports Superblock Durable_File
begin

text \<open>
  The frame format of the write-ahead log, \<open>dodb-storage/src/wal.rs\<close>: a checksummed 48-byte
  header, a payload with its own checksum and the frame length repeated behind it, and the
  payloads of the three record kinds (initialization, page image, commit). The checksum is the
  parameter \<open>crc\<close>.
\<close>

abbreviation WAL_FORMAT_VERSION :: u16 where "WAL_FORMAT_VERSION \<equiv> 2"
abbreviation LEGACY_WAL_FORMAT_VERSION :: u16 where "LEGACY_WAL_FORMAT_VERSION \<equiv> 1"
abbreviation WAL_HEADER_SIZE :: usize where "WAL_HEADER_SIZE \<equiv> 48"
abbreviation WAL_TRAILER_SIZE :: usize where "WAL_TRAILER_SIZE \<equiv> 4"
abbreviation WAL_MIN_FRAME_SIZE :: usize where "WAL_MIN_FRAME_SIZE \<equiv> 52"
abbreviation WAL_MAX_PAYLOAD_SIZE :: usize where "WAL_MAX_PAYLOAD_SIZE \<equiv> 67108864"
abbreviation LEGACY_INIT_PAYLOAD_SIZE :: usize where "LEGACY_INIT_PAYLOAD_SIZE \<equiv> 44"
abbreviation INIT_PAYLOAD_SIZE :: usize where "INIT_PAYLOAD_SIZE \<equiv> 52"
abbreviation INIT_FRAME_SIZE :: usize where "INIT_FRAME_SIZE \<equiv> 104"
abbreviation PAGE_IMAGE_PAYLOAD_SIZE :: usize where "PAGE_IMAGE_PAYLOAD_SIZE \<equiv> 4104"
abbreviation COMMIT_PAYLOAD_SIZE :: usize where "COMMIT_PAYLOAD_SIZE \<equiv> 16"
abbreviation SUPERBLOCK_A_PAGE :: page_id where "SUPERBLOCK_A_PAGE \<equiv> 0"
abbreviation SUPERBLOCK_B_PAGE :: page_id where "SUPERBLOCK_B_PAGE \<equiv> 1"

definition WAL_MAGIC :: bytes where
  "WAL_MAGIC = [0x44, 0x57, 0x41, 0x4c]"

datatype wal_record_type = WalInit | WalPageImage | WalCommitRecord

fun wal_record_type_byte :: "wal_record_type \<Rightarrow> u8" where
  "wal_record_type_byte WalInit = 1"
| "wal_record_type_byte WalPageImage = 2"
| "wal_record_type_byte WalCommitRecord = 3"

definition wal_record_type_decode :: "u8 \<Rightarrow> wal_record_type result" where
  "wal_record_type_decode value =
     (if value = 1 then Inr WalInit
      else if value = 2 then Inr WalPageImage
      else if value = 3 then Inr WalCommitRecord
      else Inl UnsupportedFormat)"

record wal_identity =
  wi_database_uuid :: bytes
  wi_tenant_id :: tenant_id
  wi_shard_id :: shard_id
  wi_shard_epoch :: shard_epoch

record wal_page_image =
  wpi_page_id :: page_id
  wpi_image :: bytes

record wal_commit =
  wc_batch_id :: u64
  wc_commit_lsn :: lsn
  wc_pages :: "wal_page_image list"

record committed_wal_batch =
  cb_batch_id :: u64
  cb_commit_lsn :: lsn
  cb_pages :: "wal_page_image list"

record frame =
  fr_format_version :: u16
  fr_record_type :: wal_record_type
  fr_record_lsn :: lsn
  fr_batch_id :: u64
  fr_record_index :: u32
  fr_payload :: bytes

section \<open>Frames\<close>

definition header_checksum :: "(bytes \<Rightarrow> u32) \<Rightarrow> bytes \<Rightarrow> u32" where
  "header_checksum crc header = crc (write_slice 40 [0, 0, 0, 0] header)"

text \<open>The header buffer before its own checksum is filled in.\<close>

definition frame_header_fields ::
  "(bytes \<Rightarrow> u32) \<Rightarrow> u16 \<Rightarrow> wal_record_type \<Rightarrow> lsn \<Rightarrow> u64 \<Rightarrow> u32 \<Rightarrow> bytes \<Rightarrow> usize \<Rightarrow> bytes"
where
  "frame_header_fields crc format_version record_type record_lsn batch_id record_index payload frame_length =
     (let header = replicate WAL_HEADER_SIZE 0;
          header = write_slice 0 WAL_MAGIC header;
          header = write_slice 4 (u16_to_le_bytes format_version) header;
          header = write_slice 6 [wal_record_type_byte record_type] header;
          header = write_slice 8 (u32_to_le_bytes (word_of_nat frame_length)) header;
          header = write_slice 12 (u32_to_le_bytes (word_of_nat (length payload))) header;
          header = write_slice 16 (u64_to_le_bytes record_lsn) header;
          header = write_slice 24 (u64_to_le_bytes batch_id) header;
          header = write_slice 32 (u32_to_le_bytes record_index) header
      in write_slice 44 (u32_to_le_bytes (crc payload)) header)"

definition encode_frame ::
  "(bytes \<Rightarrow> u32) \<Rightarrow> u16 \<Rightarrow> wal_record_type \<Rightarrow> lsn \<Rightarrow> u64 \<Rightarrow> u32 \<Rightarrow> bytes \<Rightarrow> bytes result"
where
  "encode_frame crc format_version record_type record_lsn batch_id record_index payload =
     (if length payload > WAL_MAX_PAYLOAD_SIZE then Inl InvalidInput
      else
        bindR (ok_or (checked_add_usize WAL_HEADER_SIZE (length payload)) InvalidInput) (\<lambda>len.
        bindR (ok_or (checked_add_usize len WAL_TRAILER_SIZE) InvalidInput) (\<lambda>frame_length.
          if frame_length \<ge> 2 ^ 32 \<or> length payload \<ge> 2 ^ 32 then Inl InvalidInput
          else
            (let header = frame_header_fields crc format_version record_type record_lsn batch_id
                            record_index payload frame_length;
                 header = write_slice 40 (u32_to_le_bytes (header_checksum crc header)) header
             in Inr (header @ payload @ u32_to_le_bytes (word_of_nat frame_length))))))"

definition any_byte_nonzero :: "bytes \<Rightarrow> bool" where
  "any_byte_nonzero bs = list_ex (\<lambda>b. b \<noteq> 0) bs"

definition decode_header ::
  "(bytes \<Rightarrow> u32) \<Rightarrow> bytes \<Rightarrow> (u16 \<times> wal_record_type \<times> usize \<times> usize \<times> u64 \<times> u64 \<times> u32) result"
where
  "decode_header crc bs =
     (if length bs \<noteq> WAL_HEADER_SIZE then Inl Corruption
      else if byte_slice 0 4 bs \<noteq> WAL_MAGIC then Inl Corruption
      else
        (let version = u16_from_le_bytes (byte_slice 4 6 bs) in
         if version \<noteq> WAL_FORMAT_VERSION \<and> version \<noteq> LEGACY_WAL_FORMAT_VERSION then Inl UnsupportedFormat
         else if bs ! 7 \<noteq> 0 \<or> any_byte_nonzero (byte_slice 36 40 bs) then Inl Corruption
         else if u32_from_le_bytes (byte_slice 40 44 bs) \<noteq> header_checksum crc bs then Inl Corruption
         else
           bindR (wal_record_type_decode (bs ! 6)) (\<lambda>record_type.
             Inr (version, record_type,
                  unat (u32_from_le_bytes (byte_slice 8 12 bs)),
                  unat (u32_from_le_bytes (byte_slice 12 16 bs)),
                  u64_from_le_bytes (byte_slice 16 24 bs),
                  u64_from_le_bytes (byte_slice 24 32 bs),
                  u32_from_le_bytes (byte_slice 32 36 bs)))))"

definition verify_payload_checksum :: "(bytes \<Rightarrow> u32) \<Rightarrow> bytes \<Rightarrow> bytes \<Rightarrow> unit result" where
  "verify_payload_checksum crc header payload =
     (if u32_from_le_bytes (byte_slice 44 48 header) \<noteq> crc payload then Inl Corruption else Inr ())"

section \<open>Payloads\<close>

definition identity_payload :: "wal_identity \<Rightarrow> lsn \<Rightarrow> bytes" where
  "identity_payload identity start_after_lsn =
     (let payload = replicate INIT_PAYLOAD_SIZE 0;
          payload = write_slice 0 (wi_database_uuid identity) payload;
          payload = write_slice 16 (u64_to_le_bytes (wi_tenant_id identity)) payload;
          payload = write_slice 24 (u64_to_le_bytes (wi_shard_id identity)) payload;
          payload = write_slice 32 (u64_to_le_bytes (wi_shard_epoch identity)) payload;
          payload = write_slice 40 (u32_to_le_bytes 4096) payload
      in write_slice 44 (u64_to_le_bytes start_after_lsn) payload)"

definition verify_identity :: "u16 \<Rightarrow> bytes \<Rightarrow> wal_identity \<Rightarrow> lsn result" where
  "verify_identity version payload expected =
     (let expected_length =
            (if version = LEGACY_WAL_FORMAT_VERSION then LEGACY_INIT_PAYLOAD_SIZE else INIT_PAYLOAD_SIZE)
      in
      if length payload \<noteq> expected_length then Inl Corruption
      else
        (let actual = \<lparr>wi_database_uuid = byte_slice 0 16 payload,
               wi_tenant_id = u64_from_le_bytes (byte_slice 16 24 payload),
               wi_shard_id = u64_from_le_bytes (byte_slice 24 32 payload),
               wi_shard_epoch = u64_from_le_bytes (byte_slice 32 40 payload)\<rparr>;
             page_size = u32_from_le_bytes (byte_slice 40 44 payload)
         in
         if unat page_size \<noteq> PAGE_SIZE then Inl UnsupportedFormat
         else if actual \<noteq> expected then Inl Corruption
         else if version = LEGACY_WAL_FORMAT_VERSION then Inr 0
         else Inr (u64_from_le_bytes (byte_slice 44 52 payload))))"

definition validate_page_image :: "(bytes \<Rightarrow> u32) \<Rightarrow> wal_page_image \<Rightarrow> unit result" where
  "validate_page_image crc page =
     (if wpi_page_id page = SUPERBLOCK_A_PAGE \<or> wpi_page_id page = SUPERBLOCK_B_PAGE
      then bindR (decode_superblock crc (wpi_image page)) (\<lambda>_. Inr ())
      else bindR (decode_page_at crc (wpi_image page) (Some (wpi_page_id page))) (\<lambda>_. Inr ()))"

definition validate_page_image_lsn :: "wal_page_image \<Rightarrow> lsn \<Rightarrow> unit result" where
  "validate_page_image_lsn page commit_lsn =
     (if wpi_page_id page = SUPERBLOCK_A_PAGE \<or> wpi_page_id page = SUPERBLOCK_B_PAGE then Inr ()
      else if u64_from_le_bytes (byte_slice 16 24 (wpi_image page)) \<noteq> commit_lsn then Inl Corruption
      else Inr ())"

definition encode_page_image :: "(bytes \<Rightarrow> u32) \<Rightarrow> wal_page_image \<Rightarrow> bytes result" where
  "encode_page_image crc page =
     bindR (validate_page_image crc page) (\<lambda>_.
       Inr (u64_to_le_bytes (wpi_page_id page) @ wpi_image page))"

definition decode_page_image :: "bytes \<Rightarrow> wal_page_image result" where
  "decode_page_image payload =
     (if length payload \<noteq> PAGE_IMAGE_PAYLOAD_SIZE then Inl Corruption
      else Inr \<lparr>wpi_page_id = u64_from_le_bytes (byte_slice 0 8 payload), wpi_image = drop 8 payload\<rparr>)"

definition commit_payload :: "lsn \<Rightarrow> u32 \<Rightarrow> u32 \<Rightarrow> bytes" where
  "commit_payload first_record_lsn page_count digest =
     (let payload = replicate COMMIT_PAYLOAD_SIZE 0;
          payload = write_slice 0 (u64_to_le_bytes first_record_lsn) payload;
          payload = write_slice 8 (u32_to_le_bytes page_count) payload
      in write_slice 12 (u32_to_le_bytes digest) payload)"

definition decode_commit_payload :: "bytes \<Rightarrow> (lsn \<times> usize \<times> u32) result" where
  "decode_commit_payload payload =
     (if length payload \<noteq> COMMIT_PAYLOAD_SIZE then Inl Corruption
      else Inr (u64_from_le_bytes (byte_slice 0 8 payload),
                unat (u32_from_le_bytes (byte_slice 8 12 payload)),
                u32_from_le_bytes (byte_slice 12 16 payload)))"

section \<open>Round trips\<close>

lemma length_WAL_MAGIC [simp]: "length WAL_MAGIC = 4"
  by (simp add: WAL_MAGIC_def)

lemma wal_record_type_decode_byte [simp]: "wal_record_type_decode (wal_record_type_byte t) = Inr t"
  by (cases t) (simp_all add: wal_record_type_decode_def)

lemma any_byte_nonzero_replicate [simp]: "\<not> any_byte_nonzero (replicate n 0)"
  by (induction n) (simp_all add: any_byte_nonzero_def)

lemma frame_header_fields_slices:
  fixes crc defines "h \<equiv> frame_header_fields crc"
  shows "length (h v t l b i p n) = 48"
    and "byte_slice 0 4 (h v t l b i p n) = WAL_MAGIC"
    and "byte_slice 4 6 (h v t l b i p n) = u16_to_le_bytes v"
    and "h v t l b i p n ! 6 = wal_record_type_byte t"
    and "h v t l b i p n ! 7 = 0"
    and "byte_slice 8 12 (h v t l b i p n) = u32_to_le_bytes (word_of_nat n)"
    and "byte_slice 12 16 (h v t l b i p n) = u32_to_le_bytes (word_of_nat (length p))"
    and "byte_slice 16 24 (h v t l b i p n) = u64_to_le_bytes l"
    and "byte_slice 24 32 (h v t l b i p n) = u64_to_le_bytes b"
    and "byte_slice 32 36 (h v t l b i p n) = u32_to_le_bytes i"
    and "byte_slice 36 40 (h v t l b i p n) = replicate 4 0"
    and "byte_slice 44 48 (h v t l b i p n) = u32_to_le_bytes (crc p)"
  unfolding h_def by (simp_all add: frame_header_fields_def Let_def codec_simps)

lemma header_checksum_write [simp]:
  "length c = 4 \<Longrightarrow> 44 \<le> length h \<Longrightarrow> header_checksum crc (write_slice 40 c h) = header_checksum crc h"
  by (simp add: header_checksum_def codec_simps)

definition frame_header :: "(bytes \<Rightarrow> u32) \<Rightarrow> frame \<Rightarrow> bytes" where
  "frame_header crc fr =
     (let h = frame_header_fields crc (fr_format_version fr) (fr_record_type fr) (fr_record_lsn fr)
                (fr_batch_id fr) (fr_record_index fr) (fr_payload fr) (52 + length (fr_payload fr))
      in write_slice 40 (u32_to_le_bytes (header_checksum crc h)) h)"

definition frame_bytes :: "(bytes \<Rightarrow> u32) \<Rightarrow> frame \<Rightarrow> bytes" where
  "frame_bytes crc fr =
     frame_header crc fr @ fr_payload fr @ u32_to_le_bytes (word_of_nat (52 + length (fr_payload fr)))"

definition frame_wf :: "frame \<Rightarrow> bool" where
  "frame_wf fr \<longleftrightarrow> length (fr_payload fr) \<le> WAL_MAX_PAYLOAD_SIZE \<and>
     (fr_format_version fr = WAL_FORMAT_VERSION \<or> fr_format_version fr = LEGACY_WAL_FORMAT_VERSION)"

lemma encode_frame_bytes:
  assumes "length payload \<le> WAL_MAX_PAYLOAD_SIZE"
  shows "encode_frame crc v t l b i payload =
    Inr (frame_bytes crc \<lparr>fr_format_version = v, fr_record_type = t, fr_record_lsn = l, fr_batch_id = b,
      fr_record_index = i, fr_payload = payload\<rparr>)"
  using assms
  by (simp add: encode_frame_def checked_add_usize_def frame_bytes_def frame_header_def Let_def)

lemma length_frame_header [simp]: "length (frame_header crc fr) = WAL_HEADER_SIZE"
  by (simp add: frame_header_def Let_def frame_header_fields_slices)

lemma length_frame_bytes: "length (frame_bytes crc fr) = 52 + length (fr_payload fr)"
  by (simp add: frame_bytes_def)

lemma unat_u32_of_nat: "n < 2 ^ 32 \<Longrightarrow> unat (word_of_nat n :: u32) = n"
  by (simp add: unat_of_nat)

lemma decode_frame_header:
  assumes "frame_wf fr"
  shows "decode_header crc (frame_header crc fr) =
    Inr (fr_format_version fr, fr_record_type fr, 52 + length (fr_payload fr), length (fr_payload fr),
      fr_record_lsn fr, fr_batch_id fr, fr_record_index fr)"
  using assms
  by (auto simp: decode_header_def frame_header_def Let_def frame_wf_def codec_simps
      frame_header_fields_slices unat_u32_of_nat simp del: of_nat_add)

lemma verify_frame_payload: "verify_payload_checksum crc (frame_header crc fr) (fr_payload fr) = Inr ()"
  by (simp add: verify_payload_checksum_def frame_header_def Let_def codec_simps frame_header_fields_slices)

lemma verify_identity_payload:
  assumes "length (wi_database_uuid identity) = 16"
  shows "verify_identity WAL_FORMAT_VERSION (identity_payload identity start) identity = Inr start"
  using assms by (simp add: verify_identity_def identity_payload_def Let_def codec_simps)

lemma length_identity_payload:
  "length (wi_database_uuid identity) = 16 \<Longrightarrow> length (identity_payload identity start) = INIT_PAYLOAD_SIZE"
  by (simp add: identity_payload_def Let_def)

lemma decode_commit_payload_encode:
  "decode_commit_payload (commit_payload l n d) = Inr (l, unat n, d)"
  by (simp add: decode_commit_payload_def commit_payload_def Let_def codec_simps)

lemma length_commit_payload [simp]: "length (commit_payload l n d) = COMMIT_PAYLOAD_SIZE"
  by (simp add: commit_payload_def Let_def)

lemma validate_page_image_length:
  "validate_page_image crc page = Inr x \<Longrightarrow> length (wpi_image page) = PAGE_SIZE"
  by (auto simp: validate_page_image_def decode_superblock_def decode_page_at_ok split: if_splits)

lemma decode_encode_page_image:
  assumes "encode_page_image crc page = Inr payload"
  shows "decode_page_image payload = Inr page" "length payload = PAGE_IMAGE_PAYLOAD_SIZE"
    "validate_page_image crc page = Inr ()"
  using assms validate_page_image_length [of crc page]
  by (cases page; auto simp: encode_page_image_def decode_page_image_def codec_simps)+

end
