(* ===== verification/Wal_Scan.thy ===== *)
theory Wal_Scan
  imports Wal_Frame
begin

text \<open>
  Reading a write-ahead log back, \<open>scan_wal\<close> of \<open>dodb-storage/src/wal.rs\<close>: the loop that reads
  complete frames until the end of the file or a torn tail, and the pass over the frames that
  groups page images into committed batches. The main result is that scanning a log whose last
  frame may be cut anywhere returns exactly its complete frames, and that of a log written batch
  by batch it returns exactly the batches whose commit record is complete.
\<close>

section \<open>The frame loop\<close>

text \<open>The loop state is the previous LSN, the frames read so far and the current offset.\<close>

function scan_frames ::
  "(bytes \<Rightarrow> u32) \<Rightarrow> 'f durable_file_ops \<Rightarrow> u64 \<Rightarrow> u64 \<Rightarrow> u64 option \<Rightarrow> frame list
     \<Rightarrow> ('f, error, u64 option \<times> frame list \<times> u64) stateful"
where
  "scan_frames crc ops len offset previous_lsn frames f =
     (if offset < len then
        (let remaining = len - offset in
         if remaining < 48 then (Inr (previous_lsn, frames, offset), f)
         else
           (case wal_read_exact_at ops offset WAL_HEADER_SIZE f of
              (Inl e, f1) \<Rightarrow> (Inl e, f1)
            | (Inr header_bytes, f1) \<Rightarrow>
           (case decode_header crc header_bytes of
              Inl e \<Rightarrow> (Inl e, f1)
            | Inr (format_version, record_type, frame_length, payload_length, record_lsn, batch_id,
                   record_index) \<Rightarrow>
              if frames \<noteq> [] \<and> fr_format_version (hd frames) \<noteq> format_version then (Inl Corruption, f1)
              else if frame_length < WAL_MIN_FRAME_SIZE
                   \<or> frame_length \<noteq> WAL_HEADER_SIZE + payload_length + WAL_TRAILER_SIZE
                   \<or> payload_length > WAL_MAX_PAYLOAD_SIZE
              then (Inl Corruption, f1)
              else if remaining < word_of_nat frame_length then (Inr (previous_lsn, frames, offset), f1)
              else
                (case ok_or (checked_add_u64 offset 48) Corruption of
                   Inl e \<Rightarrow> (Inl e, f1)
                 | Inr payload_offset \<Rightarrow>
                (case wal_read_exact_at ops payload_offset payload_length f1 of
                   (Inl e, f2) \<Rightarrow> (Inl e, f2)
                 | (Inr payload, f2) \<Rightarrow>
                (case ok_or (checked_add_u64 offset (word_of_nat (WAL_HEADER_SIZE + payload_length)))
                         Corruption of
                   Inl e \<Rightarrow> (Inl e, f2)
                 | Inr trailer_offset \<Rightarrow>
                (case wal_read_exact_at ops trailer_offset WAL_TRAILER_SIZE f2 of
                   (Inl e, f3) \<Rightarrow> (Inl e, f3)
                 | (Inr trailer, f3) \<Rightarrow>
                     if u32_from_le_bytes trailer \<noteq> word_of_nat frame_length then (Inl Corruption, f3)
                     else if (case previous_lsn of None \<Rightarrow> False | Some previous \<Rightarrow> record_lsn \<le> previous)
                     then (Inl Corruption, f3)
                     else
                       (case verify_payload_checksum crc header_bytes payload of
                          Inl e \<Rightarrow> (Inl e, f3)
                        | Inr _ \<Rightarrow>
                            scan_frames crc ops len (offset + word_of_nat frame_length) (Some record_lsn)
                              (frames @ [\<lparr>fr_format_version = format_version, fr_record_type = record_type,
                                 fr_record_lsn = record_lsn, fr_batch_id = batch_id,
                                 fr_record_index = record_index, fr_payload = payload\<rparr>]) f3))))))))
      else (Inr (previous_lsn, frames, offset), f))"
  by pat_completeness auto

lemma scan_frames_progress:
  fixes len offset :: u64
  assumes "offset < len" "\<not> len - offset < word_of_nat n" "52 \<le> n" "n \<le> 67108916"
  shows "unat (offset + word_of_nat n) = unat offset + n" "unat offset + n \<le> unat len"
proof -
  have "unat (word_of_nat n :: u64) = n" using assms(4) by (simp add: unat_of_nat)
  moreover have "unat (len - offset) = unat len - unat offset"
    using assms(1) by (simp add: unat_sub word_le_less_eq)
  ultimately show le: "unat offset + n \<le> unat len"
    using assms by (simp add: word_less_nat_alt not_less)
  then have "unat offset + n < 2 ^ 64"
    using unat_u64_less [of len] by (simp del: unat_u64_less)
  then show "unat (offset + word_of_nat n) = unat offset + n"
    using \<open>unat (word_of_nat n :: u64) = n\<close> by (simp add: unat_word_ariths)
qed

lemma scan_frames_decreases:
  fixes len offset :: u64
  assumes "offset < len" "\<not> len - offset < word_of_nat n" "52 \<le> n" "n \<le> 67108916"
  shows "unat len - unat (offset + word_of_nat n) < unat len - unat offset"
  using scan_frames_progress [OF assms] assms(1,3) by (simp add: word_less_nat_alt)

termination scan_frames
proof (relation "measure (\<lambda>(crc, ops, len, offset, prev, frames, f). unat len - unat offset)", simp, goal_cases)
  case (1 crc ops len offset prev frames f)
  then show ?case
    by (auto simp del: of_nat_add intro!: scan_frames_decreases)
qed

declare scan_frames.simps [simp del]

section \<open>Grouping frames into batches\<close>

record pending_batch =
  pb_batch_id :: u64
  pb_first_record_lsn :: lsn
  pb_pages :: "wal_page_image list"
  pb_digest_input :: bytes

record scan_state =
  sc_committed :: "committed_wal_batch list"
  sc_pending :: "pending_batch option"
  sc_highest_batch_id_seen :: u64
  sc_max_batch_id :: u64

definition scan_page_image :: "(bytes \<Rightarrow> u32) \<Rightarrow> frame \<Rightarrow> scan_state \<Rightarrow> scan_state result" where
  "scan_page_image crc frame s =
     bindR (decode_page_image (fr_payload frame)) (\<lambda>page.
     bindR (validate_page_image crc page) (\<lambda>_.
     bindR
       (if (case sc_pending s of None \<Rightarrow> True | Some p \<Rightarrow> pb_batch_id p \<noteq> fr_batch_id frame) then
          (if fr_batch_id frame \<le> sc_highest_batch_id_seen s then Inl Corruption
           else Inr (\<lparr>pb_batch_id = fr_batch_id frame, pb_first_record_lsn = fr_record_lsn frame,
                      pb_pages = [], pb_digest_input = []\<rparr>, fr_batch_id frame))
        else Inr (the (sc_pending s), sc_highest_batch_id_seen s))
       (\<lambda>(current, highest).
          if fr_record_index frame \<noteq> word_of_nat (length (pb_pages current)) then Inl Corruption
          else Inr (s\<lparr>sc_pending := Some (current\<lparr>pb_digest_input := pb_digest_input current @ fr_payload frame,
                                             pb_pages := pb_pages current @ [page]\<rparr>),
                      sc_highest_batch_id_seen := highest\<rparr>))))"

fun validate_all_lsn :: "wal_page_image list \<Rightarrow> lsn \<Rightarrow> unit result" where
  "validate_all_lsn [] commit_lsn = Inr ()"
| "validate_all_lsn (page # pages) commit_lsn =
     bindR (validate_page_image_lsn page commit_lsn) (\<lambda>_. validate_all_lsn pages commit_lsn)"

definition scan_commit :: "(bytes \<Rightarrow> u32) \<Rightarrow> frame \<Rightarrow> scan_state \<Rightarrow> scan_state result" where
  "scan_commit crc frame s =
     bindR (ok_or (sc_pending s) Corruption) (\<lambda>current.
     if pb_batch_id current \<noteq> fr_batch_id frame \<or> fr_record_index frame \<noteq> word_of_nat (length (pb_pages current))
     then Inl Corruption
     else
       bindR (decode_commit_payload (fr_payload frame)) (\<lambda>(first_lsn, page_count, digest).
       if first_lsn \<noteq> pb_first_record_lsn current \<or> page_count \<noteq> length (pb_pages current)
          \<or> crc (pb_digest_input current) \<noteq> digest
       then Inl Corruption
       else
         bindR (validate_all_lsn (pb_pages current) (fr_record_lsn frame)) (\<lambda>_.
           Inr (s\<lparr>sc_pending := None,
                  sc_committed := sc_committed s @ [\<lparr>cb_batch_id = fr_batch_id frame,
                    cb_commit_lsn = fr_record_lsn frame, cb_pages = pb_pages current\<rparr>]\<rparr>))))"

definition scan_frame :: "(bytes \<Rightarrow> u32) \<Rightarrow> lsn \<Rightarrow> frame \<Rightarrow> scan_state \<Rightarrow> scan_state result" where
  "scan_frame crc history_start_lsn frame s =
     (if fr_record_lsn frame \<le> history_start_lsn then Inl Corruption
      else
        (let s = s\<lparr>sc_max_batch_id := max (sc_max_batch_id s) (fr_batch_id frame)\<rparr> in
         case fr_record_type frame of
           WalInit \<Rightarrow> Inl Corruption
         | WalPageImage \<Rightarrow> scan_page_image crc frame s
         | WalCommitRecord \<Rightarrow> scan_commit crc frame s))"

fun group_frames :: "(bytes \<Rightarrow> u32) \<Rightarrow> lsn \<Rightarrow> frame list \<Rightarrow> scan_state \<Rightarrow> scan_state result" where
  "group_frames crc history_start_lsn [] s = Inr s"
| "group_frames crc history_start_lsn (frame # frames) s =
     bindR (scan_frame crc history_start_lsn frame s) (group_frames crc history_start_lsn frames)"

definition scan_state_init :: scan_state where
  "scan_state_init =
     \<lparr>sc_committed = [], sc_pending = None, sc_highest_batch_id_seen = 0, sc_max_batch_id = 0\<rparr>"

section \<open>The scan\<close>

record wal_scan_report =
  records_scanned :: usize
  committed_batches :: usize
  replayable_pages :: usize
  torn_tail_bytes :: usize

record wal_scan =
  scan_next_lsn :: lsn
  scan_next_batch_id :: u64
  scan_format_version :: u16
  scan_history_start_lsn :: lsn
  scan_committed :: "committed_wal_batch list"
  scan_report :: wal_scan_report
  scan_valid_length :: u64

text \<open>Everything after the frame loop.\<close>

definition scan_finish ::
  "(bytes \<Rightarrow> u32) \<Rightarrow> wal_identity \<Rightarrow> u64 option \<Rightarrow> frame list \<Rightarrow> u64 \<Rightarrow> wal_scan result"
where
  "scan_finish crc identity previous_lsn frames valid_length =
     (case frames of
        [] \<Rightarrow> Inl Corruption
      | first # rest \<Rightarrow>
          if fr_record_type first \<noteq> WalInit \<or> fr_record_lsn first \<noteq> 0 \<or> fr_batch_id first \<noteq> 0
             \<or> fr_record_index first \<noteq> 0
          then Inl Corruption
          else
            bindR (verify_identity (fr_format_version first) (fr_payload first) identity)
              (\<lambda>history_start_lsn.
            bindR (group_frames crc history_start_lsn rest scan_state_init) (\<lambda>s.
            bindR (ok_or (checked_add_u64 (case previous_lsn of None \<Rightarrow> 0 | Some l \<Rightarrow> l) 1)
                     InternalInvariantViolation) (\<lambda>next_lsn.
            bindR (ok_or (checked_add_u64 (sc_max_batch_id s) 1) InternalInvariantViolation)
              (\<lambda>next_batch_id.
              Inr \<lparr>scan_next_lsn = next_lsn, scan_next_batch_id = max next_batch_id 1,
                   scan_format_version = fr_format_version first,
                   scan_history_start_lsn = history_start_lsn, scan_committed = sc_committed s,
                   scan_report = \<lparr>records_scanned = length frames,
                     committed_batches = length (sc_committed s),
                     replayable_pages = sum_list (map (length \<circ> cb_pages) (sc_committed s)),
                     torn_tail_bytes = 0\<rparr>,
                   scan_valid_length = valid_length\<rparr>)))))"

definition scan_wal ::
  "(bytes \<Rightarrow> u32) \<Rightarrow> 'f durable_file_ops \<Rightarrow> wal_identity \<Rightarrow> ('f, error, wal_scan) stateful"
where
  "scan_wal crc ops identity f =
     (case df_len ops f of
        Inl e \<Rightarrow> (Inl e, f)
      | Inr len \<Rightarrow>
          (case scan_frames crc ops len 0 None [] f of
             (Inl e, f') \<Rightarrow> (Inl e, f')
           | (Inr (previous_lsn, frames, offset), f') \<Rightarrow>
               (scan_finish crc identity previous_lsn frames offset, f')))"

section \<open>Scanning complete frames and torn tails\<close>

lemma byte_slice_prefix:
  "length pre = a \<Longrightarrow> length x = n \<Longrightarrow> byte_slice a (a + n) (pre @ x @ rest) = x"
  by (simp add: byte_slice_def)

lemma frame_slices:
  assumes "v = pre @ frame_bytes crc fr @ rest" "a = length pre" "n = length (fr_payload fr)"
  shows "byte_slice a (a + 48) v = frame_header crc fr"
    and "byte_slice (a + 48) (a + 48 + n) v = fr_payload fr"
    and "byte_slice (a + 48 + n) (a + 48 + n + 4) v = u32_to_le_bytes (word_of_nat (52 + n))"
proof -
  show "byte_slice a (a + 48) v = frame_header crc fr"
    using assms by (simp add: frame_bytes_def byte_slice_prefix)
  have "v = (pre @ frame_header crc fr) @ fr_payload fr @ u32_to_le_bytes (word_of_nat (52 + n)) @ rest"
    using assms by (simp add: frame_bytes_def)
  then show "byte_slice (a + 48) (a + 48 + n) v = fr_payload fr"
    using assms(2,3) byte_slice_prefix [of "pre @ frame_header crc fr" "a + 48" "fr_payload fr" n] by simp
  have "v = (pre @ frame_header crc fr @ fr_payload fr) @ u32_to_le_bytes (word_of_nat (52 + n)) @ rest"
    using assms by (simp add: frame_bytes_def)
  then show "byte_slice (a + 48 + n) (a + 48 + n + 4) v = u32_to_le_bytes (word_of_nat (52 + n))"
    using assms(2,3) byte_slice_prefix [of "pre @ frame_header crc fr @ fr_payload fr" "a + 48 + n"
        "u32_to_le_bytes (word_of_nat (52 + n))" 4 rest] by simp
qed

lemma word_of_nat_diff_u64:
  assumes "a \<le> b" "b < 2 ^ 64"
  shows "unat (word_of_nat b - word_of_nat a :: u64) = b - a"
    "(word_of_nat a :: u64) < word_of_nat b \<longleftrightarrow> a < b"
proof -
  have u: "unat (word_of_nat a :: u64) = a" "unat (word_of_nat b :: u64) = b"
    using assms by (simp_all add: unat_of_nat)
  then show "unat (word_of_nat b - word_of_nat a :: u64) = b - a"
    using assms(1) by (simp add: unat_sub word_le_nat_alt)
  show "(word_of_nat a :: u64) < word_of_nat b \<longleftrightarrow> a < b"
    using u by (simp add: word_less_nat_alt)
qed

lemma unat_u64_of_nat: "n < 2 ^ 64 \<Longrightarrow> unat (word_of_nat n :: u64) = n"
  by (simp add: unat_of_nat)

lemma checked_add_of_nat:
  "a + b < 2 ^ 64 \<Longrightarrow> checked_add_u64 (word_of_nat a) (word_of_nat b) = Some (word_of_nat (a + b))"
  by (simp add: checked_add_u64_def unat_u64_of_nat)

text \<open>Which frame may follow the frames read so far.\<close>

definition frame_follows :: "u64 option \<Rightarrow> frame list \<Rightarrow> frame \<Rightarrow> bool" where
  "frame_follows previous frames fr \<longleftrightarrow> frame_wf fr \<and>
     (frames = [] \<or> fr_format_version (hd frames) = fr_format_version fr) \<and>
     (case previous of None \<Rightarrow> True | Some l \<Rightarrow> l < fr_record_lsn fr)"

lemma frame_eta:
  "\<lparr>fr_format_version = fr_format_version fr, fr_record_type = fr_record_type fr,
    fr_record_lsn = fr_record_lsn fr, fr_batch_id = fr_batch_id fr,
    fr_record_index = fr_record_index fr, fr_payload = fr_payload fr\<rparr> = (fr :: frame)"
  by simp

definition frames_bytes :: "(bytes \<Rightarrow> u32) \<Rightarrow> frame list \<Rightarrow> bytes" where
  "frames_bytes crc fs = concat (map (frame_bytes crc) fs)"

fun frames_chain :: "u64 option \<Rightarrow> frame list \<Rightarrow> frame list \<Rightarrow> bool" where
  "frames_chain previous acc [] = True"
| "frames_chain previous acc (fr # fs) =
     (frame_follows previous acc fr \<and> frames_chain (Some (fr_record_lsn fr)) (acc @ [fr]) fs)"

definition last_lsn :: "u64 option \<Rightarrow> frame list \<Rightarrow> u64 option" where
  "last_lsn previous fs = (if fs = [] then previous else Some (fr_record_lsn (last fs)))"

text \<open>A tail that a cut inside the next frame leaves behind.\<close>

definition torn_tail :: "(bytes \<Rightarrow> u32) \<Rightarrow> u64 option \<Rightarrow> frame list \<Rightarrow> bytes \<Rightarrow> bool" where
  "torn_tail crc previous acc torn \<longleftrightarrow> torn = [] \<or>
     (\<exists>fr k. torn = take k (frame_bytes crc fr) \<and> k < length (frame_bytes crc fr) \<and> frame_follows previous acc fr)"

lemma frames_bytes_simps [simp]:
  "frames_bytes crc [] = []" "frames_bytes crc (fr # fs) = frame_bytes crc fr @ frames_bytes crc fs"
  "frames_bytes crc (fs @ gs) = frames_bytes crc fs @ frames_bytes crc gs"
  by (simp_all add: frames_bytes_def)

lemma frames_chain_append:
  "frames_chain p acc (fs @ gs) \<longleftrightarrow> frames_chain p acc fs \<and> frames_chain (last_lsn p fs) (acc @ fs) gs"
  by (induction fs arbitrary: p acc) (auto simp: last_lsn_def)

text \<open>A cut of a byte log is a cut of its frames with a torn tail.\<close>

lemma take_frames_bytes:
  assumes "frames_chain p acc fs"
  shows "\<exists>m\<le>length fs. \<exists>torn. take k (frames_bytes crc fs) = frames_bytes crc (take m fs) @ torn \<and>
    torn_tail crc (last_lsn p (take m fs)) (acc @ take m fs) torn \<and>
    (length (frames_bytes crc fs) \<le> k \<longrightarrow> m = length fs) \<and>
    (\<forall>m'\<le>length fs. length (frames_bytes crc (take m' fs)) \<le> k \<longrightarrow> m' \<le> m)"
  using assms
proof (induction fs arbitrary: p acc k)
  case Nil
  show ?case by (simp add: torn_tail_def)
next
  case (Cons fr fs)
  show ?case
  proof (cases "k < length (frame_bytes crc fr)")
    case True
    have "m' = 0" if "m' \<le> length (fr # fs)" "length (frames_bytes crc (take m' (fr # fs))) \<le> k" for m'
      using that True by (cases m') auto
    then show ?thesis
      using True Cons.prems
      by (intro exI [of _ 0]) (auto simp: torn_tail_def last_lsn_def)
  next
    case False
    then obtain m torn where m: "m \<le> length fs"
      "take (k - length (frame_bytes crc fr)) (frames_bytes crc fs) = frames_bytes crc (take m fs) @ torn"
      "torn_tail crc (last_lsn (Some (fr_record_lsn fr)) (take m fs)) (acc @ [fr] @ take m fs) torn"
      "length (frames_bytes crc fs) \<le> k - length (frame_bytes crc fr) \<longrightarrow> m = length fs"
      "\<forall>m'\<le>length fs. length (frames_bytes crc (take m' fs)) \<le> k - length (frame_bytes crc fr) \<longrightarrow> m' \<le> m"
      using Cons.IH [of "Some (fr_record_lsn fr)" "acc @ [fr]" "k - length (frame_bytes crc fr)"] Cons.prems by auto
    have "last_lsn p (take (Suc m) (fr # fs)) = last_lsn (Some (fr_record_lsn fr)) (take m fs)"
      by (simp add: last_lsn_def)
    moreover have "m' \<le> Suc m" if "m' \<le> length (fr # fs)" "length (frames_bytes crc (take m' (fr # fs))) \<le> k" for m'
      using that m(5) by (cases m') auto
    ultimately show ?thesis
      using m False by (intro exI [of _ "Suc m"]) auto
  qed
qed

context reliable_file
begin

lemma scan_frames_step:
  assumes "healthy f" "view f = pre @ frame_bytes crc fr @ rest" "length (view f) < 2 ^ 64"
    and "frame_follows previous frames fr"
  shows "\<exists>f'. scan_frames crc ops (word_of_nat (length (view f))) (word_of_nat (length pre)) previous frames f =
      scan_frames crc ops (word_of_nat (length (view f))) (word_of_nat (length (pre @ frame_bytes crc fr)))
        (Some (fr_record_lsn fr)) (frames @ [fr]) f' \<and> healthy f' \<and> view f' = view f"
proof -
  let ?a = "length pre" and ?n = "length (fr_payload fr)" and ?L = "length (view f)"
  have len: "?a + 52 + ?n \<le> ?L" using assms(2) by (simp add: length_frame_bytes)
  have n: "?n \<le> WAL_MAX_PAYLOAD_SIZE" using assms(4) by (simp add: frame_follows_def frame_wf_def)
  note slices = frame_slices [OF assms(2) refl refl]
  have ua: "unat (word_of_nat ?a :: u64) = ?a" using len assms(3) by (simp add: unat_u64_of_nat)
  obtain f1 where f1: "wal_read_exact_at ops (word_of_nat ?a) WAL_HEADER_SIZE f = (Inr (frame_header crc fr), f1)"
    "healthy f1" "view f1 = view f"
    using wal_read_exact_at_returns [OF assms(1), of "word_of_nat ?a" WAL_HEADER_SIZE] len assms(3) slices(1) ua
    by auto
  have ub: "unat (word_of_nat (?a + 48) :: u64) = ?a + 48"
    using len assms(3) by (simp add: unat_u64_of_nat del: of_nat_add)
  obtain f2 where f2: "wal_read_exact_at ops (word_of_nat (?a + 48)) ?n f1 = (Inr (fr_payload fr), f2)"
    "healthy f2" "view f2 = view f"
    using wal_read_exact_at_returns [OF f1(2), of "word_of_nat (?a + 48)" ?n] len assms(3) slices(2) ub f1(3)
    by (auto simp del: of_nat_add)
  have uc: "unat (word_of_nat (?a + (48 + ?n)) :: u64) = ?a + 48 + ?n"
    using len assms(3) by (simp add: unat_u64_of_nat del: of_nat_add)
  obtain f3 where f3: "wal_read_exact_at ops (word_of_nat (?a + (48 + ?n))) WAL_TRAILER_SIZE f2 =
      (Inr (u32_to_le_bytes (word_of_nat (52 + ?n))), f3)" "healthy f3" "view f3 = view f"
    using wal_read_exact_at_returns [OF f2(2), of "word_of_nat (?a + (48 + ?n))" WAL_TRAILER_SIZE]
      len assms(3) slices(3) uc f2(3)
    by (auto simp del: of_nat_add)
  have rem: "unat (word_of_nat ?L - word_of_nat ?a :: u64) = ?L - ?a" "(word_of_nat ?a :: u64) < word_of_nat ?L"
    using word_of_nat_diff_u64 [of ?a ?L] len assms(3) by auto
  have "\<not> (word_of_nat ?L - word_of_nat ?a :: u64) < 48"
    using rem(1) len by (simp add: word_less_nat_alt)
  moreover have "\<not> (word_of_nat ?L - word_of_nat ?a :: u64) < word_of_nat (52 + ?n)"
    using rem(1) len n by (simp add: word_less_nat_alt unat_u64_of_nat del: of_nat_add)
  moreover have "checked_add_u64 (word_of_nat ?a) 48 = Some (word_of_nat (?a + 48))"
    "checked_add_u64 (word_of_nat ?a) (word_of_nat (48 + ?n)) = Some (word_of_nat (?a + (48 + ?n)))"
    using checked_add_of_nat [of ?a 48] checked_add_of_nat [of ?a "48 + ?n"] len assms(3)
    by (simp_all del: of_nat_add)
  moreover have "word_of_nat ?a + word_of_nat (52 + ?n) = (word_of_nat (length (pre @ frame_bytes crc fr)) :: u64)"
    by (simp add: length_frame_bytes)
  moreover have "frame_wf fr" "frames = [] \<or> fr_format_version (hd frames) = fr_format_version fr"
    "\<not> (case previous of None \<Rightarrow> False | Some l \<Rightarrow> fr_record_lsn fr \<le> l)"
    using assms(4) by (auto simp: frame_follows_def split: option.splits)
  ultimately have "scan_frames crc ops (word_of_nat ?L) (word_of_nat ?a) previous frames f =
      scan_frames crc ops (word_of_nat ?L) (word_of_nat (length (pre @ frame_bytes crc fr)))
        (Some (fr_record_lsn fr)) (frames @ [fr]) f3"
    using rem(2) f1(1) f2(1) f3(1) n decode_frame_header [of fr crc] verify_frame_payload [of crc fr]
    by (subst scan_frames.simps) (auto simp: Let_def frame_eta simp del: of_nat_add)
  then show ?thesis using f3(2,3) by blast
qed

lemma scan_frames_torn:
  assumes "healthy f" "view f = pre @ take k (frame_bytes crc fr)" "length (view f) < 2 ^ 64"
    and "k < length (frame_bytes crc fr)" "frame_follows previous frames fr"
  shows "\<exists>f'. scan_frames crc ops (word_of_nat (length (view f))) (word_of_nat (length pre)) previous frames f =
      (Inr (previous, frames, word_of_nat (length pre)), f') \<and> healthy f' \<and> view f' = view f"
proof -
  let ?a = "length pre" and ?n = "length (fr_payload fr)" and ?L = "length (view f)"
  have L: "?L = ?a + k" using assms(2,4) by simp
  have rem: "unat (word_of_nat ?L - word_of_nat ?a :: u64) = k" "(word_of_nat ?a :: u64) < word_of_nat ?L \<longleftrightarrow> 0 < k"
    using word_of_nat_diff_u64 [of ?a ?L] L assms(3) by auto
  show ?thesis
  proof (cases "k < 48")
    case True
    then have "(word_of_nat ?L - word_of_nat ?a :: u64) < 48"
      using rem(1) by (simp add: word_less_nat_alt)
    then show ?thesis
      using assms(1) by (subst scan_frames.simps) auto
  next
    case False
    have n: "?n \<le> WAL_MAX_PAYLOAD_SIZE" "frame_wf fr"
      using assms(5) by (simp_all add: frame_follows_def frame_wf_def)
    have ua: "unat (word_of_nat ?a :: u64) = ?a" using L assms(3) by (simp add: unat_u64_of_nat)
    have "take k (frame_bytes crc fr) = frame_header crc fr @ drop 48 (take k (frame_bytes crc fr))"
      using False by (subst append_take_drop_id [symmetric, of _ 48]) (simp add: frame_bytes_def min_def)
    then have "byte_slice ?a (?a + 48) (view f) = frame_header crc fr"
      using assms(2) byte_slice_prefix [OF refl length_frame_header, of pre crc fr] by metis
    then obtain f1 where f1: "wal_read_exact_at ops (word_of_nat ?a) WAL_HEADER_SIZE f = (Inr (frame_header crc fr), f1)"
      "healthy f1" "view f1 = view f"
      using wal_read_exact_at_returns [OF assms(1), of "word_of_nat ?a" WAL_HEADER_SIZE] L False assms(3) ua
      by auto
    have "\<not> (word_of_nat ?L - word_of_nat ?a :: u64) < 48"
      using rem(1) False by (simp add: word_less_nat_alt)
    moreover have "(word_of_nat ?L - word_of_nat ?a :: u64) < word_of_nat (52 + ?n)"
      using rem(1) assms(4) n by (simp add: word_less_nat_alt unat_u64_of_nat length_frame_bytes del: of_nat_add)
    moreover have "frames = [] \<or> fr_format_version (hd frames) = fr_format_version fr"
      using assms(5) by (simp add: frame_follows_def)
    ultimately have "scan_frames crc ops (word_of_nat ?L) (word_of_nat ?a) previous frames f =
        (Inr (previous, frames, word_of_nat ?a), f1)"
      using rem(2) False f1(1) n decode_frame_header [of fr crc]
      by (subst scan_frames.simps) (auto simp: Let_def simp del: of_nat_add)
    then show ?thesis using f1(2,3) by blast
  qed
qed

lemma scan_frames_log:
  assumes "healthy f" "view f = pre @ frames_bytes crc fs @ torn" "length (view f) < 2 ^ 64"
    and "frames_chain previous acc fs" "torn_tail crc (last_lsn previous fs) (acc @ fs) torn"
  shows "\<exists>f'. scan_frames crc ops (word_of_nat (length (view f))) (word_of_nat (length pre)) previous acc f =
      (Inr (last_lsn previous fs, acc @ fs, word_of_nat (length (pre @ frames_bytes crc fs))), f') \<and>
      healthy f' \<and> view f' = view f"
  using assms
proof (induction fs arbitrary: f pre previous acc)
  case Nil
  show ?case
  proof (cases "torn = []")
    case True
    then show ?thesis
      using Nil.prems(1,2) by (subst scan_frames.simps) (auto simp: last_lsn_def frames_bytes_def)
  next
    case False
    then obtain fr k where "torn = take k (frame_bytes crc fr)" "k < length (frame_bytes crc fr)"
      "frame_follows previous acc fr"
      using Nil.prems(5) by (auto simp: torn_tail_def last_lsn_def)
    then show ?thesis
      using scan_frames_torn [OF Nil.prems(1) _ Nil.prems(3)] Nil.prems(2)
      by (auto simp: last_lsn_def frames_bytes_def)
  qed
next
  case (Cons fr fs)
  have view: "view f = pre @ frame_bytes crc fr @ (frames_bytes crc fs @ torn)"
    using Cons.prems(2) by (simp add: frames_bytes_def)
  obtain f1 where step: "scan_frames crc ops (word_of_nat (length (view f))) (word_of_nat (length pre)) previous acc f =
      scan_frames crc ops (word_of_nat (length (view f))) (word_of_nat (length (pre @ frame_bytes crc fr)))
        (Some (fr_record_lsn fr)) (acc @ [fr]) f1" "healthy f1" "view f1 = view f"
    using scan_frames_step [OF Cons.prems(1) view Cons.prems(3)] Cons.prems(4) by auto
  have last: "last_lsn previous (fr # fs) = last_lsn (Some (fr_record_lsn fr)) fs"
    by (simp add: last_lsn_def)
  show ?case
    using Cons.IH [of f1 "pre @ frame_bytes crc fr" "Some (fr_record_lsn fr)" "acc @ [fr]"] step view Cons.prems(3-5)
    unfolding last by (auto simp: frames_bytes_def)
qed

end

end
