(* ===== verification/Wal_History.thy ===== *)
theory Wal_History
  imports Wal_Scan "HOL-Library.Sublist"
begin

text \<open>
  What the bytes of a log mean: a log is an initialization frame followed by the frames of its
  entries, each a complete batch (page images and a commit record) or the page images of a batch
  that was abandoned before its commit record. The scan of such a log, cut anywhere behind its
  initialization frame, returns exactly the complete batches that lie before the cut.
\<close>

section \<open>Entries\<close>

definition page_payload :: "wal_page_image \<Rightarrow> bytes" where
  "page_payload page = u64_to_le_bytes (wpi_page_id page) @ wpi_image page"

definition first_lsn :: "wal_commit \<Rightarrow> lsn" where
  "first_lsn c = wc_commit_lsn c - word_of_nat (length (wc_pages c))"

definition page_frame :: "wal_commit \<Rightarrow> nat \<Rightarrow> frame" where
  "page_frame c i =
     \<lparr>fr_format_version = WAL_FORMAT_VERSION, fr_record_type = WalPageImage,
      fr_record_lsn = first_lsn c + word_of_nat i, fr_batch_id = wc_batch_id c,
      fr_record_index = word_of_nat i, fr_payload = page_payload (wc_pages c ! i)\<rparr>"

definition commit_frame :: "(bytes \<Rightarrow> u32) \<Rightarrow> wal_commit \<Rightarrow> frame" where
  "commit_frame crc c =
     \<lparr>fr_format_version = WAL_FORMAT_VERSION, fr_record_type = WalCommitRecord,
      fr_record_lsn = wc_commit_lsn c, fr_batch_id = wc_batch_id c,
      fr_record_index = word_of_nat (length (wc_pages c)),
      fr_payload = commit_payload (first_lsn c) (word_of_nat (length (wc_pages c)))
        (crc (concat (map page_payload (wc_pages c))))\<rparr>"

definition init_frame :: "wal_identity \<Rightarrow> lsn \<Rightarrow> frame" where
  "init_frame identity start_after_lsn =
     \<lparr>fr_format_version = WAL_FORMAT_VERSION, fr_record_type = WalInit, fr_record_lsn = 0,
      fr_batch_id = 0, fr_record_index = 0, fr_payload = identity_payload identity start_after_lsn\<rparr>"

datatype log_entry = Complete (entry_commit: wal_commit) | Partial (entry_commit: wal_commit) nat

fun entry_frames :: "(bytes \<Rightarrow> u32) \<Rightarrow> log_entry \<Rightarrow> frame list" where
  "entry_frames crc (Complete c) = map (page_frame c) [0..<length (wc_pages c)] @ [commit_frame crc c]"
| "entry_frames crc (Partial c m) = map (page_frame c) [0..<m]"

definition entries_frames :: "(bytes \<Rightarrow> u32) \<Rightarrow> log_entry list \<Rightarrow> frame list" where
  "entries_frames crc es = concat (map (entry_frames crc) es)"

definition log_frames :: "(bytes \<Rightarrow> u32) \<Rightarrow> wal_identity \<Rightarrow> lsn \<Rightarrow> log_entry list \<Rightarrow> frame list" where
  "log_frames crc identity start es = init_frame identity start # entries_frames crc es"

definition log_bytes :: "(bytes \<Rightarrow> u32) \<Rightarrow> wal_identity \<Rightarrow> lsn \<Rightarrow> log_entry list \<Rightarrow> bytes" where
  "log_bytes crc identity start es = frames_bytes crc (log_frames crc identity start es)"

fun commits_of :: "log_entry list \<Rightarrow> wal_commit list" where
  "commits_of [] = []"
| "commits_of (Complete c # es) = c # commits_of es"
| "commits_of (Partial c m # es) = commits_of es"

definition committed_of :: "wal_commit \<Rightarrow> committed_wal_batch" where
  "committed_of c =
     \<lparr>cb_batch_id = wc_batch_id c, cb_commit_lsn = wc_commit_lsn c, cb_pages = wc_pages c\<rparr>"

text \<open>The commits a log accepts, and LSNs and batch ids that grow along its entries.\<close>

definition commit_wf :: "(bytes \<Rightarrow> u32) \<Rightarrow> wal_commit \<Rightarrow> bool" where
  "commit_wf crc c \<longleftrightarrow> wc_pages c \<noteq> [] \<and> length (wc_pages c) < 2 ^ 32 \<and>
     length (wc_pages c) < unat (wc_commit_lsn c) \<and> unat (wc_commit_lsn c) < 2 ^ 64 - 1 \<and>
     unat (wc_batch_id c) < 2 ^ 64 - 1 \<and>
     (\<forall>p\<in>set (wc_pages c). validate_page_image crc p = Inr () \<and>
        validate_page_image_lsn p (wc_commit_lsn c) = Inr ())"

fun entries_ok :: "(bytes \<Rightarrow> u32) \<Rightarrow> nat \<Rightarrow> nat \<Rightarrow> log_entry list \<Rightarrow> bool" where
  "entries_ok crc lsn batch [] = True"
| "entries_ok crc lsn batch (Complete c # es) =
     (commit_wf crc c \<and> lsn < unat (first_lsn c) \<and> batch < unat (wc_batch_id c) \<and>
      entries_ok crc (unat (wc_commit_lsn c)) (unat (wc_batch_id c)) es)"
| "entries_ok crc lsn batch (Partial c m # es) =
     (commit_wf crc c \<and> 0 < m \<and> m \<le> length (wc_pages c) \<and> lsn < unat (first_lsn c) \<and>
      batch < unat (wc_batch_id c) \<and>
      entries_ok crc (unat (first_lsn c) + m - 1) (unat (wc_batch_id c)) es)"

fun history_end :: "nat \<times> nat \<Rightarrow> log_entry list \<Rightarrow> nat \<times> nat" where
  "history_end lb [] = lb"
| "history_end lb (Complete c # es) = history_end (unat (wc_commit_lsn c), unat (wc_batch_id c)) es"
| "history_end lb (Partial c m # es) = history_end (unat (first_lsn c) + m - 1, unat (wc_batch_id c)) es"

section \<open>Cuts\<close>

fun cut_entries :: "(bytes \<Rightarrow> u32) \<Rightarrow> nat \<Rightarrow> log_entry list \<Rightarrow> log_entry list" where
  "cut_entries crc k [] = []"
| "cut_entries crc k (e # es) =
     (if length (entry_frames crc e) \<le> k then e # cut_entries crc (k - length (entry_frames crc e)) es
      else if k = 0 then []
      else [Partial (entry_commit e) k])"

lemma entries_frames_simps [simp]:
  "entries_frames crc [] = []" "entries_frames crc (e # es) = entry_frames crc e @ entries_frames crc es"
  "entries_frames crc (es @ ds) = entries_frames crc es @ entries_frames crc ds"
  by (simp_all add: entries_frames_def)

lemma commits_of_append [simp]: "commits_of (es @ ds) = commits_of es @ commits_of ds"
  by (induction es rule: commits_of.induct) auto

lemma entries_ok_append:
  "entries_ok crc l b (es @ ds) \<longleftrightarrow>
   entries_ok crc l b es \<and> (case history_end (l, b) es of (l', b') \<Rightarrow> entries_ok crc l' b' ds)"
  by (induction crc l b es rule: entries_ok.induct) auto

lemma history_end_append: "history_end lb (es @ ds) = history_end (history_end lb es) ds"
  by (induction lb es rule: history_end.induct) auto

lemma take_entry_frames:
  "0 < k \<Longrightarrow> k < length (entry_frames crc e) \<Longrightarrow>
   take k (entry_frames crc e) = entry_frames crc (Partial (entry_commit e) k)"
  by (cases e) (simp_all add: take_map)

lemma cut_entries_frames: "take k (entries_frames crc es) = entries_frames crc (cut_entries crc k es)"
proof (induction crc k es rule: cut_entries.induct)
  case (2 crc k e es)
  then show ?case by (auto simp: take_entry_frames simp del: entry_frames.simps)
qed simp

lemma cut_entries_ok: "entries_ok crc l b es \<Longrightarrow> entries_ok crc l b (cut_entries crc k es)"
proof (induction crc k es arbitrary: l b rule: cut_entries.induct)
  case (2 crc k e es)
  then show ?case by (cases e) auto
qed simp

lemma cut_entries_commits: "prefix (commits_of (cut_entries crc k es)) (commits_of es)"
proof (induction crc k es rule: cut_entries.induct)
  case (2 crc k e es)
  then show ?case by (cases e) auto
qed simp

lemma cut_entries_all: "length (entries_frames crc es) \<le> k \<Longrightarrow> cut_entries crc k es = es"
  by (induction crc k es rule: cut_entries.induct) auto

lemma cut_entries_keeps:
  "length (entries_frames crc es) \<le> k \<Longrightarrow>
   cut_entries crc k (es @ ds) = es @ cut_entries crc (k - length (entries_frames crc es)) ds"
  by (induction es arbitrary: k) auto

section \<open>Frames of a log\<close>

lemma page_frame_simps [simp]:
  "fr_format_version (page_frame c i) = WAL_FORMAT_VERSION" "fr_record_type (page_frame c i) = WalPageImage"
  "fr_record_lsn (page_frame c i) = first_lsn c + word_of_nat i" "fr_batch_id (page_frame c i) = wc_batch_id c"
  "fr_record_index (page_frame c i) = word_of_nat i" "fr_payload (page_frame c i) = page_payload (wc_pages c ! i)"
  by (simp_all add: page_frame_def)

lemma commit_frame_simps [simp]:
  "fr_format_version (commit_frame crc c) = WAL_FORMAT_VERSION"
  "fr_record_type (commit_frame crc c) = WalCommitRecord"
  "fr_record_lsn (commit_frame crc c) = wc_commit_lsn c" "fr_batch_id (commit_frame crc c) = wc_batch_id c"
  "fr_record_index (commit_frame crc c) = word_of_nat (length (wc_pages c))"
  "fr_payload (commit_frame crc c) = commit_payload (first_lsn c) (word_of_nat (length (wc_pages c)))
     (crc (concat (map page_payload (wc_pages c))))"
  by (simp_all add: commit_frame_def)

lemma init_frame_simps [simp]:
  "fr_format_version (init_frame i s) = WAL_FORMAT_VERSION" "fr_record_type (init_frame i s) = WalInit"
  "fr_record_lsn (init_frame i s) = 0" "fr_batch_id (init_frame i s) = 0"
  "fr_record_index (init_frame i s) = 0" "fr_payload (init_frame i s) = identity_payload i s"
  by (simp_all add: init_frame_def)

lemma unat_first_lsn:
  assumes "commit_wf crc c"
  shows "unat (first_lsn c) = unat (wc_commit_lsn c) - length (wc_pages c)"
    and "i \<le> length (wc_pages c) \<Longrightarrow> unat (first_lsn c + word_of_nat i) = unat (first_lsn c) + i"
    and "first_lsn c + word_of_nat (length (wc_pages c)) = wc_commit_lsn c"
proof -
  have n: "unat (word_of_nat (length (wc_pages c)) :: u64) = length (wc_pages c)"
    using assms by (simp add: commit_wf_def unat_u64_of_nat)
  show f: "unat (first_lsn c) = unat (wc_commit_lsn c) - length (wc_pages c)"
    using assms n by (simp add: first_lsn_def commit_wf_def unat_sub word_le_nat_alt)
  show "first_lsn c + word_of_nat (length (wc_pages c)) = wc_commit_lsn c"
    by (simp add: first_lsn_def)
  show "unat (first_lsn c + word_of_nat i) = unat (first_lsn c) + i" if i: "i \<le> length (wc_pages c)"
  proof -
    have "unat (first_lsn c) + i < 2 ^ 64" "unat (word_of_nat i :: u64) = i"
      using i assms f by (auto simp: commit_wf_def unat_u64_of_nat)
    then show ?thesis by (simp add: unat_word_ariths)
  qed
qed

lemma length_page_payload:
  "commit_wf crc c \<Longrightarrow> i < length (wc_pages c) \<Longrightarrow> length (page_payload (wc_pages c ! i)) = PAGE_IMAGE_PAYLOAD_SIZE"
  by (auto simp: commit_wf_def page_payload_def dest!: bspec [OF _ nth_mem] validate_page_image_length)

lemma page_frames_chain:
  assumes "commit_wf crc c" "m \<le> length (wc_pages c)" "unat l < unat (first_lsn c)"
    and "acc \<noteq> []" "fr_format_version (hd acc) = WAL_FORMAT_VERSION"
  shows "frames_chain (Some l) acc (map (page_frame c) [0..<m])"
  using assms(2)
proof (induction m)
  case (Suc m)
  have "last_lsn (Some l) (map (page_frame c) [0..<m]) = Some (if m = 0 then l else first_lsn c + word_of_nat (m - 1))"
    by (cases m) (simp_all add: last_lsn_def)
  moreover have "(if m = 0 then l else first_lsn c + word_of_nat (m - 1)) < first_lsn c + word_of_nat m"
    using unat_first_lsn(2) [OF assms(1), of m] unat_first_lsn(2) [OF assms(1), of "m - 1"] Suc.prems assms(3)
    by (simp add: word_less_nat_alt del: of_nat_diff)
  moreover have "frame_wf (page_frame c m)"
    using length_page_payload [OF assms(1), of m] Suc.prems by (simp add: frame_wf_def)
  ultimately show ?case
    using Suc assms(4,5) by (simp add: frames_chain_append frame_follows_def)
qed simp

lemma entry_frames_chain:
  assumes "entries_ok crc l b [e]" "unat w \<le> l"
    and "acc \<noteq> []" "fr_format_version (hd acc) = WAL_FORMAT_VERSION"
  shows "frames_chain (Some w) acc (entry_frames crc e)"
    and "\<exists>w'. last_lsn (Some w) (entry_frames crc e) = Some w' \<and> unat w' = fst (history_end (l, b) [e])"
proof -
  show "frames_chain (Some w) acc (entry_frames crc e)"
  proof (cases e)
    case (Complete c)
    have c: "commit_wf crc c" "unat w < unat (first_lsn c)" using Complete assms(1,2) by auto
    have pages: "wc_pages c \<noteq> []" using c(1) by (simp add: commit_wf_def)
    have "last_lsn (Some w) (map (page_frame c) [0..<length (wc_pages c)]) =
        Some (first_lsn c + word_of_nat (length (wc_pages c) - 1))"
      using pages by (simp add: last_lsn_def last_map)
    moreover have "first_lsn c + word_of_nat (length (wc_pages c) - 1) < wc_commit_lsn c"
      using unat_first_lsn(2,3) [OF c(1)] pages
      by (metis diff_le_self length_greater_0_conv diff_less less_numeral_extra(1) nat_add_left_cancel_less
          order_refl word_less_nat_alt)
    ultimately show ?thesis
      using page_frames_chain [OF c(1) order_refl c(2) assms(3,4)] assms(3,4) Complete
      by (simp add: frames_chain_append frame_follows_def frame_wf_def)
  next
    case (Partial c m)
    then show ?thesis
      using page_frames_chain [of crc c m w acc] assms by auto
  qed
  show "\<exists>w'. last_lsn (Some w) (entry_frames crc e) = Some w' \<and> unat w' = fst (history_end (l, b) [e])"
  proof (cases e)
    case (Complete c)
    then show ?thesis by (simp add: last_lsn_def)
  next
    case (Partial c m)
    then have "commit_wf crc c" "0 < m" "m \<le> length (wc_pages c)" using assms(1) by auto
    then show ?thesis
      using Partial unat_first_lsn(2) [of crc c "m - 1"] by (simp add: last_lsn_def last_map)
  qed
qed

lemma entries_frames_chain:
  assumes "entries_ok crc l b es" "unat w = l"
    and "acc \<noteq> []" "fr_format_version (hd acc) = WAL_FORMAT_VERSION"
  shows "frames_chain (Some w) acc (entries_frames crc es)"
    and "\<exists>w'. last_lsn (Some w) (entries_frames crc es) = Some w' \<and> unat w' = fst (history_end (l, b) es)"
proof -
  have "frames_chain (Some w) acc (entries_frames crc es) \<and>
    (\<exists>w'. last_lsn (Some w) (entries_frames crc es) = Some w' \<and> unat w' = fst (history_end (l, b) es))"
    using assms
  proof (induction es arbitrary: l b w acc)
    case Nil
    then show ?case by (simp add: last_lsn_def)
  next
    case (Cons e es)
    obtain l' b' where lb: "history_end (l, b) [e] = (l', b')" by (cases "history_end (l, b) [e]")
    have e: "entries_ok crc l b [e]" and es: "entries_ok crc l' b' es"
      using Cons.prems(1) entries_ok_append [of crc l b "[e]" es] lb by auto
    obtain w' where w': "last_lsn (Some w) (entry_frames crc e) = Some w'" "unat w' = l'"
      and chain: "frames_chain (Some w) acc (entry_frames crc e)"
      using entry_frames_chain [OF e _ Cons.prems(3,4)] Cons.prems(2) lb by force
    have "frames_chain (Some w') (acc @ entry_frames crc e) (entries_frames crc es) \<and>
      (\<exists>w''. last_lsn (Some w') (entries_frames crc es) = Some w'' \<and> unat w'' = fst (history_end (l', b') es))"
      using Cons.IH [OF es w'(2), of "acc @ entry_frames crc e"] Cons.prems(3,4) by simp
    moreover have "last_lsn (Some w) (entry_frames crc e @ entries_frames crc es) =
        last_lsn (Some w') (entries_frames crc es)"
      using w'(1) by (auto simp: last_lsn_def split: if_splits)
    moreover have "history_end (l, b) (e # es) = history_end (l', b') es"
      using history_end_append [of "(l, b)" "[e]" es] lb by simp
    ultimately show ?case
      using chain w'(1) by (simp add: frames_chain_append)
  qed
  then show "frames_chain (Some w) acc (entries_frames crc es)"
    and "\<exists>w'. last_lsn (Some w) (entries_frames crc es) = Some w' \<and> unat w' = fst (history_end (l, b) es)"
    by blast+
qed

section \<open>Grouping the frames of a log\<close>

text \<open>Before an entry with a batch id above \<open>b\<close>.\<close>

definition scan_state_ok :: "nat \<Rightarrow> scan_state \<Rightarrow> bool" where
  "scan_state_ok b s \<longleftrightarrow> unat (sc_highest_batch_id_seen s) = b \<and> unat (sc_max_batch_id s) = b \<and>
     (case sc_pending s of None \<Rightarrow> True | Some p \<Rightarrow> unat (pb_batch_id p) \<le> b)"

lemma group_frames_append:
  "group_frames crc h (fs @ gs) s = bindR (group_frames crc h fs s) (group_frames crc h gs)"
  by (induction fs arbitrary: s) (auto simp: bindR_def split: sum.splits)

lemma decode_page_payload:
  assumes "commit_wf crc c" "i < length (wc_pages c)"
  shows "decode_page_image (page_payload (wc_pages c ! i)) = Inr (wc_pages c ! i)"
    "validate_page_image crc (wc_pages c ! i) = Inr ()"
proof -
  have v: "validate_page_image crc (wc_pages c ! i) = Inr ()"
    using assms nth_mem [of i "wc_pages c"] by (auto simp: commit_wf_def)
  then show "validate_page_image crc (wc_pages c ! i) = Inr ()" .
  show "decode_page_image (page_payload (wc_pages c ! i)) = Inr (wc_pages c ! i)"
    using v by (intro decode_encode_page_image(1) [where crc = crc]) (simp add: encode_page_image_def page_payload_def)
qed

definition pending_of :: "wal_commit \<Rightarrow> nat \<Rightarrow> pending_batch" where
  "pending_of c m = \<lparr>pb_batch_id = wc_batch_id c, pb_first_record_lsn = first_lsn c,
     pb_pages = take m (wc_pages c), pb_digest_input = concat (map page_payload (take m (wc_pages c)))\<rparr>"

lemma word_u64_order: "(a :: u64) \<le> b \<longleftrightarrow> unat a \<le> unat b" "(a :: u64) < b \<longleftrightarrow> unat a < unat b"
  by (simp_all add: word_le_nat_alt word_less_nat_alt)

lemma group_page_frames:
  assumes c: "commit_wf crc c" "Suc m \<le> length (wc_pages c)"
    and s: "scan_state_ok b s" "b < unat (wc_batch_id c)" "unat h < unat (first_lsn c)"
  shows "group_frames crc h (map (page_frame c) [0..<Suc m]) s =
    Inr (s\<lparr>sc_pending := Some (pending_of c (Suc m)), sc_highest_batch_id_seen := wc_batch_id c,
           sc_max_batch_id := wc_batch_id c\<rparr>)"
  using c(2)
proof (induction m)
  case 0
  then have "0 < length (wc_pages c)" by linarith
  note page = decode_page_payload [OF c(1) this]
  have "take (Suc 0) (wc_pages c) = [wc_pages c ! 0]"
    using 0 by (cases "wc_pages c") simp_all
  moreover have "pb_batch_id p \<noteq> wc_batch_id c" if "sc_pending s = Some p" for p
    using s(1,2) that by (auto simp: scan_state_ok_def)
  ultimately show ?case
    using s page
    by (cases "sc_pending s")
      (auto simp: scan_frame_def scan_page_image_def scan_state_ok_def word_u64_order pending_of_def max_def Let_def)
next
  case (Suc m)
  have "unat (first_lsn c + word_of_nat (Suc m)) = unat (first_lsn c) + Suc m"
    using unat_first_lsn(2) [OF c(1), of "Suc m"] Suc.prems by simp
  then have "\<not> first_lsn c + word_of_nat (Suc m) \<le> h"
    using s(3) by (simp add: word_u64_order del: of_nat_Suc)
  then show ?case
    using Suc decode_page_payload [OF c(1), of "Suc m"]
    by (simp add: group_frames_append scan_frame_def scan_page_image_def pending_of_def
        take_Suc_conv_app_nth [of "Suc m"] upt_Suc_append [of 0 "Suc m"] del: upt_Suc of_nat_Suc)
qed

lemma validate_all_lsn_ok:
  "\<forall>p\<in>set pages. validate_page_image_lsn p l = Inr () \<Longrightarrow> validate_all_lsn pages l = Inr ()"
  by (induction pages) auto

lemma group_entry:
  assumes "entries_ok crc l b [e]" "scan_state_ok b s" "unat h \<le> l"
  shows "\<exists>s'. group_frames crc h (entry_frames crc e) s = Inr s' \<and>
    sc_committed s' = sc_committed s @ map committed_of (commits_of [e]) \<and>
    scan_state_ok (snd (history_end (l, b) [e])) s'"
proof (cases e)
  case (Complete c)
  then have c: "commit_wf crc c" "b < unat (wc_batch_id c)" "l < unat (first_lsn c)"
    using assms(1) by auto
  obtain m where m: "length (wc_pages c) = Suc m"
    using c(1) by (cases "wc_pages c") (auto simp: commit_wf_def)
  have n: "length (wc_pages c) < 2 ^ 32" using c(1) by (simp add: commit_wf_def)
  have "\<not> wc_commit_lsn c \<le> h"
    using unat_first_lsn(1) [OF c(1)] c(3) assms(3) by (simp add: word_u64_order)
  moreover have "unat (word_of_nat (length (wc_pages c)) :: u32) = length (wc_pages c)"
    using n by (simp add: unat_u32_of_nat)
  moreover have "validate_all_lsn (wc_pages c) (wc_commit_lsn c) = Inr ()"
    using c(1) by (intro validate_all_lsn_ok) (simp add: commit_wf_def)
  ultimately show ?thesis
    using Complete group_page_frames [OF c(1) _ assms(2) c(2), of m h] m c(3) assms(3)
    by (auto simp: group_frames_append scan_frame_def scan_commit_def pending_of_def
        decode_commit_payload_encode committed_of_def scan_state_ok_def)
next
  case (Partial c m)
  then obtain m' where m': "m = Suc m'" using assms(1) by (cases m) auto
  then show ?thesis
    using Partial group_page_frames [of crc c m' b s h] assms
    by (auto simp: scan_state_ok_def pending_of_def)
qed

lemma history_end_mono:
  "entries_ok crc l b es \<Longrightarrow> l \<le> fst (history_end (l, b) es) \<and> b \<le> snd (history_end (l, b) es)"
proof (induction crc l b es rule: entries_ok.induct)
  case (2 crc lsn batch c es)
  then show ?case using unat_first_lsn(1) [of crc c] by auto
next
  case (3 crc lsn batch c m es)
  then show ?case by auto
qed simp

lemma group_entries:
  assumes "entries_ok crc l b es" "scan_state_ok b s" "unat h \<le> l"
  shows "\<exists>s'. group_frames crc h (entries_frames crc es) s = Inr s' \<and>
    sc_committed s' = sc_committed s @ map committed_of (commits_of es) \<and>
    scan_state_ok (snd (history_end (l, b) es)) s'"
  using assms
proof (induction es arbitrary: l b s)
  case (Cons e es)
  obtain l' b' where lb: "history_end (l, b) [e] = (l', b')" by (cases "history_end (l, b) [e]")
  have e: "entries_ok crc l b [e]" and es: "entries_ok crc l' b' es"
    using Cons.prems(1) entries_ok_append [of crc l b "[e]" es] lb by auto
  obtain s1 where s1: "group_frames crc h (entry_frames crc e) s = Inr s1"
    "sc_committed s1 = sc_committed s @ map committed_of (commits_of [e])" "scan_state_ok b' s1"
    using group_entry [OF e Cons.prems(2,3)] lb by auto
  have "unat h \<le> l'" using history_end_mono [OF e] lb Cons.prems(3) by simp
  then obtain s2 where "group_frames crc h (entries_frames crc es) s1 = Inr s2"
    "sc_committed s2 = sc_committed s1 @ map committed_of (commits_of es)"
    "scan_state_ok (snd (history_end (l', b') es)) s2"
    using Cons.IH [OF es s1(3)] by blast
  then show ?case
    using s1 lb history_end_append [of "(l, b)" "[e]" es] commits_of_append [of "[e]" es]
    by (simp add: group_frames_append)
qed simp

section \<open>Scanning a cut log\<close>

definition log_ok :: "(bytes \<Rightarrow> u32) \<Rightarrow> wal_identity \<Rightarrow> lsn \<Rightarrow> log_entry list \<Rightarrow> bool" where
  "log_ok crc identity start es \<longleftrightarrow>
     length (wi_database_uuid identity) = 16 \<and> entries_ok crc (unat start) 0 es"

text \<open>The LSN and batch id after the last record of a log (an empty log has LSN 0).\<close>

definition log_end :: "lsn \<Rightarrow> log_entry list \<Rightarrow> nat \<times> nat" where
  "log_end start es = (if es = [] then (0, 0) else history_end (unat start, 0) es)"

lemma length_init_frame_bytes:
  "length (wi_database_uuid identity) = 16 \<Longrightarrow> length (frame_bytes crc (init_frame identity start)) = INIT_FRAME_SIZE"
  by (simp add: length_frame_bytes length_identity_payload)

lemma entries_ok_weaken: "entries_ok crc l b es \<Longrightarrow> l' \<le> l \<Longrightarrow> entries_ok crc l' b es"
  by (cases es rule: commits_of.cases) auto

lemma log_end_eq:
  "entries_ok crc (unat start) 0 es \<Longrightarrow> es \<noteq> [] \<or> start = 0 \<Longrightarrow> history_end (0, 0) es = log_end start es"
  by (cases es rule: commits_of.cases) (auto simp: log_end_def)

lemma history_end_0: "es \<noteq> [] \<Longrightarrow> history_end (l, b) es = history_end (0, 0) es"
  by (cases es rule: commits_of.cases) auto

lemma history_end_bound:
  "entries_ok crc l b es \<Longrightarrow> l < 2 ^ 64 - 1 \<Longrightarrow> b < 2 ^ 64 - 1 \<Longrightarrow>
   fst (history_end (l, b) es) < 2 ^ 64 - 1 \<and> snd (history_end (l, b) es) < 2 ^ 64 - 1"
proof (induction crc l b es rule: entries_ok.induct)
  case (2 crc lsn batch c es)
  then show ?case by (simp add: commit_wf_def)
next
  case (3 crc lsn batch c m es)
  then have "unat (first_lsn c) + m - 1 < 2 ^ 64 - 1"
    using unat_first_lsn(1) [of crc c] by (auto simp: commit_wf_def)
  then show ?case using 3 by (simp add: commit_wf_def)
qed simp

lemma log_frames_chain:
  assumes "log_ok crc identity start es"
  shows "frames_chain None [] (log_frames crc identity start es)"
    and "\<exists>w. last_lsn None (log_frames crc identity start es) = Some w \<and> unat w = fst (log_end start es)"
proof -
  let ?i = "init_frame identity start"
  have i: "frame_follows None [] ?i"
    using assms by (simp add: frame_follows_def frame_wf_def log_ok_def length_identity_payload)
  have es: "entries_ok crc 0 0 es" using assms entries_ok_weaken by (auto simp: log_ok_def)
  note chain = entries_frames_chain [OF es, of 0 "[?i]"]
  show "frames_chain None [] (log_frames crc identity start es)"
    using i chain(1) by (simp add: log_frames_def)
  have "last_lsn None (log_frames crc identity start es) = last_lsn (Some 0) (entries_frames crc es)"
    by (simp add: log_frames_def last_lsn_def)
  moreover have "fst (history_end (0, 0) es) = fst (log_end start es)"
    using history_end_0 [of es "unat start" 0] by (cases "es = []") (simp_all add: log_end_def)
  ultimately show "\<exists>w. last_lsn None (log_frames crc identity start es) = Some w \<and> unat w = fst (log_end start es)"
    using chain(2) by auto
qed

lemma take_log_frames:
  "take (Suc m) (log_frames crc identity start es) = log_frames crc identity start (cut_entries crc m es)"
  by (simp add: log_frames_def cut_entries_frames)

lemma cut_log_ok: "log_ok crc identity start es \<Longrightarrow> log_ok crc identity start (cut_entries crc m es)"
  by (simp add: log_ok_def cut_entries_ok)

lemma scan_finish_log:
  assumes "log_ok crc identity start es" "last_lsn None (log_frames crc identity start es) = Some w"
    and "unat w = fst (log_end start es)"
  shows "\<exists>scan. scan_finish crc identity (Some w) (log_frames crc identity start es) valid = Inr scan \<and>
    scan_committed scan = map committed_of (commits_of es) \<and> scan_valid_length scan = valid \<and>
    scan_history_start_lsn scan = start \<and> scan_format_version scan = WAL_FORMAT_VERSION \<and>
    unat (scan_next_lsn scan) = fst (log_end start es) + 1 \<and>
    unat (scan_next_batch_id scan) = snd (log_end start es) + 1"
proof -
  have es: "entries_ok crc (unat start) 0 es" "length (wi_database_uuid identity) = 16"
    using assms(1) by (auto simp: log_ok_def)
  have "scan_state_ok 0 scan_state_init" by (simp add: scan_state_ok_def scan_state_init_def)
  then obtain s where s: "group_frames crc start (entries_frames crc es) scan_state_init = Inr s"
    "sc_committed s = map committed_of (commits_of es)"
    "scan_state_ok (snd (history_end (unat start, 0) es)) s"
    using group_entries [OF es(1), of scan_state_init start] by (auto simp: scan_state_init_def)
  have b: "unat (sc_max_batch_id s) = snd (log_end start es)"
    using s(3) by (cases "es = []") (simp_all add: scan_state_ok_def log_end_def)
  have bounds: "fst (log_end start es) < 2 ^ 64 - 1 \<and> snd (log_end start es) < 2 ^ 64 - 1"
    using history_end_bound [OF entries_ok_weaken [OF es(1), of 0]] history_end_0 [of es "unat start" 0]
    by (simp add: log_end_def)
  have add: "checked_add_u64 v 1 = Some (v + 1)" "unat (v + 1) = unat v + 1" if "unat v < 2 ^ 64 - 1" for v :: u64
    using that by (simp_all add: checked_add_u64_def unat_word_ariths)
  have "max (sc_max_batch_id s + 1) 1 = sc_max_batch_id s + 1"
    using add(2) [of "sc_max_batch_id s"] b bounds by (intro max_absorb1) (simp add: word_u64_order)
  then show ?thesis
    using s(1,2) verify_identity_payload [OF es(2), of start] add [of w] add [of "sc_max_batch_id s"] b bounds assms(3)
    by (simp add: scan_finish_def log_frames_def)
qed

context reliable_file
begin

lemma scan_wal_cut:
  assumes "healthy f" "log_ok crc identity start es" "length (view f) < 2 ^ 64"
    and "view f = take k (log_bytes crc identity start es)" "INIT_FRAME_SIZE \<le> k"
  shows "\<exists>m scan f'. scan_wal crc ops identity f = (Inr scan, f') \<and> healthy f' \<and> view f' = view f \<and>
    scan_committed scan = map committed_of (commits_of (cut_entries crc m es)) \<and>
    unat (scan_valid_length scan) = length (log_bytes crc identity start (cut_entries crc m es)) \<and>
    take (unat (scan_valid_length scan)) (view f) = log_bytes crc identity start (cut_entries crc m es) \<and>
    scan_history_start_lsn scan = start \<and> scan_format_version scan = WAL_FORMAT_VERSION \<and>
    unat (scan_next_lsn scan) = fst (log_end start (cut_entries crc m es)) + 1 \<and>
    unat (scan_next_batch_id scan) = snd (log_end start (cut_entries crc m es)) + 1 \<and>
    (\<forall>m'. length (log_bytes crc identity start (cut_entries crc m' es)) \<le> k \<longrightarrow>
       length (entries_frames crc (cut_entries crc m' es)) \<le> m)"
proof -
  let ?F = "log_frames crc identity start es"
  obtain M torn where M: "M \<le> length ?F" "take k (frames_bytes crc ?F) = frames_bytes crc (take M ?F) @ torn"
    "torn_tail crc (last_lsn None (take M ?F)) (take M ?F) torn"
    "\<forall>m'\<le>length ?F. length (frames_bytes crc (take m' ?F)) \<le> k \<longrightarrow> m' \<le> M"
    using take_frames_bytes [OF log_frames_chain(1) [OF assms(2)], of k crc] by auto
  have init: "length (frame_bytes crc (init_frame identity start)) = INIT_FRAME_SIZE"
    using assms(2) by (simp add: log_ok_def length_init_frame_bytes)
  have "1 \<le> M"
    using M(4) [rule_format, of 1] assms(5) init by (simp add: log_frames_def)
  then obtain m where m: "M = Suc m" by (cases M) auto
  let ?C = "cut_entries crc m es"
  have cut: "take M ?F = log_frames crc identity start ?C" by (simp add: m take_log_frames)
  have ok: "log_ok crc identity start ?C" using assms(2) by (rule cut_log_ok)
  obtain w where w: "last_lsn None (log_frames crc identity start ?C) = Some w" "unat w = fst (log_end start ?C)"
    using log_frames_chain(2) [OF ok] by blast
  have view: "view f = [] @ frames_bytes crc (log_frames crc identity start ?C) @ torn"
    using assms(4) M(2) cut by (simp add: log_bytes_def)
  obtain f' where f': "scan_frames crc ops (word_of_nat (length (view f))) 0 None [] f =
      (Inr (Some w, log_frames crc identity start ?C,
        word_of_nat (length (log_bytes crc identity start ?C))), f')" "healthy f'" "view f' = view f"
    using scan_frames_log [OF assms(1) view assms(3), of None "[]"] log_frames_chain(1) [OF ok] M(3) w(1)
    unfolding cut by (auto simp: log_bytes_def)
  obtain scan where scan: "scan_finish crc identity (Some w) (log_frames crc identity start ?C)
      (word_of_nat (length (log_bytes crc identity start ?C))) = Inr scan"
    "scan_committed scan = map committed_of (commits_of ?C)"
    "scan_valid_length scan = word_of_nat (length (log_bytes crc identity start ?C))"
    "scan_history_start_lsn scan = start" "scan_format_version scan = WAL_FORMAT_VERSION"
    "unat (scan_next_lsn scan) = fst (log_end start ?C) + 1"
    "unat (scan_next_batch_id scan) = snd (log_end start ?C) + 1"
    using scan_finish_log [OF ok w] by blast
  have valid: "unat (word_of_nat (length (log_bytes crc identity start ?C)) :: u64) =
      length (log_bytes crc identity start ?C)"
    using assms(3) view by (simp add: unat_u64_of_nat log_bytes_def)
  have "length (entries_frames crc (cut_entries crc m' es)) \<le> m"
    if "length (log_bytes crc identity start (cut_entries crc m' es)) \<le> k" for m'
  proof -
    have "take (min (Suc m') (length ?F)) ?F = log_frames crc identity start (cut_entries crc m' es)"
      using take_log_frames [of m'] by (metis min.commute take_all_iff take_take le_refl)
    then show ?thesis
      using M(4) [rule_format, of "min (Suc m') (length ?F)"] that m
      by (simp add: log_bytes_def log_frames_def flip: cut_entries_frames)
  qed
  then show ?thesis
    using healthy_len [OF assms(1,3)] f' scan valid view
    by (intro exI [of _ m] exI [of _ scan] exI [of _ f']) (simp add: scan_wal_def log_bytes_def)
qed

end

end
