(* ===== verification/Wal_Log.thy ===== *)
theory Wal_Log
  imports Wal_History
begin

text \<open>
  The \<open>WalLog\<close> of \<open>dodb-storage/src/wal.rs\<close>: opening (initialization, torn-tail truncation),
  appending groups of commits with one sync, resuming and resetting. The state is the log, its
  file included, beside the optional crash injector the operations are called with; every I/O
  error and injected crash is an early return that keeps what was written. Timing counters are
  left out.
\<close>

section \<open>State\<close>

record 'f wal_log =
  wal_file :: 'f
  wal_identity :: wal_identity
  wal_format_version :: u16
  wal_next_lsn :: lsn
  wal_next_batch_id :: u64
  wal_history_start_lsn :: lsn
  wal_committed :: "committed_wal_batch list"
  wal_scan_report :: wal_scan_report
  wal_sync_count :: u64
  wal_page_images :: usize

record wal_append_report =
  report_first_record_lsn :: lsn
  report_commit_lsn :: lsn
  report_page_count :: usize
  report_bytes_written :: usize

record wal_metrics =
  metric_wal_bytes :: u64
  metric_wal_syncs :: u64
  metric_committed_batches :: usize
  metric_page_images :: usize

type_synonym 'f wal_state = "'f wal_log \<times> crash_injector option"

definition wal_io :: "('f, error, 'a) stateful \<Rightarrow> ('f wal_state, error, 'a) stateful" where
  "wal_io m s = (case m (wal_file (fst s)) of (r, f') \<Rightarrow> (r, (fst s)\<lparr>wal_file := f'\<rparr>, snd s))"

definition wal_hit :: "string \<Rightarrow> ('f wal_state, error, unit) stateful" where
  "wal_hit point s = (case hit_fault point (snd s) of (r, inj') \<Rightarrow> (r, fst s, inj'))"

definition wal_get :: "('f wal_log \<Rightarrow> 'a) \<Rightarrow> ('f wal_state, error, 'a) stateful" where
  "wal_get field s = (Inr (field (fst s)), s)"

definition wal_modify :: "('f wal_log \<Rightarrow> 'f wal_log) \<Rightarrow> ('f wal_state, error, unit) stateful" where
  "wal_modify update s = (Inr (), update (fst s), snd s)"

definition map_errS :: "(error \<Rightarrow> error) \<Rightarrow> ('s, error, 'a) stateful \<Rightarrow> ('s, error, 'a) stateful" where
  "map_errS g m s = (case m s of (r, s') \<Rightarrow> (map_err g r, s'))"

definition ok_orS :: "'a option \<Rightarrow> error \<Rightarrow> ('s, error, 'a) stateful" where
  "ok_orS x e = liftR (ok_or x e)"

definition wal_len :: "'f durable_file_ops \<Rightarrow> ('f wal_state, error, u64) stateful" where
  "wal_len ops = wal_io (\<lambda>f. (df_len ops f, f))"

definition try_u32 :: "usize \<Rightarrow> u32 option" where
  "try_u32 n = (if n < 2 ^ 32 then Some (word_of_nat n) else None)"

section \<open>Appending\<close>

definition append_frame ::
  "(bytes \<Rightarrow> u32) \<Rightarrow> 'f durable_file_ops \<Rightarrow> wal_record_type \<Rightarrow> lsn \<Rightarrow> u64 \<Rightarrow> u32 \<Rightarrow> bytes
     \<Rightarrow> ('f wal_state, error, usize) stateful"
where
  "append_frame crc ops record_type record_lsn batch_id record_index payload =
     bindS (wal_get wal_format_version) (\<lambda>version.
     bindS (liftR (encode_frame crc version record_type record_lsn batch_id record_index payload)) (\<lambda>frame.
     (let payload_end = WAL_HEADER_SIZE + length payload in
      bindS (wal_len ops) (\<lambda>offset.
      bindS (wal_hit ''during_wal_header_write'') (\<lambda>_.
      bindS (wal_io (wal_write_all_at ops offset (take WAL_HEADER_SIZE frame))) (\<lambda>_.
      bindS (wal_hit ''during_wal_payload_write'') (\<lambda>_.
      bindS (ok_orS (checked_add_u64 offset 48) InvalidInput) (\<lambda>payload_offset.
      bindS (wal_io (wal_write_all_at ops payload_offset (byte_slice WAL_HEADER_SIZE payload_end frame))) (\<lambda>_.
      bindS (wal_hit ''during_wal_trailer_write'') (\<lambda>_.
      bindS (ok_orS (checked_add_u64 offset (word_of_nat payload_end)) InvalidInput) (\<lambda>trailer_offset.
      bindS (wal_io (wal_write_all_at ops trailer_offset (drop payload_end frame))) (\<lambda>_.
        returnS (length frame)))))))))))))"

fun append_page_images ::
  "(bytes \<Rightarrow> u32) \<Rightarrow> 'f durable_file_ops \<Rightarrow> wal_commit \<Rightarrow> lsn \<Rightarrow> nat \<Rightarrow> wal_page_image list \<Rightarrow> bytes \<Rightarrow> usize
     \<Rightarrow> ('f wal_state, error, bytes \<times> usize) stateful"
where
  "append_page_images crc ops commit first_record_lsn index [] digest_input bytes_written =
     returnS (digest_input, bytes_written)"
| "append_page_images crc ops commit first_record_lsn index (page # pages) digest_input bytes_written =
     bindS (liftR (validate_page_image_lsn page (wc_commit_lsn commit))) (\<lambda>_.
     bindS (liftR (encode_page_image crc page)) (\<lambda>payload.
     bindS (ok_orS (checked_add_u64 first_record_lsn (word_of_nat index)) InternalInvariantViolation)
       (\<lambda>record_lsn.
     bindS (ok_orS (try_u32 index) InvalidInput) (\<lambda>record_index.
     bindS (append_frame crc ops WalPageImage record_lsn (wc_batch_id commit) record_index payload) (\<lambda>n.
     bindS (ok_orS (checked_add_usize bytes_written n) InternalInvariantViolation) (\<lambda>bytes_written.
       append_page_images crc ops commit first_record_lsn (Suc index) pages (digest_input @ payload)
         bytes_written))))))"

definition append_commit_record ::
  "(bytes \<Rightarrow> u32) \<Rightarrow> 'f durable_file_ops \<Rightarrow> wal_commit \<Rightarrow> lsn \<Rightarrow> bytes \<Rightarrow> usize
     \<Rightarrow> ('f wal_state, error, wal_append_report) stateful"
where
  "append_commit_record crc ops commit first_record_lsn digest_input bytes_written =
     bindS (wal_hit ''after_page_images_written'') (\<lambda>_.
     bindS (ok_orS (try_u32 (length (wc_pages commit))) InvalidInput) (\<lambda>count.
     (let payload = commit_payload first_record_lsn count (crc digest_input) in
     bindS (wal_hit ''before_commit_record'') (\<lambda>_.
     bindS (append_frame crc ops WalCommitRecord (wc_commit_lsn commit) (wc_batch_id commit) count payload)
       (\<lambda>n.
     bindS (ok_orS (checked_add_usize bytes_written n) InternalInvariantViolation) (\<lambda>bytes_written.
     bindS (wal_hit ''after_commit_record_write'') (\<lambda>_.
       returnS \<lparr>report_first_record_lsn = first_record_lsn, report_commit_lsn = wc_commit_lsn commit,
         report_page_count = length (wc_pages commit), report_bytes_written = bytes_written\<rparr>)))))))"

definition append_group_commit ::
  "(bytes \<Rightarrow> u32) \<Rightarrow> 'f durable_file_ops \<Rightarrow> wal_commit \<Rightarrow> lsn \<Rightarrow> u64
     \<Rightarrow> ('f wal_state, error, wal_append_report) stateful"
where
  "append_group_commit crc ops commit first_record_lsn expected_batch_id =
     (let pages = wc_pages commit in
      if pages = [] then liftR (Inl InvalidInput)
      else if wc_batch_id commit \<noteq> expected_batch_id then liftR (Inl InternalInvariantViolation)
      else
        bindS (ok_orS (if length pages < 2 ^ 64 then Some (word_of_nat (length pages)) else None) InvalidInput)
          (\<lambda>page_count.
        bindS (ok_orS (checked_add_u64 first_record_lsn page_count) InternalInvariantViolation)
          (\<lambda>expected_commit.
        if wc_commit_lsn commit \<noteq> expected_commit then liftR (Inl InternalInvariantViolation)
        else
          bindS (ok_orS (checked_mul_usize (length pages) PAGE_IMAGE_PAYLOAD_SIZE) InvalidInput) (\<lambda>_.
          bindS (append_page_images crc ops commit first_record_lsn 0 pages [] 0)
            (\<lambda>(digest_input, bytes_written).
              append_commit_record crc ops commit first_record_lsn digest_input bytes_written)))))"

fun append_commits ::
  "(bytes \<Rightarrow> u32) \<Rightarrow> 'f durable_file_ops \<Rightarrow> wal_commit list \<Rightarrow> lsn \<Rightarrow> u64 \<Rightarrow> wal_append_report list
     \<Rightarrow> committed_wal_batch list
     \<Rightarrow> ('f wal_state, error, lsn \<times> u64 \<times> wal_append_report list \<times> committed_wal_batch list) stateful"
where
  "append_commits crc ops [] next_lsn next_batch_id reports committed =
     returnS (next_lsn, next_batch_id, reports, committed)"
| "append_commits crc ops (commit # commits) next_lsn next_batch_id reports committed =
     bindS (append_group_commit crc ops commit next_lsn next_batch_id) (\<lambda>report.
     bindS (ok_orS (checked_add_u64 (report_commit_lsn report) 1) InternalInvariantViolation) (\<lambda>next_lsn.
     bindS (ok_orS (checked_add_u64 next_batch_id 1) InternalInvariantViolation) (\<lambda>next_batch_id.
       append_commits crc ops commits next_lsn next_batch_id (reports @ [report])
         (committed @ [committed_of commit]))))"

fun count_records :: "wal_commit list \<Rightarrow> usize \<Rightarrow> usize option" where
  "count_records [] count = Some count"
| "count_records (commit # commits) count =
     (case checked_add_usize count (length (wc_pages commit) + 1) of
        None \<Rightarrow> None
      | Some count \<Rightarrow> count_records commits count)"

definition count_pages :: "wal_commit list \<Rightarrow> usize" where
  "count_pages commits = sum_list (map (length \<circ> wc_pages) commits)"

text \<open>A group: its records, one sync, and only then the in-memory state.\<close>

definition append_group_records ::
  "(bytes \<Rightarrow> u32) \<Rightarrow> 'f durable_file_ops \<Rightarrow> wal_commit list
     \<Rightarrow> ('f wal_state, error, lsn \<times> u64 \<times> wal_append_report list \<times> committed_wal_batch list) stateful"
where
  "append_group_records crc ops commits =
     bindS (wal_hit ''before_wal_append'') (\<lambda>_.
     bindS (wal_get wal_next_lsn) (\<lambda>next_lsn.
     bindS (wal_get wal_next_batch_id) (\<lambda>next_batch_id.
     bindS (append_commits crc ops commits next_lsn next_batch_id [] []) (\<lambda>appended.
     bindS (wal_hit ''after_group_records_written'') (\<lambda>_.
     bindS (wal_hit ''before_wal_sync'') (\<lambda>_.
     bindS (wal_hit ''during_wal_sync'') (\<lambda>_.
       returnS appended)))))))"

definition finish_group ::
  "wal_commit list \<Rightarrow> lsn \<Rightarrow> u64 \<Rightarrow> wal_append_report list \<Rightarrow> committed_wal_batch list
     \<Rightarrow> ('f wal_state, error, wal_append_report list) stateful"
where
  "finish_group commits next_lsn next_batch_id reports committed =
     bindS (wal_get wal_sync_count) (\<lambda>sync_count.
     bindS (ok_orS (checked_add_u64 sync_count 1) InternalInvariantViolation) (\<lambda>sync_count.
     bindS (wal_modify (\<lambda>w. w\<lparr>wal_sync_count := sync_count\<rparr>)) (\<lambda>_.
     bindS (wal_hit ''after_wal_sync'') (\<lambda>_.
     bindS (wal_modify (\<lambda>w. w\<lparr>wal_committed := wal_committed w @ committed,
       wal_next_lsn := next_lsn, wal_next_batch_id := next_batch_id\<rparr>)) (\<lambda>_.
     bindS (ok_orS (count_records commits 0) InternalInvariantViolation) (\<lambda>record_count.
     bindS (wal_get wal_scan_report) (\<lambda>report.
     bindS (ok_orS (checked_add_usize (records_scanned report) record_count) InternalInvariantViolation)
       (\<lambda>scanned.
     bindS (wal_modify (\<lambda>w. w\<lparr>wal_scan_report := report\<lparr>records_scanned := scanned,
       committed_batches := committed_batches report + length commits,
       replayable_pages := replayable_pages report + count_pages commits\<rparr>\<rparr>)) (\<lambda>_.
     bindS (wal_get wal_page_images) (\<lambda>images.
     bindS (ok_orS (checked_add_usize images (count_pages commits)) InternalInvariantViolation) (\<lambda>images.
     bindS (wal_modify (\<lambda>w. w\<lparr>wal_page_images := images\<rparr>)) (\<lambda>_.
       returnS reports))))))))))))"

definition append_group ::
  "(bytes \<Rightarrow> u32) \<Rightarrow> 'f durable_file_ops \<Rightarrow> wal_commit list
     \<Rightarrow> ('f wal_state, error, wal_append_report list) stateful"
where
  "append_group crc ops commits =
     (if commits = [] then liftR (Inl InvalidInput)
      else
        bindS (append_group_records crc ops commits) (\<lambda>(next_lsn, next_batch_id, reports, committed).
        bindS (map_errS (\<lambda>_. DurabilityFailure) (wal_io (df_sync_data ops))) (\<lambda>_.
          finish_group commits next_lsn next_batch_id reports committed)))"

definition append_commit ::
  "(bytes \<Rightarrow> u32) \<Rightarrow> 'f durable_file_ops \<Rightarrow> u64 \<Rightarrow> lsn \<Rightarrow> wal_page_image list
     \<Rightarrow> ('f wal_state, error, wal_append_report) stateful"
where
  "append_commit crc ops batch_id commit_lsn pages =
     bindS (append_group crc ops [\<lparr>wc_batch_id = batch_id, wc_commit_lsn = commit_lsn, wc_pages = pages\<rparr>])
       (\<lambda>reports. returnS (hd reports))"

section \<open>Opening and resetting\<close>

definition empty_scan_report :: wal_scan_report where
  "empty_scan_report =
     \<lparr>records_scanned = 0, committed_batches = 0, replayable_pages = 0, torn_tail_bytes = 0\<rparr>"

definition initialize_empty ::
  "(bytes \<Rightarrow> u32) \<Rightarrow> 'f durable_file_ops \<Rightarrow> wal_identity \<Rightarrow> lsn \<Rightarrow> ('f, error, 'f wal_log) stateful"
where
  "initialize_empty crc ops identity start_after_lsn f =
     (case ok_or (checked_add_u64 start_after_lsn 1) InternalInvariantViolation of
        Inl e \<Rightarrow> (Inl e, f)
      | Inr next_lsn \<Rightarrow>
          (let wal = \<lparr>wal_file = f, wal_identity = identity, wal_format_version = WAL_FORMAT_VERSION,
                 wal_next_lsn = next_lsn, wal_next_batch_id = 1, wal_history_start_lsn = start_after_lsn,
                 wal_committed = [], wal_scan_report = empty_scan_report, wal_sync_count = 0,
                 wal_page_images = 0\<rparr>
           in case bindS (append_frame crc ops WalInit 0 0 0 (identity_payload identity start_after_lsn)) (\<lambda>_.
                    map_errS (\<lambda>_. DurabilityFailure) (wal_io (df_sync_data ops))) (wal, None) of
                (Inl e, s) \<Rightarrow> (Inl e, wal_file (fst s))
              | (Inr _, s) \<Rightarrow>
                  (Inr ((fst s)\<lparr>wal_sync_count := 1,
                     wal_scan_report := (wal_scan_report (fst s))\<lparr>records_scanned := 1\<rparr>\<rparr>),
                   wal_file (fst s))))"

definition is_torn_initialization_prefix ::
  "(bytes \<Rightarrow> u32) \<Rightarrow> 'f durable_file_ops \<Rightarrow> wal_identity \<Rightarrow> lsn \<Rightarrow> u64 \<Rightarrow> ('f, error, bool) stateful"
where
  "is_torn_initialization_prefix crc ops identity start_after_lsn len =
     bindS (liftR (encode_frame crc WAL_FORMAT_VERSION WalInit 0 0 0 (identity_payload identity start_after_lsn)))
       (\<lambda>expected.
       if unat len \<ge> length expected then returnS False
       else
         bindS (wal_read_exact_at ops 0 (unat len)) (\<lambda>prefix.
           returnS (prefix = take (unat len) expected)))"

text \<open>Opening works on the file and the injector; a successful open returns the log with its file.\<close>

definition file_io :: "('f, error, 'a) stateful \<Rightarrow> ('f \<times> crash_injector option, error, 'a) stateful" where
  "file_io m s = (case m (fst s) of (r, f') \<Rightarrow> (r, f', snd s))"

definition file_hit :: "string \<Rightarrow> ('f \<times> crash_injector option, error, unit) stateful" where
  "file_hit point s = (case hit_fault point (snd s) of (r, inj') \<Rightarrow> (r, fst s, inj'))"

definition wal_open_from_scan ::
  "(bytes \<Rightarrow> u32) \<Rightarrow> 'f durable_file_ops \<Rightarrow> wal_identity \<Rightarrow> u64
     \<Rightarrow> ('f \<times> crash_injector option, error, 'f wal_log) stateful"
where
  "wal_open_from_scan crc ops identity len =
     bindS (file_io (scan_wal crc ops identity)) (\<lambda>scan.
     bindS (if scan_valid_length scan < len
            then bindS (file_hit ''before_wal_tail_truncate'') (\<lambda>_.
                 bindS (file_io (df_set_len ops (scan_valid_length scan))) (\<lambda>_.
                 bindS (file_io (map_errS (\<lambda>_. DurabilityFailure) (df_sync_data ops))) (\<lambda>_.
                   file_hit ''after_wal_tail_truncate'')))
            else returnS ()) (\<lambda>_ s.
       (let report = (scan_report scan)\<lparr>torn_tail_bytes := unat (len - scan_valid_length scan)\<rparr>
        in (Inr \<lparr>wal_file = fst s, wal_identity = identity, wal_format_version = scan_format_version scan,
                 wal_next_lsn = scan_next_lsn scan, wal_next_batch_id = scan_next_batch_id scan,
                 wal_history_start_lsn = scan_history_start_lsn scan,
                 wal_committed = scan_committed scan, wal_scan_report = report, wal_sync_count = 0,
                 wal_page_images = replayable_pages report\<rparr>, s))))"

definition wal_open ::
  "(bytes \<Rightarrow> u32) \<Rightarrow> 'f durable_file_ops \<Rightarrow> wal_identity \<Rightarrow> lsn
     \<Rightarrow> ('f \<times> crash_injector option, error, 'f wal_log) stateful"
where
  "wal_open crc ops identity start_after_lsn =
     bindS (file_io (\<lambda>f. (df_len ops f, f))) (\<lambda>len.
     if len = 0 then file_io (initialize_empty crc ops identity start_after_lsn)
     else
       bindS (if unat len < INIT_FRAME_SIZE
              then file_io (is_torn_initialization_prefix crc ops identity start_after_lsn len)
              else returnS False) (\<lambda>torn.
       if torn then
         bindS (file_io (map_errS (\<lambda>_. RecoveryFailure) (df_set_len ops 0))) (\<lambda>_.
         bindS (file_io (map_errS (\<lambda>_. DurabilityFailure) (df_sync_data ops))) (\<lambda>_.
           file_io (initialize_empty crc ops identity start_after_lsn)))
       else wal_open_from_scan crc ops identity len))"

definition resume_after :: "lsn \<Rightarrow> 'f wal_log \<Rightarrow> ('f wal_log) result" where
  "resume_after checkpoint_lsn w =
     bindR (ok_or (checked_add_u64 checkpoint_lsn 1) InternalInvariantViolation) (\<lambda>next_lsn.
       Inr (if wal_next_lsn w < next_lsn then w\<lparr>wal_next_lsn := next_lsn\<rparr> else w))"

definition wal_reset ::
  "(bytes \<Rightarrow> u32) \<Rightarrow> 'f durable_file_ops \<Rightarrow> lsn \<Rightarrow> ('f wal_state, error, unit) stateful"
where
  "wal_reset crc ops checkpoint_lsn =
     bindS (wal_get wal_history_start_lsn) (\<lambda>history_start.
     if checkpoint_lsn < history_start then liftR (Inl CheckpointFailure)
     else
       bindS (wal_hit ''before_wal_reset'') (\<lambda>_.
       bindS (wal_hit ''during_wal_truncate'') (\<lambda>_.
       bindS (map_errS (\<lambda>_. CheckpointFailure) (wal_io (df_set_len ops 0))) (\<lambda>_.
       bindS (wal_hit ''after_wal_truncate'') (\<lambda>_.
       bindS (wal_hit ''before_wal_reset_truncate_sync'') (\<lambda>_.
       bindS (wal_hit ''during_wal_reset_truncate_sync'') (\<lambda>_.
       bindS (map_errS (\<lambda>_. CheckpointFailure) (wal_io (df_sync_data ops))) (\<lambda>_.
       bindS (wal_hit ''after_wal_reset_truncate_sync'') (\<lambda>_.
       bindS (wal_modify (\<lambda>w. w\<lparr>wal_history_start_lsn := checkpoint_lsn,
         wal_format_version := WAL_FORMAT_VERSION\<rparr>)) (\<lambda>_.
       bindS (ok_orS (checked_add_u64 checkpoint_lsn 1) InternalInvariantViolation) (\<lambda>next_lsn.
       bindS (wal_modify (\<lambda>w. w\<lparr>wal_next_lsn := next_lsn, wal_next_batch_id := 1, wal_committed := [],
         wal_scan_report := empty_scan_report\<lparr>records_scanned := 1\<rparr>, wal_page_images := 0\<rparr>)) (\<lambda>_.
       bindS (wal_hit ''before_wal_reinitialization'') (\<lambda>_.
       bindS (wal_hit ''during_wal_reinitialization'') (\<lambda>_.
       bindS (wal_get wal_identity) (\<lambda>identity.
       bindS (append_frame crc ops WalInit 0 0 0 (identity_payload identity checkpoint_lsn)) (\<lambda>_.
       bindS (wal_hit ''after_wal_reset_write'') (\<lambda>_.
       bindS (wal_hit ''before_wal_reset_sync'') (\<lambda>_.
       bindS (wal_hit ''during_wal_reset_sync'') (\<lambda>_.
       bindS (map_errS (\<lambda>_. CheckpointFailure) (wal_io (df_sync_data ops))) (\<lambda>_.
       bindS (wal_get wal_sync_count) (\<lambda>sync_count.
       bindS (ok_orS (checked_add_u64 sync_count 1) InternalInvariantViolation) (\<lambda>sync_count.
       bindS (wal_modify (\<lambda>w. w\<lparr>wal_sync_count := sync_count\<rparr>)) (\<lambda>_.
         wal_hit ''after_wal_reset_sync'')))))))))))))))))))))))"

definition wal_metrics_of :: "'f durable_file_ops \<Rightarrow> 'f wal_log \<Rightarrow> wal_metrics result" where
  "wal_metrics_of ops w =
     bindR (df_len ops (wal_file w)) (\<lambda>len.
       Inr \<lparr>metric_wal_bytes = len, metric_wal_syncs = wal_sync_count w,
            metric_committed_batches = length (wal_committed w), metric_page_images = wal_page_images w\<rparr>)"

end
