(* ===== verification/Wal_Crash.thy ===== *)
theory Wal_Crash
  imports Wal_Recovery
begin

text \<open>
  Group commit on a file that may fail or lose the process at any point: the appended frames of
  a group are the frames of its commits in order, an interrupted group leaves a prefix of them,
  and opening what is left returns the old commits and a prefix of the group's commits.
\<close>

section \<open>The frames of a commit\<close>

lemma encode_page_image_payload:
  "encode_page_image crc page = Inr payload \<Longrightarrow>
   payload = page_payload page \<and> validate_page_image crc page = Inr ()"
  by (auto simp: encode_page_image_def page_payload_def bindR_eq_Inr)

lemma append_page_images_digest:
  assumes "append_page_images crc ops c lsn i pages digest n s = (Inr (d, n'), s')"
  shows "d = digest @ concat (map page_payload pages)"
  using assms
proof (induction pages arbitrary: i digest n s)
  case (Cons page pages)
  then show ?case
    by (fastforce simp: bindS_eq_Inr liftR_def dest: encode_page_image_payload)
qed (simp add: returnS_def)

lemma frames_bytes_pages_Cons:
  "i < n \<Longrightarrow> frames_bytes crc (map (page_frame c) [i..<n]) =
     frame_bytes crc (page_frame c i) @ frames_bytes crc (map (page_frame c) [Suc i..<n])"
  by (simp add: upt_conv_Cons)

lemma appends_error [simp]: "appends view dur bs s (liftR (Inl e) s)"
  by (simp add: liftR_def appends_skip)

lemma append_group_commit_report:
  assumes "append_group_commit crc ops c lsn batch s = (Inr report, s')"
  shows "report_commit_lsn report = wc_commit_lsn c"
  using assms
  by (auto simp: append_group_commit_def append_commit_record_def Let_def bindS_eq_Inr returnS_def liftR_def
      split: if_splits)

lemma append_commits_result:
  assumes "append_commits crc ops cs lsn batch reports com s = (Inr (lsn', batch', reports', com'), s')"
  shows "com' = com @ map committed_of cs"
    and "lsn' = (if cs = [] then lsn else wc_commit_lsn (last cs) + 1)"
    and "batch' = batch + word_of_nat (length cs)"
  using assms
proof (induction cs arbitrary: lsn batch reports com s)
  case (Cons c cs)
  { case 1 then show ?case using Cons.IH(1) by (fastforce simp: bindS_eq_Inr) }
  { case 2 then show ?case using Cons.IH(2)
      by (fastforce simp: bindS_eq_Inr ok_orS_def liftR_def checked_add_u64_Some dest: append_group_commit_report) }
  { case 3 then show ?case using Cons.IH(3)
      by (fastforce simp: bindS_eq_Inr ok_orS_def liftR_def checked_add_u64_Some) }
qed (simp_all add: returnS_def)

lemma finish_group_file:
  "finish_group cs lsn batch reports com s = (r, s') \<Longrightarrow> wal_file (fst s') = wal_file (fst s)"
  by (auto simp: finish_group_def bindS_def wal_get_def wal_modify_def wal_hit_def ok_orS_def liftR_def
      returnS_def split: sum.splits prod.splits)

lemma finish_group_ok:
  assumes "finish_group cs lsn batch reports com s = (Inr x, s')"
  shows "wal_committed (fst s') = wal_committed (fst s) @ com" "wal_next_lsn (fst s') = lsn"
    "wal_next_batch_id (fst s') = batch" "wal_format_version (fst s') = wal_format_version (fst s)"
    "wal_identity (fst s') = wal_identity (fst s)" "x = reports"
  using assms
  by (cases "hit_fault ''after_wal_sync'' (snd s)",
      auto simp: finish_group_def bindS_eq_Inr wal_get_def wal_modify_def wal_hit_def ok_orS_def liftR_def
        returnS_def)+

text \<open>A fallible computation in front of the rest.\<close>

lemma appends_bindS_ok_orS:
  assumes "\<And>y. x = Some y \<Longrightarrow> appends view dur bs s (g y s)"
  shows "appends view dur bs s (bindS (ok_orS x e) g s)"
  using assms by (cases x) (auto simp: bindS_def ok_orS_def liftR_def appends_skip)

context crash_file
begin

lemma append_page_images_appends:
  assumes "wal_format_version (fst s) = WAL_FORMAT_VERSION" "pages = drop i (wc_pages c)" "i \<le> length (wc_pages c)"
    and "length (view (wal_file (fst s))) +
      length (frames_bytes crc (map (page_frame c) [i..<length (wc_pages c)])) < 2 ^ 64"
  shows "appends view stable (frames_bytes crc (map (page_frame c) [i..<length (wc_pages c)])) s
    (append_page_images crc ops c (first_lsn c) i pages digest n s)"
  using assms
proof (induction pages arbitrary: i digest n s)
  case Nil
  then show ?case by simp
next
  case (Cons page pages)
  let ?n = "length (wc_pages c)"
  let ?fr = "page_frame c i" and ?rest = "frames_bytes crc (map (page_frame c) [Suc i..<?n])"
  have "i < ?n" using Cons.prems(2) by (metis drop_all leI list.distinct(1))
  then have i: "i < ?n" "page = wc_pages c ! i" "pages = drop (Suc i) (wc_pages c)"
    using Cons.prems(2) by (simp_all flip: Cons_nth_drop_Suc)
  note frames = frames_bytes_pages_Cons [OF i(1), of crc c]
  show ?case
    unfolding append_page_images.simps
  proof (rule appends_bindS_skip [OF appends_liftR], rule appends_bindS_skip [OF appends_liftR],
      rule appends_bindS_skip [OF appends_ok_orS], rule appends_bindS_skip [OF appends_ok_orS])
    fix u s1 payload s2 lsn s3 idx s4
    assume "liftR (validate_page_image_lsn page (wc_commit_lsn c)) s = (Inr u, s1)"
      and pay: "liftR (encode_page_image crc page) s1 = (Inr payload, s2)"
      and lsn: "ok_orS (checked_add_u64 (first_lsn c) (word_of_nat i)) InternalInvariantViolation s2 = (Inr lsn, s3)"
      and idx: "ok_orS (try_u32 i) InvalidInput s3 = (Inr idx, s4)"
    then have s: "s4 = s" by (simp add: liftR_def ok_orS_def)
    have fr: "WalPageImage = fr_record_type ?fr" "lsn = fr_record_lsn ?fr" "wc_batch_id c = fr_batch_id ?fr"
      "idx = fr_record_index ?fr" "payload = fr_payload ?fr"
      using pay lsn idx i(2)
      by (auto simp: page_frame_def liftR_def ok_orS_def checked_add_u64_Some try_u32_def
          dest!: encode_page_image_payload split: if_splits)
    have le: "length (fr_payload ?fr) \<le> WAL_MAX_PAYLOAD_SIZE"
      using pay fr(5) by (auto simp: liftR_def page_payload_def length_page_payload
          dest!: encode_page_image_payload validate_page_image_length)
    show "appends view stable (frames_bytes crc (map (page_frame c) [i..<?n])) s4
      (bindS (append_frame crc ops WalPageImage lsn (wc_batch_id c) idx payload) (\<lambda>m.
       bindS (ok_orS (checked_add_usize n m) InternalInvariantViolation) (\<lambda>n.
         append_page_images crc ops c (first_lsn c) (Suc i) pages (digest @ payload) n)) s4)"
      unfolding s frames fr
    proof (rule appends_bindS [OF append_frame_appends])
      fix m :: usize and s5 assume s5: "appends view stable (frame_bytes crc ?fr) s (Inr m, s5)"
      show "appends view stable ?rest s5
        (bindS (ok_orS (checked_add_usize n m) InternalInvariantViolation) (\<lambda>n.
         append_page_images crc ops c (first_lsn c) (Suc i) pages (digest @ fr_payload ?fr) n) s5)"
      proof (rule appends_bindS_skip [OF appends_ok_orS])
        fix n' :: usize and s6 assume "appends view stable [] s5 (Inr n', s6)"
        note s6 = appends_ok [OF this] appends_ok [OF s5]
        show "appends view stable ?rest s6
          (append_page_images crc ops c (first_lsn c) (Suc i) pages (digest @ fr_payload ?fr) n' s6)"
          using s6 Cons.prems(1,4) i unfolding frames by (intro Cons.IH) simp_all
      qed
    qed (use Cons.prems(1,4) frames le in simp_all)
  qed
qed

lemma append_commit_record_appends:
  assumes "wal_format_version (fst s) = WAL_FORMAT_VERSION"
    and "length (view (wal_file (fst s))) + length (frame_bytes crc (commit_frame crc c)) < 2 ^ 64"
  shows "appends view stable (frame_bytes crc (commit_frame crc c)) s
    (append_commit_record crc ops c (first_lsn c) (concat (map page_payload (wc_pages c))) n s)"
proof -
  let ?n = "length (wc_pages c)" and ?fr = "commit_frame crc c"
  show ?thesis
    unfolding append_commit_record_def Let_def
  proof (rule appends_bindS_skip [OF appends_wal_hit], rule appends_bindS_skip [OF appends_ok_orS],
      rule appends_bindS_skip [OF appends_wal_hit], rule appends_bindS_last)
    fix u u' :: unit and count :: u32 and s1 s2 s3
    assume "appends view stable [] s (Inr u, s1)" "appends view stable [] s1 (Inr count, s2)"
      "appends view stable [] s2 (Inr u', s3)"
    note s3 = appends_ok [OF this(1)] appends_ok [OF this(2)] appends_ok [OF this(3)]
    assume "ok_orS (try_u32 ?n) InvalidInput s1 = (Inr count, s2)"
    then have fr: "WalCommitRecord = fr_record_type ?fr" "wc_commit_lsn c = fr_record_lsn ?fr"
      "wc_batch_id c = fr_batch_id ?fr" "count = fr_record_index ?fr"
      "commit_payload (first_lsn c) (fr_record_index ?fr) (crc (concat (map page_payload (wc_pages c)))) = fr_payload ?fr"
      by (auto simp: commit_frame_def ok_orS_def liftR_def try_u32_def split: if_splits)
    show "appends view stable (frame_bytes crc ?fr) s3
      (append_frame crc ops WalCommitRecord (wc_commit_lsn c) (wc_batch_id c) count
        (commit_payload (first_lsn c) count (crc (concat (map page_payload (wc_pages c))))) s3)"
      unfolding fr using s3 assms
      by (intro append_frame_appends) (simp_all add: commit_frame_def length_commit_payload)
  qed (auto intro!: appends_bindS_skip [OF appends_ok_orS] appends_bindS_skip [OF appends_wal_hit])
qed

lemma append_group_commit_appends:
  assumes version: "wal_format_version (fst s) = WAL_FORMAT_VERSION"
    and room: "length (view (wal_file (fst s))) + length (frames_bytes crc (entry_frames crc (Complete c))) < 2 ^ 64"
  shows "appends view stable (frames_bytes crc (entry_frames crc (Complete c))) s
    (append_group_commit crc ops c lsn batch s)"
proof (cases "wc_pages c = [] \<or> wc_batch_id c \<noteq> batch \<or> lsn \<noteq> first_lsn c")
  case True
  then show ?thesis
    by (auto simp: append_group_commit_def Let_def first_lsn_def checked_add_u64_Some
        simp del: entry_frames.simps split: if_splits intro!: appends_bindS_ok_orS)
next
  case False
  let ?P = "frames_bytes crc (map (page_frame c) [0..<length (wc_pages c)])"
  have bytes: "frames_bytes crc (entry_frames crc (Complete c)) = ?P @ frame_bytes crc (commit_frame crc c)"
    by simp
  have body: "appends view stable (?P @ frame_bytes crc (commit_frame crc c)) s
      (bindS (append_page_images crc ops c (first_lsn c) 0 (wc_pages c) [] 0)
        (\<lambda>(digest_input, n). append_commit_record crc ops c (first_lsn c) digest_input n) s)"
  proof (rule appends_bindS)
    show "appends view stable ?P s (append_page_images crc ops c (first_lsn c) 0 (wc_pages c) [] 0 s)"
      using version room bytes by (intro append_page_images_appends) simp_all
    fix x s2 assume run: "append_page_images crc ops c (first_lsn c) 0 (wc_pages c) [] 0 s = (Inr x, s2)"
      and "appends view stable ?P s (Inr x, s2)"
    note s2 = appends_ok [OF this(2)]
    obtain n where x: "x = (concat (map page_payload (wc_pages c)), n)"
      using append_page_images_digest [of crc ops c "first_lsn c" 0 "wc_pages c" "[]" 0 s] run
      by (cases x) auto
    show "appends view stable (frame_bytes crc (commit_frame crc c)) s2
        ((case x of (digest_input, n) \<Rightarrow> append_commit_record crc ops c (first_lsn c) digest_input n) s2)"
      unfolding x prod.case using s2 version room bytes by (intro append_commit_record_appends) simp_all
  qed
  have guard: "(wc_pages c = []) = False" "(wc_batch_id c \<noteq> batch) = False" "lsn = first_lsn c"
    using False by auto
  show ?thesis
    unfolding append_group_commit_def Let_def guard if_False bytes
    by (auto intro!: appends_bindS_ok_orS body)
qed

lemma append_commits_appends:
  assumes "wal_format_version (fst s) = WAL_FORMAT_VERSION"
    and "length (view (wal_file (fst s))) + length (frames_bytes crc (entries_frames crc (map Complete cs))) < 2 ^ 64"
  shows "appends view stable (frames_bytes crc (entries_frames crc (map Complete cs))) s
    (append_commits crc ops cs lsn batch reports com s)"
  using assms
proof (induction cs arbitrary: lsn batch reports com s)
  case (Cons c cs)
  let ?E = "frames_bytes crc (entry_frames crc (Complete c))"
  have bytes: "frames_bytes crc (entries_frames crc (map Complete (c # cs))) =
      ?E @ frames_bytes crc (entries_frames crc (map Complete cs))"
    by (simp del: entry_frames.simps)
  show ?case
    unfolding append_commits.simps bytes
  proof (rule appends_bindS)
    show "appends view stable ?E s (append_group_commit crc ops c lsn batch s)"
      using Cons.prems unfolding bytes by (intro append_group_commit_appends) simp_all
    fix report :: wal_append_report and s1 assume "appends view stable ?E s (Inr report, s1)"
    note s1 = appends_ok [OF this]
    show "appends view stable (frames_bytes crc (entries_frames crc (map Complete cs))) s1
      (bindS (ok_orS (checked_add_u64 (report_commit_lsn report) 1) InternalInvariantViolation) (\<lambda>next_lsn.
       bindS (ok_orS (checked_add_u64 batch 1) InternalInvariantViolation) (\<lambda>next_batch_id.
         append_commits crc ops cs next_lsn next_batch_id (reports @ [report]) (com @ [committed_of c]))) s1)"
      using Cons.prems s1 unfolding bytes by (intro appends_bindS_ok_orS Cons.IH) simp_all
  qed
qed simp

lemma append_group_records_appends:
  assumes "wal_format_version (fst s) = WAL_FORMAT_VERSION"
    and "length (view (wal_file (fst s))) + length (frames_bytes crc (entries_frames crc (map Complete cs))) < 2 ^ 64"
  shows "appends view stable (frames_bytes crc (entries_frames crc (map Complete cs))) s
    (append_group_records crc ops cs s)"
  unfolding append_group_records_def
proof (rule appends_bindS_skip [OF appends_wal_hit], rule appends_bindS_skip [OF appends_wal_get],
    rule appends_bindS_skip [OF appends_wal_get], rule appends_bindS_last [OF append_commits_appends])
  fix u :: unit and lsn :: lsn and batch :: u64 and s1 s2 s3
  assume "appends view stable [] s (Inr u, s1)" "appends view stable [] s1 (Inr lsn, s2)"
    "appends view stable [] s2 (Inr batch, s3)"
  note s3 = appends_ok [OF this(1)] appends_ok [OF this(2)] appends_ok [OF this(3)]
  show "wal_format_version (fst s3) = WAL_FORMAT_VERSION"
    and "length (view (wal_file (fst s3))) + length (frames_bytes crc (entries_frames crc (map Complete cs))) < 2 ^ 64"
    using s3 assms by simp_all
qed (auto intro!: appends_bindS_skip [OF appends_wal_hit])

lemma append_group_outcome:
  fixes s :: "'f wal_state"
  defines "f \<equiv> wal_file (fst s)"
  assumes "wal_format_version (fst s) = WAL_FORMAT_VERSION"
    and "length (view f) + length (frames_bytes crc (entries_frames crc (map Complete cs))) < 2 ^ 64"
    and run: "append_group crc ops cs s = (r, s')"
  shows "\<exists>k. view (wal_file (fst s')) = view f @ take k (frames_bytes crc (entries_frames crc (map Complete cs)))"
    and "stable (wal_file (fst s')) = stable f \<or>
      (\<exists>k. stable (wal_file (fst s')) = take k (view f @ frames_bytes crc (entries_frames crc (map Complete cs))))"
    and "r = Inr reports \<Longrightarrow> stable (wal_file (fst s')) = view (wal_file (fst s')) \<and>
      view (wal_file (fst s')) = view f @ frames_bytes crc (entries_frames crc (map Complete cs)) \<and>
      wal_committed (fst s') = wal_committed (fst s) @ map committed_of cs"
proof -
  let ?G = "frames_bytes crc (entries_frames crc (map Complete cs))"
  have appended: "appends view stable ?G s (append_group_records crc ops cs s)"
    using assms by (intro append_group_records_appends) simp_all
  have "(\<exists>k. view (wal_file (fst s')) = view f @ take k ?G) \<and>
    (stable (wal_file (fst s')) = stable f \<or> (\<exists>k. stable (wal_file (fst s')) = take k (view f @ ?G))) \<and>
    (r = Inr reports \<longrightarrow> stable (wal_file (fst s')) = view (wal_file (fst s')) \<and>
      view (wal_file (fst s')) = view f @ ?G \<and>
      wal_committed (fst s') = wal_committed (fst s) @ map committed_of cs)"
  proof (cases "cs = []")
    case True
    then show ?thesis using run by (auto simp: append_group_def liftR_def f_def intro: exI [of _ 0])
  next
    case cs: False
    obtain r1 s1 where records: "append_group_records crc ops cs s = (r1, s1)"
      by (cases "append_group_records crc ops cs s") blast
    show ?thesis
    proof (cases r1)
      case (Inl e)
      then have "s' = s1" "r = Inl e"
        using run records cs by (auto simp: append_group_def bindS_def)
      then show ?thesis
        using appended records Inl by (auto simp: appends_def f_def)
    next
      case (Inr x)
      obtain lsn batch reps com where x: "x = (lsn, batch, reps, com)" by (cases x) auto
      have a: "appends view stable ?G s (Inr x, s1)" using appended records Inr by simp
      note s1 = appends_ok [OF a]
      obtain r2 f2 where sync: "df_sync_data ops (wal_file (fst s1)) = (r2, f2)"
        by (cases "df_sync_data ops (wal_file (fst s1))") blast
      have com: "com = map committed_of cs"
        using records Inr x by (auto simp: append_group_records_def bindS_eq_Inr returnS_def dest: append_commits_result)
      have com1: "wal_committed (fst s1) = wal_committed (fst s)"
        using arg_cong [OF s1(4), of wal_committed] by simp
      have v: "view f2 = view f @ ?G"
        using sync_data_view [OF sync] s1(1) by (simp add: f_def)
      show ?thesis
      proof (cases r2)
        case Inl2: (Inl e)
        then have "wal_file (fst s') = f2" "r = Inl DurabilityFailure"
          using run records cs Inr x sync by (auto simp: append_group_def bindS_def map_errS_def wal_io_def)
        then show ?thesis
          using v sync_data_torn [of "wal_file (fst s1)" e f2] sync Inl2 s1(1,2)
          by (auto simp: f_def simp del: take_append intro: exI [of _ "length ?G"])
      next
        case Inr2: (Inr u)
        have fin: "finish_group cs lsn batch reps com ((fst s1)\<lparr>wal_file := f2\<rparr>, snd s1) = (r, s')"
          using run records cs Inr x sync Inr2 by (auto simp: append_group_def bindS_def map_errS_def wal_io_def)
        have "stable f2 = view f @ ?G"
          using sync_data_stable sync Inr2 s1(1) by (auto simp: f_def)
        moreover have "wal_committed (fst s') = wal_committed (fst s) @ map committed_of cs" if "r = Inr reports"
          using finish_group_ok(1) [OF fin [unfolded that]] com com1 by simp
        moreover have "\<exists>k. view f @ ?G = take k (view f @ ?G)" "\<exists>k. view f @ ?G = view f @ take k ?G"
          by (metis take_all order_refl)+
        ultimately show ?thesis
          using finish_group_file [OF fin] v by simp
      qed
    qed
  qed
  then show "\<exists>k. view (wal_file (fst s')) = view f @ take k ?G"
    and "stable (wal_file (fst s')) = stable f \<or> (\<exists>k. stable (wal_file (fst s')) = take k (view f @ ?G))"
    and "r = Inr reports \<Longrightarrow> stable (wal_file (fst s')) = view (wal_file (fst s')) \<and>
      view (wal_file (fst s')) = view f @ ?G \<and>
      wal_committed (fst s') = wal_committed (fst s) @ map committed_of cs"
    by auto
qed

end

end
