(* ===== verification/Wal_Reopen.thy ===== *)
theory Wal_Reopen
  imports Wal_Crash
begin

text \<open>
  Opening a log again. Scanning only reads, so it keeps what is durable; opening a well-formed
  log that was cut anywhere behind its initialization frame truncates it to its complete frames
  and returns the commits among them. Together with what an interrupted group leaves behind this
  gives the atomicity of group commit for every file with the laws of \<open>log_file\<close>.
\<close>

lemma file_hit_None [simp]: "file_hit point (f, None) = (Inr (), (f, None))"
  by (simp add: file_hit_def hit_fault_None)

lemma scan_frames_step_keeps:
  assumes run: "scan_frames crc ops len offset prev frames f = (r, f')" and P: "P f"
    and keeps: "\<And>off n f r f'. wal_read_exact_at ops off n f = (r, f') \<Longrightarrow> P f \<Longrightarrow> P f'"
  shows "P f' \<or> (\<exists>offset' prev' frames' f3. P f3 \<and> unat len - unat offset' < unat len - unat offset \<and>
    scan_frames crc ops len offset' prev' frames' f3 = (r, f'))"
proof (cases "offset < len \<and> \<not> len - offset < 48")
  case False
  then show ?thesis using run P by (subst (asm) scan_frames.simps) (cases "offset < len"; simp add: Let_def)
next
  case True
  note run1 = run [unfolded scan_frames.simps [of crc ops len offset prev frames f] Let_def]
  obtain r1 f1 where read1: "wal_read_exact_at ops offset WAL_HEADER_SIZE f = (r1, f1)"
    by (cases "wal_read_exact_at ops offset WAL_HEADER_SIZE f") blast
  have P1: "P f1" using keeps [OF read1 P] .
  show ?thesis
  proof (cases "\<exists>hdr v ty n pn lsn b i o1. r1 = Inr hdr \<and> decode_header crc hdr = Inr (v, ty, n, pn, lsn, b, i) \<and>
      \<not> (n < WAL_MIN_FRAME_SIZE \<or> n \<noteq> WAL_HEADER_SIZE + pn + WAL_TRAILER_SIZE \<or> pn > WAL_MAX_PAYLOAD_SIZE) \<and>
      \<not> (frames \<noteq> [] \<and> fr_format_version (hd frames) \<noteq> v) \<and> \<not> len - offset < word_of_nat n \<and>
      checked_add_u64 offset 48 = Some o1")
    case False
    then have "f' = f1"
      using run1 True read1
      by (cases r1; cases "decode_header crc (projr r1)"; cases "checked_add_u64 offset 48")
        (auto split: if_split_asm)
    then show ?thesis using P1 by simp
  next
    case ok: True
    then obtain hdr v ty n pn lsn b i o1 where hdr: "r1 = Inr hdr" "decode_header crc hdr = Inr (v, ty, n, pn, lsn, b, i)"
      and n: "\<not> (n < WAL_MIN_FRAME_SIZE \<or> n \<noteq> WAL_HEADER_SIZE + pn + WAL_TRAILER_SIZE \<or> pn > WAL_MAX_PAYLOAD_SIZE)"
      and v: "\<not> (frames \<noteq> [] \<and> fr_format_version (hd frames) \<noteq> v)" and fits: "\<not> len - offset < word_of_nat n"
      and o1: "checked_add_u64 offset 48 = Some o1" by blast
    obtain r2 f2 where read2: "wal_read_exact_at ops o1 pn f1 = (r2, f2)"
      by (cases "wal_read_exact_at ops o1 pn f1") blast
    have P2: "P f2" using keeps [OF read2 P1] .
    note run2 = run1 [unfolded read1 hdr prod.case sum.case if_not_P [OF n] if_not_P [OF v] if_not_P [OF fits]
      o1 ok_or_simps read2]
    show ?thesis
    proof (cases "\<exists>payload o2. r2 = Inr payload \<and> checked_add_u64 offset (word_of_nat (WAL_HEADER_SIZE + pn)) = Some o2")
      case False
      then have "f' = f2"
        using run2 True
        by (cases r2; cases "checked_add_u64 offset (word_of_nat (WAL_HEADER_SIZE + pn))") auto
      then show ?thesis using P2 by simp
    next
      case ok2: True
      then obtain payload o2 where pay: "r2 = Inr payload" and
        o2: "checked_add_u64 offset (word_of_nat (WAL_HEADER_SIZE + pn)) = Some o2" by blast
      obtain r3 f3 where read3: "wal_read_exact_at ops o2 WAL_TRAILER_SIZE f2 = (r3, f3)"
        by (cases "wal_read_exact_at ops o2 WAL_TRAILER_SIZE f2") blast
      have P3: "P f3" using keeps [OF read3 P2] .
      have "unat len - unat (offset + word_of_nat n) < unat len - unat offset"
        using scan_frames_decreases [of offset len n] True n fits by auto
      then show ?thesis
        using run2 True pay o2 read3 P3
        by (cases r3; cases "verify_payload_checksum crc hdr payload") (auto split: if_split_asm)
    qed
  qed
qed

lemma scan_frames_keeps:
  assumes "scan_frames crc ops len offset prev frames f = (r, f')" "P f"
    and "\<And>off n f r f'. wal_read_exact_at ops off n f = (r, f') \<Longrightarrow> P f \<Longrightarrow> P f'"
  shows "P f'"
  using assms(1,2)
proof (induction "unat len - unat offset" arbitrary: offset prev frames f rule: less_induct)
  case less
  have "P f' \<or> (\<exists>offset' prev' frames' f3. P f3 \<and> unat len - unat offset' < unat len - unat offset \<and>
      scan_frames crc ops len offset' prev' frames' f3 = (r, f'))"
    by (rule scan_frames_step_keeps [where P = P, OF less.prems]) (erule (1) assms(3))
  then show ?case using less.hyps by blast
qed

lemma commits_of_Complete [simp]: "commits_of (map Complete cs) = cs"
  by (induction cs) auto

lemma cut_entries_0 [simp]: "cut_entries crc 0 (map Complete cs) = []"
  by (cases cs) auto

lemma log_bytes_append:
  "log_bytes crc identity start (es @ ds) = log_bytes crc identity start es @ frames_bytes crc (entries_frames crc ds)"
  by (simp add: log_bytes_def log_frames_def frames_bytes_def)

lemma log_bytes_init:
  "log_ok crc identity start es \<Longrightarrow> INIT_FRAME_SIZE \<le> length (log_bytes crc identity start es)"
  using length_init_frame_bytes [of identity crc start] by (simp add: log_bytes_def log_frames_def log_ok_def)

locale log_file = reliable_file ops view healthy + crash_file ops view stable
  for ops :: "'f durable_file_ops" and view :: "'f \<Rightarrow> bytes" and healthy :: "'f \<Rightarrow> bool" and stable :: "'f \<Rightarrow> bytes"
begin

lemma read_loop_stable:
  "read_loop ops offset_of eof len acc f = (r, f') \<Longrightarrow> stable f' = stable f"
proof (induction "len - length acc" arbitrary: acc f rule: less_induct)
  case less
  show ?case
  proof (cases "\<exists>off bs f1. length acc < len \<and> offset_of (length acc) = Inr off \<and>
      df_read_at ops off (len - length acc) f = (Inr bs, f1) \<and> bs \<noteq> []")
    case True
    then obtain bs f1 where "read_loop ops offset_of eof len (acc @ bs) f1 = (r, f')"
      "stable f1 = stable f" "len - length (acc @ bs) < len - length acc"
      using less.prems read_stable
      by (subst (asm) read_loop.simps) (fastforce intro: diff_less_mono2)
    then show ?thesis using less.hyps by metis
  next
    case False
    then show ?thesis
      using less.prems read_stable
      by (subst (asm) read_loop.simps) (auto split: if_splits sum.splits prod.splits)
  qed
qed

lemma scan_wal_stable:
  assumes "scan_wal crc ops identity f = (r, f')"
  shows "stable f' = stable f"
proof -
  have "stable f1 = stable f" if "scan_frames crc ops len 0 None [] f = (r1, f1)" for len r1 f1
    using scan_frames_keeps [where P = "\<lambda>f'. stable f' = stable f", OF that] read_loop_stable
    by (simp add: wal_read_exact_at_def)
  then show ?thesis
    using assms by (auto simp: scan_wal_def split: sum.splits prod.splits)
qed

lemma wal_open_cut:
  assumes "healthy f" "log_ok crc identity start es" "length (view f) < 2 ^ 64" "stable f = view f"
    and "view f = take k (log_bytes crc identity start es)" "INIT_FRAME_SIZE \<le> k"
  shows "\<exists>m w f'. wal_open crc ops identity start_after (f, None) = (Inr w, (f', None)) \<and> wal_file w = f' \<and> healthy f' \<and>
    view f' = log_bytes crc identity start (cut_entries crc m es) \<and> stable f' = view f' \<and>
    wal_format_version w = WAL_FORMAT_VERSION \<and> wal_identity w = identity \<and>
    wal_committed w = map committed_of (commits_of (cut_entries crc m es)) \<and>
    unat (wal_next_lsn w) = fst (log_end start (cut_entries crc m es)) + 1 \<and>
    unat (wal_next_batch_id w) = snd (log_end start (cut_entries crc m es)) + 1 \<and>
    (\<forall>m'. length (log_bytes crc identity start (cut_entries crc m' es)) \<le> k \<longrightarrow>
       length (entries_frames crc (cut_entries crc m' es)) \<le> m)"
proof -
  obtain m scan f1 where scan: "scan_wal crc ops identity f = (Inr scan, f1)" "healthy f1" "view f1 = view f"
    and log: "take (unat (scan_valid_length scan)) (view f) = log_bytes crc identity start (cut_entries crc m es)"
      "unat (scan_valid_length scan) = length (log_bytes crc identity start (cut_entries crc m es))"
    and rest: "scan_committed scan = map committed_of (commits_of (cut_entries crc m es))"
      "scan_format_version scan = WAL_FORMAT_VERSION"
      "unat (scan_next_lsn scan) = fst (log_end start (cut_entries crc m es)) + 1"
      "unat (scan_next_batch_id scan) = snd (log_end start (cut_entries crc m es)) + 1"
      "\<forall>m'. length (log_bytes crc identity start (cut_entries crc m' es)) \<le> k \<longrightarrow>
         length (entries_frames crc (cut_entries crc m' es)) \<le> m"
    using scan_wal_cut [OF assms(1,2,3,5,6)] by blast
  let ?V = "unat (scan_valid_length scan)" and ?len = "word_of_nat (length (view f)) :: u64"
  have len: "unat ?len = length (view f)" using assms(3) by (simp add: unat_u64_of_nat)
  have long: "INIT_FRAME_SIZE \<le> length (view f)"
    using assms(2,5,6) length_init_frame_bytes [of identity crc start]
    by (simp add: log_bytes_def log_frames_def log_ok_def)
  have stable1: "stable f1 = view f" using scan_wal_stable [OF scan(1)] assms(4) by simp
  obtain f2 where f2: "df_set_len ops (scan_valid_length scan) f1 = (Inr (), f2)" "healthy f2"
    using healthy_set_len [OF scan(2)] by blast
  obtain f3 where f3: "df_sync_data ops f2 = (Inr (), f3)" "healthy f3"
    using healthy_sync_data [OF f2(2)] by blast
  have le: "?V \<le> length (view f)" using arg_cong [OF log(1), of length] log(2) by simp
  have view3: "view f3 = take ?V (view f)" "stable f3 = view f3"
    using set_len_ok [OF f2(1)] sync_data_view [OF f3(1)] sync_data_stable [OF f3(1)] scan(3) le
    by (simp_all add: resize_shrink)
  have open_eq: "wal_open crc ops identity start_after (f, None) = wal_open_from_scan crc ops identity ?len (f, None)"
  proof -
    have "?len \<noteq> 0" using long len by (metis unat_0 le_zero_eq zero_neq_numeral)
    moreover have "\<not> unat ?len < INIT_FRAME_SIZE" using long len by simp
    ultimately show ?thesis
      using healthy_len [OF assms(1,3)] unfolding wal_open_def bindS_def file_io_def returnS_def by simp
  qed
  define f' where "f' = (if scan_valid_length scan < ?len then f3 else f1)"
  define w where "w = \<lparr>wal_file = f', wal_identity = identity, wal_format_version = scan_format_version scan,
    wal_next_lsn = scan_next_lsn scan, wal_next_batch_id = scan_next_batch_id scan,
    wal_history_start_lsn = scan_history_start_lsn scan, wal_committed = scan_committed scan,
    wal_scan_report = (scan_report scan)\<lparr>torn_tail_bytes := unat (?len - scan_valid_length scan)\<rparr>,
    wal_sync_count = 0, wal_page_images = replayable_pages (scan_report scan)\<rparr>"
  have "wal_open crc ops identity start_after (f, None) = (Inr w, (f', None))"
    using scan(1) f2(1) f3(1) unfolding open_eq wal_open_from_scan_def
    by (simp add: w_def f'_def bindS_def file_io_def map_errS_def Let_def returnS_def)
  moreover have "view f' = take ?V (view f)" "stable f' = view f'" "healthy f'"
    using view3 scan(2,3) f3(2) stable1 le len by (auto simp: f'_def word_less_nat_alt)
  ultimately show ?thesis
    using log(1) rest by (intro exI [of _ m] exI [of _ w] exI [of _ f']) (simp add: w_def)
qed

lemma group_commit_atomic:
  assumes ok: "log_ok crc identity start (es @ map Complete cs)"
    and size: "length (log_bytes crc identity start (es @ map Complete cs)) < 2 ^ 64"
    and log: "view (wal_file (fst s)) = log_bytes crc identity start es" "stable (wal_file (fst s)) = view (wal_file (fst s))"
      "wal_format_version (fst s) = WAL_FORMAT_VERSION"
    and run: "append_group crc ops cs s = (r, s')"
    and kept: "length (stable (wal_file (fst s))) \<le> length (stable (wal_file (fst s')))"
    and restart: "healthy g" "view g = stable (wal_file (fst s'))" "stable g = view g"
  shows "\<exists>m w g' es'. wal_open crc ops identity start_after (g, None) = (Inr w, (g', None)) \<and> wal_file w = g' \<and>
    wal_committed w = map committed_of (commits_of es @ take m cs) \<and> (is_ok r \<longrightarrow> take m cs = cs) \<and>
    healthy g' \<and> view g' = log_bytes crc identity start es' \<and> stable g' = view g' \<and>
    wal_format_version w = WAL_FORMAT_VERSION \<and> log_ok crc identity start es' \<and>
    commits_of es' = commits_of es @ take m cs \<and>
    unat (wal_next_lsn w) = fst (log_end start es') + 1 \<and> unat (wal_next_batch_id w) = snd (log_end start es') + 1"
proof -
  let ?D = "map Complete cs" and ?L = "length (log_bytes crc identity start es)"
  let ?all = "log_bytes crc identity start (es @ ?D)" and ?n = "length (entries_frames crc es)"
  note append = log_bytes_append [of crc identity start es ?D]
  have room: "length (view (wal_file (fst s))) + length (frames_bytes crc (entries_frames crc ?D)) < 2 ^ 64"
    using size log(1) append by simp
  note outcome = append_group_outcome [OF log(3) room run]
  obtain k where k: "stable (wal_file (fst s')) = take k ?all" "?L \<le> k" "is_ok r \<longrightarrow> length ?all \<le> k"
  proof (cases "is_ok r")
    case True
    then show ?thesis
      using that [of "length ?all"] outcome(3) log append by (auto simp: is_ok_iff)
  next
    case False
    have "\<exists>k. stable (wal_file (fst s')) = take k ?all"
      using outcome(2) log append by (auto intro: exI [of _ ?L])
    then obtain k where k: "stable (wal_file (fst s')) = take k ?all" ..
    have "?L \<le> k" using kept log unfolding k by simp
    then show ?thesis using that k False by blast
  qed
  have view_g: "view g = take k ?all" "INIT_FRAME_SIZE \<le> k" "length (view g) < 2 ^ 64"
    using restart(2) k(1,2) size log_bytes_init [of crc identity start es] ok
    by (auto simp: log_ok_def entries_ok_append)
  obtain m w g' where w: "wal_open crc ops identity start_after (g, None) = (Inr w, (g', None))" "wal_file w = g'"
      "healthy g'" "view g' = log_bytes crc identity start (cut_entries crc m (es @ ?D))" "stable g' = view g'"
      "wal_format_version w = WAL_FORMAT_VERSION"
      "wal_committed w = map committed_of (commits_of (cut_entries crc m (es @ ?D)))"
      "unat (wal_next_lsn w) = fst (log_end start (cut_entries crc m (es @ ?D))) + 1"
      "unat (wal_next_batch_id w) = snd (log_end start (cut_entries crc m (es @ ?D))) + 1"
    and max: "\<And>m'. length (log_bytes crc identity start (cut_entries crc m' (es @ ?D))) \<le> k \<Longrightarrow>
       length (entries_frames crc (cut_entries crc m' (es @ ?D))) \<le> m"
    using wal_open_cut [OF restart(1) ok view_g(3) restart(3) view_g(1,2)] by blast
  have "?n \<le> m"
    using max [of ?n] k(2) cut_entries_keeps [of crc es ?n ?D] by simp
  then have cut: "cut_entries crc m (es @ ?D) = es @ cut_entries crc (m - ?n) ?D"
    by (rule cut_entries_keeps)
  obtain j where j: "commits_of (cut_entries crc (m - ?n) ?D) = take j cs"
    using cut_entries_commits [of crc "m - ?n" ?D] by (auto simp: prefix_def) (metis append_eq_conv_conj)
  have "take j cs = cs" if "is_ok r"
  proof -
    have "length (entries_frames crc (es @ ?D)) \<le> m"
      using max [of "length (entries_frames crc (es @ ?D))"] k(3) that by (simp add: cut_entries_all)
    then have "cut_entries crc m (es @ ?D) = es @ ?D" by (rule cut_entries_all)
    then show ?thesis using cut j by simp
  qed
  then show ?thesis
    using w cut j cut_log_ok [OF ok, of m]
    by (intro exI [of _ j] exI [of _ w] exI [of _ g'] exI [of _ "cut_entries crc m (es @ ?D)"]) simp
qed

end

end
