(* ===== verification/Wal_Progress.thy ===== *)
theory Wal_Progress
  imports Wal_Reopen
begin

text \<open>
  Progress of the log: on a file without faults and with no injected crash, a group whose LSNs
  and batch ids continue the log is appended, synced and reported.
\<close>

fun commits_follow :: "(bytes \<Rightarrow> u32) \<Rightarrow> lsn \<Rightarrow> u64 \<Rightarrow> wal_commit list \<Rightarrow> bool" where
  "commits_follow crc lsn batch [] = True"
| "commits_follow crc lsn batch (c # cs) =
     (commit_wf crc c \<and> first_lsn c = lsn \<and> wc_batch_id c = batch \<and>
      commits_follow crc (wc_commit_lsn c + 1) (batch + 1) cs)"

lemma wal_hit_None [simp]: "wal_hit point (w, None) = (Inr (), (w, None))"
  by (simp add: wal_hit_def)

lemma count_records_Some:
  "n + count_pages cs + length cs < 2 ^ 64 \<Longrightarrow> count_records cs n = Some (n + count_pages cs + length cs)"
  by (induction cs arbitrary: n) (auto simp: count_pages_def checked_add_usize_def)

text \<open>The counters of the log have room for the group.\<close>

definition group_fits :: "wal_commit list \<Rightarrow> 'f wal_log \<Rightarrow> bool" where
  "group_fits cs w \<longleftrightarrow> unat (wal_sync_count w) < 2 ^ 64 - 1 \<and>
     records_scanned (wal_scan_report w) + count_pages cs + length cs < 2 ^ 64 \<and>
     wal_page_images w + count_pages cs < 2 ^ 64"

lemma finish_group_returns:
  assumes "group_fits cs w"
  shows "\<exists>w'. finish_group cs lsn batch reports com (w, None) = (Inr reports, (w', None))"
proof -
  have "checked_add_u64 (wal_sync_count w) 1 = Some (wal_sync_count w + 1)"
    using assms by (simp add: group_fits_def checked_add_u64_def)
  then show ?thesis
    using assms count_records_Some [of 0 cs]
    by (simp add: finish_group_def bindS_def wal_get_def wal_modify_def ok_orS_def liftR_def returnS_def
        group_fits_def checked_add_usize_def)
qed

context log_file
begin

lemma wal_write_returns:
  assumes "healthy (wal_file w)" "unat off = length (view (wal_file w))" "unat off + length bs < 2 ^ 64"
  shows "\<exists>f'. wal_io (wal_write_all_at ops off bs) (w, None) = (Inr (), (w\<lparr>wal_file := f'\<rparr>, None)) \<and>
    healthy f' \<and> view f' = view (wal_file w) @ bs"
  using wal_write_all_at_returns [OF assms(1), of off bs] assms(2,3) splice_append [of "view (wal_file w)" bs]
  by (auto simp: wal_io_def)

lemma append_frame_returns:
  assumes "healthy (wal_file w)" "wal_format_version w = fr_format_version fr"
    and "length (fr_payload fr) \<le> WAL_MAX_PAYLOAD_SIZE"
    and room: "length (view (wal_file w)) + length (frame_bytes crc fr) < 2 ^ 64"
  shows "\<exists>f'. append_frame crc ops (fr_record_type fr) (fr_record_lsn fr) (fr_batch_id fr) (fr_record_index fr)
      (fr_payload fr) (w, None) = (Inr (length (frame_bytes crc fr)), (w\<lparr>wal_file := f'\<rparr>, None)) \<and>
    healthy f' \<and> view f' = view (wal_file w) @ frame_bytes crc fr"
proof -
  let ?n = "length (fr_payload fr)" and ?V = "view (wal_file w)" and ?frame = "frame_bytes crc fr"
  let ?h = "take 48 ?frame" and ?p = "byte_slice 48 (48 + ?n) ?frame" and ?t = "drop (48 + ?n) ?frame"
  let ?off = "word_of_nat (length ?V) :: u64"
  have enc: "encode_frame crc (fr_format_version fr) (fr_record_type fr) (fr_record_lsn fr) (fr_batch_id fr)
      (fr_record_index fr) (fr_payload fr) = Inr ?frame"
    using encode_frame_bytes [OF assms(3)] by (simp add: frame_eta)
  have split: "?frame = ?h @ ?p @ ?t"
    by (simp add: byte_slice_def) (metis append_take_drop_id drop_drop add.commute)
  have lens: "length ?h = 48" "length ?p = ?n" "length ?frame = 52 + ?n" "length ?t = 4"
    by (simp_all add: length_frame_bytes)
  have off: "unat ?off = length ?V" using room by (simp add: unat_u64_of_nat)
  obtain f1 where f1: "wal_io (wal_write_all_at ops ?off ?h) (w, None) = (Inr (), (w\<lparr>wal_file := f1\<rparr>, None))"
    "healthy f1" "view f1 = ?V @ ?h"
    using wal_write_returns [OF assms(1), of ?off ?h] off room lens by auto
  obtain po where po: "checked_add_u64 ?off 48 = Some po" "unat po = length ?V + 48"
    using off room lens by (auto simp: checked_add_u64_def unat_word_ariths)
  obtain f2 where f2: "wal_io (wal_write_all_at ops po ?p) (w\<lparr>wal_file := f1\<rparr>, None) = (Inr (), (w\<lparr>wal_file := f2\<rparr>, None))"
    "healthy f2" "view f2 = view f1 @ ?p"
    using wal_write_returns [of "w\<lparr>wal_file := f1\<rparr>" po ?p] f1(2,3) po(2) room lens by auto
  have n: "unat (word_of_nat (48 + ?n) :: u64) = 48 + ?n"
    using assms(3) by (simp add: unat_u64_of_nat del: of_nat_add)
  obtain too where too: "checked_add_u64 ?off (word_of_nat (48 + ?n)) = Some too" "unat too = length ?V + (48 + ?n)"
    using off n room lens by (auto simp: checked_add_u64_def unat_word_ariths simp del: of_nat_add)
  obtain f3 where f3: "wal_io (wal_write_all_at ops too ?t) (w\<lparr>wal_file := f2\<rparr>, None) = (Inr (), (w\<lparr>wal_file := f3\<rparr>, None))"
    "healthy f3" "view f3 = view f2 @ ?t"
    using wal_write_returns [of "w\<lparr>wal_file := f2\<rparr>" too ?t] f2(2,3) f1(3) too(2) room lens by auto
  have len: "wal_len ops (w, None) = (Inr ?off, (w, None))"
    using healthy_len [OF assms(1)] room by (simp add: wal_len_def wal_io_def)
  have "view f3 = ?V @ ?frame" using f1(3) f2(3) f3(3) split by simp
  then show ?thesis
    using f1(1) f2(1) f3(1,2) po(1) too(1) len enc assms(2)
    by (intro exI [of _ f3])
      (simp add: append_frame_def bindS_def wal_get_def liftR_def ok_orS_def returnS_def Let_def del: of_nat_add)
qed

lemma append_page_images_returns:
  assumes "healthy (wal_file w)" "wal_format_version w = WAL_FORMAT_VERSION" "commit_wf crc c"
    and "pages = drop i (wc_pages c)" "i \<le> length (wc_pages c)"
    and "length (view (wal_file w)) + length (frames_bytes crc (map (page_frame c) [i..<length (wc_pages c)])) < 2 ^ 64"
    and "n + length (frames_bytes crc (map (page_frame c) [i..<length (wc_pages c)])) < 2 ^ 64"
  shows "\<exists>f' d. append_page_images crc ops c (first_lsn c) i pages digest n (w, None) =
      (Inr (d, n + length (frames_bytes crc (map (page_frame c) [i..<length (wc_pages c)]))), (w\<lparr>wal_file := f'\<rparr>, None)) \<and>
    healthy f' \<and> view f' = view (wal_file w) @ frames_bytes crc (map (page_frame c) [i..<length (wc_pages c)])"
  using assms
proof (induction pages arbitrary: i digest n w)
  case Nil
  then show ?case by (intro exI [of _ "wal_file w"] exI [of _ digest]) (simp add: returnS_def)
next
  case (Cons page pages)
  let ?n = "length (wc_pages c)" and ?fr = "page_frame c i"
  have "i < ?n" using Cons.prems(4) by (metis drop_all leI list.distinct(1))
  then have i: "i < ?n" "page = wc_pages c ! i" "pages = drop (Suc i) (wc_pages c)"
    using Cons.prems(4) by (simp_all flip: Cons_nth_drop_Suc)
  note frames = frames_bytes_pages_Cons [OF i(1), of crc c]
  have page: "validate_page_image_lsn page (wc_commit_lsn c) = Inr ()" "encode_page_image crc page = Inr (page_payload page)"
    using Cons.prems(3) i by (simp_all add: commit_wf_def encode_page_image_def page_payload_def)
  have lsn: "checked_add_u64 (first_lsn c) (word_of_nat i) = Some (fr_record_lsn ?fr)"
    and idx: "try_u32 i = Some (fr_record_index ?fr)"
    using Cons.prems(3) i(1) unat_first_lsn(1) [OF Cons.prems(3)] unat_u64_of_nat [of i]
    by (auto simp: checked_add_u64_def try_u32_def page_frame_def commit_wf_def)
  have "length (fr_payload ?fr) \<le> WAL_MAX_PAYLOAD_SIZE"
    using length_page_payload [OF Cons.prems(3) i(1)] by (simp add: page_frame_def)
  then obtain f1 where f1: "append_frame crc ops (fr_record_type ?fr) (fr_record_lsn ?fr) (fr_batch_id ?fr) (fr_record_index ?fr)
      (fr_payload ?fr) (w, None) = (Inr (length (frame_bytes crc ?fr)), (w\<lparr>wal_file := f1\<rparr>, None))"
    "healthy f1" "view f1 = view (wal_file w) @ frame_bytes crc ?fr"
    using append_frame_returns [of w ?fr crc] Cons.prems(1,2,6) frames by auto
  obtain f2 d where f2: "append_page_images crc ops c (first_lsn c) (Suc i) pages (digest @ page_payload page)
        (n + length (frame_bytes crc ?fr)) (w\<lparr>wal_file := f1\<rparr>, None) =
      (Inr (d, n + length (frame_bytes crc ?fr) + length (frames_bytes crc (map (page_frame c) [Suc i..<?n]))),
        (w\<lparr>wal_file := f1\<rparr>\<lparr>wal_file := f2\<rparr>, None))" "healthy f2"
    "view f2 = view f1 @ frames_bytes crc (map (page_frame c) [Suc i..<?n])"
    using Cons.IH [of "w\<lparr>wal_file := f1\<rparr>" "Suc i" "n + length (frame_bytes crc ?fr)" "digest @ page_payload page"]
      f1(2,3) Cons.prems(2,3,6,7) i frames by auto
  have fr: "fr_record_type ?fr = WalPageImage" "fr_batch_id ?fr = wc_batch_id c" "fr_payload ?fr = page_payload page"
    by (simp_all add: page_frame_def i(2))
  have "n + length (frame_bytes crc ?fr) < 2 ^ 64" using Cons.prems(7) frames by simp
  then show ?case
    using page lsn idx f1(1) [unfolded fr] f1(3) f2
    by (intro exI [of _ f2] exI [of _ d])
      (simp add: frames bindS_def liftR_def ok_orS_def checked_add_usize_def)
qed

lemma append_commit_record_returns:
  assumes "healthy (wal_file w)" "wal_format_version w = WAL_FORMAT_VERSION" "commit_wf crc c"
    and "length (view (wal_file w)) + length (frame_bytes crc (commit_frame crc c)) < 2 ^ 64"
    and "n + length (frame_bytes crc (commit_frame crc c)) < 2 ^ 64"
    and "d = concat (map page_payload (wc_pages c))"
  shows "\<exists>f' report. append_commit_record crc ops c (first_lsn c) d n (w, None) = (Inr report, (w\<lparr>wal_file := f'\<rparr>, None)) \<and>
    healthy f' \<and> view f' = view (wal_file w) @ frame_bytes crc (commit_frame crc c)"
proof -
  let ?fr = "commit_frame crc c"
  have idx: "try_u32 (length (wc_pages c)) = Some (word_of_nat (length (wc_pages c)))"
    using assms(3) by (simp add: try_u32_def commit_wf_def)
  have fr: "fr_record_type ?fr = WalCommitRecord" "fr_record_lsn ?fr = wc_commit_lsn c" "fr_batch_id ?fr = wc_batch_id c"
    "fr_record_index ?fr = word_of_nat (length (wc_pages c))"
    "fr_payload ?fr = commit_payload (first_lsn c) (word_of_nat (length (wc_pages c))) (crc d)"
    by (simp_all add: commit_frame_def assms(6))
  obtain f1 where "append_frame crc ops (fr_record_type ?fr) (fr_record_lsn ?fr) (fr_batch_id ?fr) (fr_record_index ?fr)
      (fr_payload ?fr) (w, None) = (Inr (length (frame_bytes crc ?fr)), (w\<lparr>wal_file := f1\<rparr>, None))"
    "healthy f1" "view f1 = view (wal_file w) @ frame_bytes crc ?fr"
    using append_frame_returns [of w ?fr crc] assms(1,2,4)
    by (auto simp: fr(5) length_commit_payload)
  then show ?thesis
    using idx assms(5) unfolding fr
    by (simp add: append_commit_record_def bindS_def ok_orS_def liftR_def checked_add_usize_def returnS_def)
      blast
qed

lemma append_group_commit_returns:
  assumes "healthy (wal_file w)" "wal_format_version w = WAL_FORMAT_VERSION" "commit_wf crc c"
    and "length (view (wal_file w)) + length (frames_bytes crc (entry_frames crc (Complete c))) < 2 ^ 64"
  shows "\<exists>f' report. append_group_commit crc ops c (first_lsn c) (wc_batch_id c) (w, None) =
      (Inr report, (w\<lparr>wal_file := f'\<rparr>, None)) \<and>
    healthy f' \<and> view f' = view (wal_file w) @ frames_bytes crc (entry_frames crc (Complete c))"
proof -
  let ?n = "length (wc_pages c)"
  let ?P = "frames_bytes crc (map (page_frame c) [0..<?n])" and ?C = "frame_bytes crc (commit_frame crc c)"
  have bytes: "frames_bytes crc (entry_frames crc (Complete c)) = ?P @ ?C" by simp
  have room: "length ?P + length ?C < 2 ^ 64" "length (view (wal_file w)) + length ?P + length ?C < 2 ^ 64"
    using assms(4) unfolding bytes by simp_all
  obtain f1 d where f1: "append_page_images crc ops c (first_lsn c) 0 (wc_pages c) [] 0 (w, None) =
      (Inr (d, 0 + length ?P), (w\<lparr>wal_file := f1\<rparr>, None))" "healthy f1" "view f1 = view (wal_file w) @ ?P"
    using append_page_images_returns [OF assms(1-3), of "wc_pages c" 0 0 "[]"] room by auto
  have d: "d = concat (map page_payload (wc_pages c))"
    using append_page_images_digest [OF f1(1)] by simp
  obtain f2 report where f2: "append_commit_record crc ops c (first_lsn c) d (length ?P) (w\<lparr>wal_file := f1\<rparr>, None) =
      (Inr report, (w\<lparr>wal_file := f1\<rparr>\<lparr>wal_file := f2\<rparr>, None))" "healthy f2" "view f2 = view f1 @ ?C"
    using append_commit_record_returns [of "w\<lparr>wal_file := f1\<rparr>" crc c "length ?P" d] f1(2,3) assms(2,3) room d by auto
  have n: "?n < 2 ^ 32" "unat (word_of_nat ?n :: u64) = ?n" "wc_pages c \<noteq> []"
    using assms(3) by (simp_all add: commit_wf_def unat_u64_of_nat)
  have "checked_add_u64 (first_lsn c) (word_of_nat ?n) = Some (wc_commit_lsn c)"
    using unat_first_lsn(1,3) [OF assms(3)] assms(3) n by (simp add: checked_add_u64_def commit_wf_def)
  moreover have "checked_mul_usize ?n PAGE_IMAGE_PAYLOAD_SIZE = Some (?n * PAGE_IMAGE_PAYLOAD_SIZE)"
    using n(1) by (simp add: checked_mul_usize_def)
  ultimately show ?thesis
    using f1 f2 n unfolding bytes
    by (intro exI [of _ f2] exI [of _ report])
      (simp add: append_group_commit_def Let_def bindS_def ok_orS_def liftR_def)
qed

lemma append_commits_returns:
  assumes "healthy (wal_file w)" "wal_format_version w = WAL_FORMAT_VERSION" "commits_follow crc lsn batch cs"
    and "length (view (wal_file w)) + length (frames_bytes crc (entries_frames crc (map Complete cs))) < 2 ^ 64"
  shows "\<exists>f' res. append_commits crc ops cs lsn batch reports com (w, None) = (Inr res, (w\<lparr>wal_file := f'\<rparr>, None)) \<and>
    healthy f' \<and> view f' = view (wal_file w) @ frames_bytes crc (entries_frames crc (map Complete cs))"
  using assms
proof (induction cs arbitrary: lsn batch reports com w)
  case Nil
  then show ?case by (intro exI [of _ "wal_file w"]) (simp add: returnS_def)
next
  case (Cons c cs)
  let ?E = "frames_bytes crc (entry_frames crc (Complete c))"
  have c: "commit_wf crc c" "lsn = first_lsn c" "batch = wc_batch_id c"
    "commits_follow crc (wc_commit_lsn c + 1) (batch + 1) cs"
    using Cons.prems(3) by simp_all
  obtain f1 report where f1: "append_group_commit crc ops c lsn batch (w, None) =
      (Inr report, (w\<lparr>wal_file := f1\<rparr>, None))" "healthy f1" "view f1 = view (wal_file w) @ ?E"
    using append_group_commit_returns [OF Cons.prems(1,2) c(1)] Cons.prems(4) c(2,3)
    by (auto simp del: entry_frames.simps)
  have add: "checked_add_u64 (wc_commit_lsn c) 1 = Some (wc_commit_lsn c + 1)"
    "checked_add_u64 batch 1 = Some (batch + 1)"
    using c(1) by (simp_all add: c(3) checked_add_u64_def commit_wf_def)
  have "\<exists>f2 res. append_commits crc ops cs (wc_commit_lsn c + 1) (batch + 1) (reports @ [report])
      (com @ [committed_of c]) (w\<lparr>wal_file := f1\<rparr>, None) = (Inr res, (w\<lparr>wal_file := f1\<rparr>\<lparr>wal_file := f2\<rparr>, None)) \<and>
    healthy f2 \<and> view f2 = view (wal_file (w\<lparr>wal_file := f1\<rparr>)) @ frames_bytes crc (entries_frames crc (map Complete cs))"
    using f1(2,3) Cons.prems(2,4) c(4) by (intro Cons.IH) (simp_all del: entry_frames.simps)
  then obtain f2 res where "append_commits crc ops cs (wc_commit_lsn c + 1) (batch + 1) (reports @ [report])
      (com @ [committed_of c]) (w\<lparr>wal_file := f1\<rparr>, None) = (Inr res, (w\<lparr>wal_file := f1\<rparr>\<lparr>wal_file := f2\<rparr>, None))"
    "healthy f2" "view f2 = view f1 @ frames_bytes crc (entries_frames crc (map Complete cs))"
    by auto
  then show ?case
    using f1 add append_group_commit_report [OF f1(1)]
    by (intro exI [of _ f2] exI [of _ res])
      (simp add: bindS_def ok_orS_def liftR_def del: entry_frames.simps)
qed

lemma append_group_returns:
  assumes "healthy (wal_file w)" "wal_format_version w = WAL_FORMAT_VERSION" "cs \<noteq> []" "group_fits cs w"
    and "commits_follow crc (wal_next_lsn w) (wal_next_batch_id w) cs"
    and "length (view (wal_file w)) + length (frames_bytes crc (entries_frames crc (map Complete cs))) < 2 ^ 64"
  shows "\<exists>reports w'. append_group crc ops cs (w, None) = (Inr reports, (w', None)) \<and> healthy (wal_file w')"
proof -
  obtain f1 res where f1: "append_commits crc ops cs (wal_next_lsn w) (wal_next_batch_id w) [] [] (w, None) =
      (Inr res, (w\<lparr>wal_file := f1\<rparr>, None))" "healthy f1"
    using append_commits_returns [OF assms(1,2,5,6), of "[]" "[]"] by auto
  obtain lsn batch reports com where res: "res = (lsn, batch, reports, com)" by (cases res) auto
  have records: "append_group_records crc ops cs (w, None) = (Inr res, (w\<lparr>wal_file := f1\<rparr>, None))"
    using f1(1) by (simp add: append_group_records_def bindS_def wal_get_def returnS_def)
  obtain f2 where f2: "df_sync_data ops f1 = (Inr (), f2)" "healthy f2"
    using healthy_sync_data [OF f1(2)] by blast
  obtain w' where w': "finish_group cs lsn batch reports com (w\<lparr>wal_file := f2\<rparr>, None) = (Inr reports, (w', None))"
    using finish_group_returns [of cs "w\<lparr>wal_file := f2\<rparr>" lsn batch reports com] assms(4)
    by (auto simp: group_fits_def)
  have "healthy (wal_file w')" using finish_group_file [OF w'] f2(2) by simp
  then show ?thesis
    using records f2(1) w' assms(3) res by (simp add: append_group_def bindS_def map_errS_def wal_io_def)
qed

end

interpretation crashable: log_file crashable_ops volatile fault_free durable ..

section \<open>A concrete log\<close>

definition example_identity :: wal_identity where
  "example_identity = \<lparr>wi_database_uuid = replicate 16 0, wi_tenant_id = 1, wi_shard_id = 1, wi_shard_epoch = 1\<rparr>"

definition example_commit :: wal_commit where
  "example_commit = \<lparr>wc_batch_id = 1, wc_commit_lsn = 2,
     wc_pages = [\<lparr>wpi_page_id = 2, wpi_image = projr (encode_page (\<lambda>_. 0) (page_header_new PtFree 2 2) [])\<rparr>]\<rparr>"

definition example_log :: "crashable_file wal_log" where
  "example_log =
     \<lparr>wal_file = crashable_from_durable (log_bytes (\<lambda>_. 0) example_identity 0 []),
      wal_identity = example_identity, wal_format_version = WAL_FORMAT_VERSION, wal_next_lsn = 1,
      wal_next_batch_id = 1, wal_history_start_lsn = 0, wal_committed = [],
      wal_scan_report = empty_scan_report, wal_sync_count = 0, wal_page_images = 0\<rparr>"

lemma example_commit_wf: "commit_wf (\<lambda>_. 0) example_commit"
proof -
  obtain bs where bs: "encode_page (\<lambda>_. 0) (page_header_new PtFree 2 2) [] = Inr bs"
    using encode_page_ok [of "\<lambda>_. 0" "page_header_new PtFree 2 2" "[]"] by (auto simp: page_header_new_def)
  have "decode_page_at (\<lambda>_. 0) bs (Some 2) \<noteq> Inl e" for e
    using decode_encode_page [OF bs, of "Some 2"] by (simp add: page_header_new_def)
  then have "validate_page_image (\<lambda>_. 0) \<lparr>wpi_page_id = 2, wpi_image = bs\<rparr> = Inr ()"
    by (cases "decode_page_at (\<lambda>_. 0) bs (Some 2)") (auto simp: validate_page_image_def)
  moreover have "validate_page_image_lsn \<lparr>wpi_page_id = 2, wpi_image = bs\<rparr> 2 = Inr ()"
    using encode_page_slices [OF bs] by (simp add: validate_page_image_lsn_def page_header_new_def)
  ultimately show ?thesis
    using bs by (simp add: commit_wf_def example_commit_def)
qed

lemma example_log_ok:
  "log_ok (\<lambda>_. 0) example_identity 0 ([] @ map Complete [example_commit])"
  "length (log_bytes (\<lambda>_. 0) example_identity 0 ([] @ map Complete [example_commit])) < 2 ^ 64"
  "commits_follow (\<lambda>_. 0) 1 1 [example_commit]" "group_fits [example_commit] example_log"
proof -
  have c: "first_lsn example_commit = 1" "wc_commit_lsn example_commit = 2" "wc_batch_id example_commit = 1"
    "length (wc_pages example_commit) = 1"
    by (simp_all add: first_lsn_def example_commit_def)
  show "log_ok (\<lambda>_. 0) example_identity 0 ([] @ map Complete [example_commit])"
    using example_commit_wf c by (simp add: log_ok_def example_identity_def)
  show "commits_follow (\<lambda>_. 0) 1 1 [example_commit]"
    using example_commit_wf c by simp
  show "group_fits [example_commit] example_log"
    using c by (simp add: group_fits_def example_log_def empty_scan_report_def count_pages_def)
  have "length (page_payload (wc_pages example_commit ! 0)) = PAGE_IMAGE_PAYLOAD_SIZE"
    using length_page_payload [OF example_commit_wf, of 0] c by simp
  then show "length (log_bytes (\<lambda>_. 0) example_identity 0 ([] @ map Complete [example_commit])) < 2 ^ 64"
    using c by (simp add: log_bytes_def log_frames_def length_frame_bytes length_commit_payload length_identity_payload
        example_identity_def)
qed

section \<open>The crash safety of group commit\<close>

text \<open>
  C2. Group commit is atomic and durable per commit. Take a log that holds the entries \<open>es\<close>
  durably and append a group \<open>cs\<close> that continues it, on the simulated file, under any scheduled
  short write, I/O error or torn sync and with any crash point injected. If the process is then
  lost and the log opened again from the bytes that survived (the failed sync having lost none of
  the bytes that were durable before), opening succeeds and returns the old commits followed by a
  prefix of the group, in order and with their page images intact; it returns the whole group if
  the append reported success. The reopened file is again a durable well-formed log of exactly
  these commits.
\<close>

theorem wal_group_commit_atomic:
  fixes w w' :: "crashable_file wal_log"
  assumes "log_ok crc identity start (es @ map Complete cs)"
    and "length (log_bytes crc identity start (es @ map Complete cs)) < 2 ^ 64"
    and "volatile (wal_file w) = log_bytes crc identity start es" "durable (wal_file w) = volatile (wal_file w)"
    and "wal_format_version w = WAL_FORMAT_VERSION"
    and "append_group crc crashable_ops cs (w, injector) = (r, w', injector')"
    and "length (durable (wal_file w)) \<le> length (durable (wal_file w'))"
  shows "\<exists>m reopened es'.
    wal_open crc crashable_ops identity start_after (crashable_from_durable (durable (wal_file w')), None) =
      (Inr reopened, (wal_file reopened, None)) \<and>
    wal_committed reopened = map committed_of (commits_of es @ take m cs) \<and> (is_ok r \<longrightarrow> take m cs = cs) \<and>
    log_ok crc identity start es' \<and> commits_of es' = commits_of es @ take m cs \<and>
    volatile (wal_file reopened) = log_bytes crc identity start es' \<and>
    durable (wal_file reopened) = volatile (wal_file reopened)"
proof -
  have restart: "fault_free (crashable_from_durable bs)" "volatile (crashable_from_durable bs) = bs"
    "durable (crashable_from_durable bs) = bs" for bs
    by (simp_all add: crashable_from_durable_def fault_free_def fault_plan_default_def)
  show ?thesis
    using crashable.group_commit_atomic [of crc identity start es cs "(w, injector)" r "(w', injector')"
        "crashable_from_durable (durable (wal_file w'))" start_after] assms restart
    by fastforce
qed

theorem wal_group_commit_atomic_witness:
  "\<exists>reports w' reopened.
     append_group (\<lambda>_. 0) crashable_ops [example_commit] (example_log, None) = (Inr reports, w', None) \<and>
     wal_open (\<lambda>_. 0) crashable_ops example_identity 0 (crashable_from_durable (durable (wal_file w')), None) =
       (Inr reopened, (wal_file reopened, None)) \<and>
     wal_committed reopened = [committed_of example_commit]"
proof -
  let ?c = "\<lambda>_ :: bytes. 0 :: u32"
  have w: "fault_free (wal_file example_log)" "wal_format_version example_log = WAL_FORMAT_VERSION"
    "volatile (wal_file example_log) = log_bytes ?c example_identity 0 []"
    "durable (wal_file example_log) = volatile (wal_file example_log)"
    by (simp_all add: example_log_def crashable_from_durable_def fault_free_def fault_plan_default_def)
  have room: "length (volatile (wal_file example_log)) +
      length (frames_bytes ?c (entries_frames ?c (map Complete [example_commit]))) < 2 ^ 64"
    using example_log_ok(2) w(3) log_bytes_append [of ?c example_identity 0 "[]" "map Complete [example_commit]"] by simp
  obtain reports w' where run: "append_group ?c crashable_ops [example_commit] (example_log, None) = (Inr reports, w', None)"
    using crashable.append_group_returns [OF w(1,2) _ example_log_ok(4) _ room] example_log_ok(3)
    by (auto simp: example_log_def)
  have "length (durable (wal_file example_log)) \<le> length (durable (wal_file w'))"
    using crashable.append_group_outcome(3) [OF _ _ run, of reports] w(2,4) room by simp
  then show ?thesis
    using wal_group_commit_atomic [OF example_log_ok(1,2) w(3,4,2) run, of 0] run by fastforce
qed

text \<open>
  C4. Progress of group commit. On a file without scheduled faults and with no injected crash, a
  non-empty group whose commits are well formed and continue the log's next LSN and batch id is
  appended, synced and reported, and is then durable in the file; only counter or address
  overflow can stop it.
\<close>

theorem wal_group_commit_returns:
  fixes w :: "crashable_file wal_log"
  assumes "fault_free (wal_file w)" "wal_format_version w = WAL_FORMAT_VERSION" "cs \<noteq> []" "group_fits cs w"
    and "commits_follow crc (wal_next_lsn w) (wal_next_batch_id w) cs"
    and "length (volatile (wal_file w)) + length (frames_bytes crc (entries_frames crc (map Complete cs))) < 2 ^ 64"
  shows "\<exists>reports w'. append_group crc crashable_ops cs (w, None) = (Inr reports, w', None) \<and>
    wal_committed w' = wal_committed w @ map committed_of cs \<and>
    durable (wal_file w') = volatile (wal_file w) @ frames_bytes crc (entries_frames crc (map Complete cs)) \<and>
    fault_free (wal_file w')"
proof -
  obtain reports w' where run: "append_group crc crashable_ops cs (w, None) = (Inr reports, w', None)" "fault_free (wal_file w')"
    using crashable.append_group_returns [OF assms] by blast
  then show ?thesis
    using crashable.append_group_outcome(3) [OF _ _ run(1), of reports] assms(2,6) by auto
qed

theorem wal_group_commit_returns_witness:
  "\<exists>reports w'. append_group (\<lambda>_. 0) crashable_ops [example_commit] (example_log, None) = (Inr reports, w', None) \<and>
     wal_committed w' = [committed_of example_commit]"
proof -
  let ?c = "\<lambda>_ :: bytes. 0 :: u32"
  have w: "fault_free (wal_file example_log)" "wal_format_version example_log = WAL_FORMAT_VERSION"
    "volatile (wal_file example_log) = log_bytes ?c example_identity 0 []" "wal_committed example_log = []"
    by (simp_all add: example_log_def crashable_from_durable_def fault_free_def fault_plan_default_def)
  have room: "length (volatile (wal_file example_log)) +
      length (frames_bytes ?c (entries_frames ?c (map Complete [example_commit]))) < 2 ^ 64"
    using example_log_ok(2) w(3) log_bytes_append [of ?c example_identity 0 "[]" "map Complete [example_commit]"] by simp
  show ?thesis
    using wal_group_commit_returns [OF w(1,2) _ example_log_ok(4) _ room] example_log_ok(3) w(4)
    by (fastforce simp: example_log_def)
qed

end
