(* ===== verification/Page_Format.thy ===== *)
theory Page_Format
  imports Superblock "HOL-Library.Product_Lexorder"
begin

text \<open>
  The tree page bodies of \<open>dodb-storage/src/btree/format.rs\<close>: slotted leaf and internal pages,
  overflow pages and free pages. Leaf and internal pages share one slotted layout (a 32-byte
  header, 8-byte slots growing up, records growing down), written once as \<open>encode_slotted\<close> and
  \<open>decode_slotted\<close> over the record codec; the locale \<open>slotted_record\<close> states what a record
  codec promises, and the round trip of both page kinds is its interpretation.
\<close>

section \<open>Data\<close>

abbreviation BODY_SIZE :: usize where "BODY_SIZE \<equiv> 4064"
abbreviation LAYOUT_VERSION :: u16 where "LAYOUT_VERSION \<equiv> 1"
abbreviation INLINE_VALUE_LIMIT :: usize where "INLINE_VALUE_LIMIT \<equiv> 512"
abbreviation MAX_VALUE_SIZE :: usize where "MAX_VALUE_SIZE \<equiv> 67108864"
abbreviation OVERFLOW_DATA_OFFSET :: usize where "OVERFLOW_DATA_OFFSET \<equiv> 32"
abbreviation OVERFLOW_DATA_SIZE :: usize where "OVERFLOW_DATA_SIZE \<equiv> 4032"
abbreviation MAX_OVERFLOW_PAGES :: usize where "MAX_OVERFLOW_PAGES \<equiv> 16645"
abbreviation SLOTTED_HEADER_SIZE :: usize where "SLOTTED_HEADER_SIZE \<equiv> 32"
abbreviation SLOT_SIZE :: usize where "SLOT_SIZE \<equiv> 8"
abbreviation LEAF_RECORD_HEADER_SIZE :: usize where "LEAF_RECORD_HEADER_SIZE \<equiv> 32"
abbreviation INTERNAL_RECORD_HEADER_SIZE :: usize where "INTERNAL_RECORD_HEADER_SIZE \<equiv> 12"

definition LEAF_MAGIC :: bytes where "LEAF_MAGIC = [0x4c, 0x45, 0x41, 0x46]"
definition INTERNAL_MAGIC :: bytes where "INTERNAL_MAGIC = [0x49, 0x4e, 0x54, 0x4e]"
definition OVERFLOW_MAGIC :: bytes where "OVERFLOW_MAGIC = [0x4f, 0x56, 0x46, 0x4c]"
definition FREE_MAGIC :: bytes where "FREE_MAGIC = [0x46, 0x52, 0x45, 0x45]"

datatype value_ref = Inline bytes | Overflow (overflow_head: page_id) (overflow_length: u64)

record leaf_entry =
  le_key :: bytes
  le_revision :: revision
  le_value :: "value_ref option"

record internal_entry =
  ie_key :: bytes
  ie_right_child :: page_id

datatype page_data =
    LeafPage lsn "page_id option" "leaf_entry list"
  | InternalPage lsn page_id "internal_entry list"
  | OverflowPage lsn "page_id option" u64 bytes
  | FreePage lsn "page_id option"

fun page_data_type :: "page_data \<Rightarrow> page_type" where
  "page_data_type (LeafPage _ _ _) = PtLeaf"
| "page_data_type (InternalPage _ _ _) = PtInternal"
| "page_data_type (OverflowPage _ _ _ _) = PtOverflow"
| "page_data_type (FreePage _ _) = PtFree"

fun page_data_lsn :: "page_data \<Rightarrow> lsn" where
  "page_data_lsn (LeafPage lsn _ _) = lsn"
| "page_data_lsn (InternalPage lsn _ _) = lsn"
| "page_data_lsn (OverflowPage lsn _ _ _) = lsn"
| "page_data_lsn (FreePage lsn _) = lsn"

definition restamp_entry :: "revision \<Rightarrow> lsn \<Rightarrow> leaf_entry \<Rightarrow> leaf_entry" where
  "restamp_entry provisional committed entry =
     (if le_revision entry = provisional then entry\<lparr>le_revision := committed\<rparr> else entry)"

fun restamp :: "revision \<Rightarrow> lsn \<Rightarrow> page_data \<Rightarrow> page_data" where
  "restamp provisional committed (LeafPage lsn nxt entries) =
     LeafPage committed nxt (map (restamp_entry provisional committed) entries)"
| "restamp provisional committed (InternalPage lsn leftmost entries) =
     InternalPage committed leftmost entries"
| "restamp provisional committed (OverflowPage lsn nxt total_len chunk) =
     OverflowPage committed nxt total_len chunk"
| "restamp provisional committed (FreePage lsn nxt) = FreePage committed nxt"

section \<open>Reading fields\<close>

definition read_array :: "nat \<Rightarrow> bytes \<Rightarrow> usize \<Rightarrow> bytes result" where
  "read_array n bs offset =
     bindR (ok_or (checked_add_usize offset n) Corruption) (\<lambda>stop.
       if stop \<le> length bs then Inr (byte_slice offset stop bs) else Inl Corruption)"

definition read_u16 :: "bytes \<Rightarrow> usize \<Rightarrow> u16 result" where
  "read_u16 bs offset = bindR (read_array 2 bs offset) (\<lambda>a. Inr (u16_from_le_bytes a))"

definition read_u64 :: "bytes \<Rightarrow> usize \<Rightarrow> u64 result" where
  "read_u64 bs offset = bindR (read_array 8 bs offset) (\<lambda>a. Inr (u64_from_le_bytes a))"

definition check_body_size :: "bytes \<Rightarrow> unit result" where
  "check_body_size body = (if length body \<noteq> BODY_SIZE then Inl Corruption else Inr ())"

definition check_version :: "bytes \<Rightarrow> unit result" where
  "check_version bs =
     bindR (read_u16 bs 0) (\<lambda>version. if version \<noteq> LAYOUT_VERSION then Inl UnsupportedFormat else Inr ())"

definition any_nonzero :: "bytes \<Rightarrow> bool" where
  "any_nonzero bs = list_ex (\<lambda>b. b \<noteq> 0) bs"

definition validate_slot_region :: "usize \<Rightarrow> usize \<Rightarrow> usize \<Rightarrow> usize \<Rightarrow> usize \<Rightarrow> unit result" where
  "validate_slot_region count slot_end records_start header_size body_len =
     bindR (ok_or (checked_mul_usize count SLOT_SIZE) Corruption) (\<lambda>slots.
     bindR (ok_or (checked_add_usize header_size slots) Corruption) (\<lambda>expected_slot_end.
       if slot_end \<noteq> expected_slot_end \<or> records_start < slot_end \<or> records_start > body_len
          \<or> slot_end > body_len
       then Inl Corruption else Inr ()))"

fun windows_disjoint :: "(usize \<times> usize) list \<Rightarrow> bool" where
  "windows_disjoint (r # s # rest) = (snd r \<le> fst s \<and> windows_disjoint (s # rest))"
| "windows_disjoint _ = True"

definition ensure_non_overlapping :: "(usize \<times> usize) list \<Rightarrow> unit result" where
  "ensure_non_overlapping ranges = (if windows_disjoint (sort ranges) then Inr () else Inl Corruption)"

text \<open>Keys strictly ascending, by adjacent pairs (\<open>ensure_sorted_leaf\<close>, \<open>ensure_sorted_internal\<close>).\<close>

fun windows_ascending :: "('e \<Rightarrow> bytes) \<Rightarrow> 'e list \<Rightarrow> bool" where
  "windows_ascending key (a # b # rest) = (key a < key b \<and> windows_ascending key (b # rest))"
| "windows_ascending key _ = True"

definition ensure_sorted :: "('e \<Rightarrow> bytes) \<Rightarrow> 'e list \<Rightarrow> unit result" where
  "ensure_sorted key entries = (if windows_ascending key entries then Inr () else Inl Corruption)"

section \<open>Slotted pages\<close>

text \<open>
  The record-placing loop runs over the entries from the last to the first; consing the slots
  here is pushing them and reversing the vector afterwards.
\<close>

type_synonym slot = "usize \<times> usize \<times> usize"

fun place_records ::
  "('e \<Rightarrow> bytes result) \<Rightarrow> ('e \<Rightarrow> bytes) \<Rightarrow> usize \<Rightarrow> 'e list \<Rightarrow> usize \<Rightarrow> bytes \<Rightarrow> slot list
     \<Rightarrow> (usize \<times> bytes \<times> slot list) result"
where
  "place_records enc key slot_bytes [] upper body slots = Inr (upper, body, slots)"
| "place_records enc key slot_bytes (entry # rest) upper body slots =
     bindR (enc entry) (\<lambda>rec.
     bindR (ok_or (checked_sub_usize upper (length rec)) InvalidInput) (\<lambda>upper'.
       if upper' < slot_bytes then Inl InvalidInput
       else place_records enc key slot_bytes rest upper' (write_slice upper' rec body)
              ((upper', length rec, length (key entry)) # slots)))"

definition write_slot :: "nat \<Rightarrow> slot \<Rightarrow> bytes \<Rightarrow> bytes" where
  "write_slot index s body =
     (case s of (offset, len, key_len) \<Rightarrow>
       (let at = SLOTTED_HEADER_SIZE + index * SLOT_SIZE;
            body = write_slice at (u16_to_le_bytes (word_of_nat offset)) body;
            body = write_slice (at + 2) (u16_to_le_bytes (word_of_nat len)) body
        in write_slice (at + 4) (u16_to_le_bytes (word_of_nat key_len)) body))"

fun write_slots :: "nat \<Rightarrow> slot list \<Rightarrow> bytes \<Rightarrow> bytes" where
  "write_slots index [] body = body"
| "write_slots index (s # slots) body = write_slots (Suc index) slots (write_slot index s body)"

definition slotted_header :: "bytes \<Rightarrow> nat \<Rightarrow> usize \<Rightarrow> u64 \<Rightarrow> bytes" where
  "slotted_header magic count slot_bytes ref =
     (let body = replicate BODY_SIZE 0;
          body = write_slice 0 magic body;
          body = write_slice 4 (u16_to_le_bytes LAYOUT_VERSION) body;
          body = write_slice 6 (u16_to_le_bytes (word_of_nat count)) body;
          body = write_slice 8 (u16_to_le_bytes (word_of_nat slot_bytes)) body
      in write_slice 12 (u64_to_le_bytes ref) body)"

definition encode_slotted ::
  "('e \<Rightarrow> bytes result) \<Rightarrow> ('e \<Rightarrow> bytes) \<Rightarrow> bytes \<Rightarrow> u64 \<Rightarrow> 'e list \<Rightarrow> bytes result"
where
  "encode_slotted enc key magic ref entries =
     bindR (ok_or (checked_mul_usize (length entries) SLOT_SIZE) InvalidInput) (\<lambda>slots_len.
     bindR (ok_or (checked_add_usize SLOTTED_HEADER_SIZE slots_len) InvalidInput) (\<lambda>slot_bytes.
       if length entries > 65535 \<or> slot_bytes > BODY_SIZE then Inl InvalidInput
       else
         bindR (ensure_sorted key entries) (\<lambda>_.
         bindR (place_records enc key slot_bytes (rev entries) BODY_SIZE
                  (slotted_header magic (length entries) slot_bytes ref) []) (\<lambda>(upper, body, slots).
           Inr (write_slots 0 slots (write_slice 10 (u16_to_le_bytes (word_of_nat upper)) body))))))"

fun decode_slots ::
  "(bytes \<Rightarrow> usize \<Rightarrow> 'e result) \<Rightarrow> usize \<Rightarrow> usize \<Rightarrow> bytes \<Rightarrow> nat list
     \<Rightarrow> ((usize \<times> usize) list \<times> 'e list) result"
where
  "decode_slots dec min_len records_start body [] = Inr ([], [])"
| "decode_slots dec min_len records_start body (index # indices) =
     (let slot = SLOTTED_HEADER_SIZE + index * SLOT_SIZE in
      bindR (read_u16 body slot) (\<lambda>w0.
      bindR (read_u16 body (slot + 2)) (\<lambda>w1.
      bindR (read_u16 body (slot + 4)) (\<lambda>w2.
      (let offset = unat w0; len = unat w1; key_len = unat w2 in
      bindR (ok_or (checked_add_usize offset len) Corruption) (\<lambda>stop.
        if offset < records_start \<or> stop > length body \<or> len < min_len then Inl Corruption
        else
          bindR (dec (byte_slice offset stop body) key_len) (\<lambda>entry.
          bindR (decode_slots dec min_len records_start body indices) (\<lambda>(ranges, entries).
            Inr ((offset, stop) # ranges, entry # entries)))))))))"

definition decode_slotted ::
  "(bytes \<Rightarrow> usize \<Rightarrow> 'e result) \<Rightarrow> ('e \<Rightarrow> bytes) \<Rightarrow> usize \<Rightarrow> bytes \<Rightarrow> (u64 \<Rightarrow> bool) \<Rightarrow> bytes
     \<Rightarrow> (u64 \<times> 'e list) result"
where
  "decode_slotted dec key min_len magic ref_ok body =
     bindR (check_body_size body) (\<lambda>_.
     if byte_slice 0 4 body \<noteq> magic then Inl Corruption
     else
       bindR (check_version (byte_slice 4 6 body)) (\<lambda>_.
       bindR (read_u16 body 6) (\<lambda>count.
       bindR (read_u16 body 8) (\<lambda>slot_end.
       bindR (read_u16 body 10) (\<lambda>records_start.
       bindR (read_u64 body 12) (\<lambda>ref.
         if \<not> ref_ok ref \<or> any_nonzero (byte_slice 20 32 body) then Inl Corruption
         else
           bindR (validate_slot_region (unat count) (unat slot_end) (unat records_start)
                    SLOTTED_HEADER_SIZE (length body)) (\<lambda>_.
           bindR (decode_slots dec min_len (unat records_start) body [0..<unat count]) (\<lambda>(ranges, entries).
           bindR (ensure_non_overlapping ranges) (\<lambda>_.
           bindR (ensure_sorted key entries) (\<lambda>_. Inr (ref, entries)))))))))))"

section \<open>Leaf pages\<close>

definition canonical_key :: "error \<Rightarrow> bytes \<Rightarrow> unit result" where
  "canonical_key err key = (case document_key_decode key of Inl _ \<Rightarrow> Inl err | Inr _ \<Rightarrow> Inr ())"

text \<open>Flags, value length, auxiliary word and inline bytes of a value.\<close>

fun value_fields :: "value_ref option \<Rightarrow> u8 \<times> u64 \<times> u64 \<times> bytes" where
  "value_fields None = (0, 0, NULL_PAGE_ID, [])"
| "value_fields (Some (Inline value)) = (1, word_of_nat (length value), 0, value)"
| "value_fields (Some (Overflow head len)) = (2, len, head, [])"

definition encode_leaf_record :: "leaf_entry \<Rightarrow> bytes result" where
  "encode_leaf_record entry =
     (let key = le_key entry in
      if length key > 65535 then Inl InvalidInput
      else
        bindR (canonical_key InvalidInput key) (\<lambda>_.
        case value_fields (le_value entry) of (flags, value_length, aux, inline) \<Rightarrow>
        bindR (ok_or (checked_add_usize LEAF_RECORD_HEADER_SIZE (length key)) InvalidInput) (\<lambda>len.
        bindR (ok_or (checked_add_usize len (length inline)) InvalidInput) (\<lambda>record_length.
          (let rec = replicate record_length 0;
               rec = write_slice 0 (u64_to_le_bytes (le_revision entry)) rec;
               rec = write_slice 8 (u64_to_le_bytes value_length) rec;
               rec = write_slice 16 (u64_to_le_bytes aux) rec;
               rec = write_slice 24 [flags] rec;
               rec = write_slice 26 (u16_to_le_bytes (word_of_nat (length key))) rec;
               rec = write_slice LEAF_RECORD_HEADER_SIZE key rec
           in Inr (write_slice (LEAF_RECORD_HEADER_SIZE + length key) inline rec))))))"

definition decode_leaf_value ::
  "u8 \<Rightarrow> u64 \<Rightarrow> u64 \<Rightarrow> usize \<Rightarrow> bytes \<Rightarrow> value_ref option result" where
  "decode_leaf_value flags value_length aux key_end bs =
     (if flags = 0 then
        if value_length \<noteq> 0 \<or> aux \<noteq> NULL_PAGE_ID \<or> length bs \<noteq> key_end then Inl Corruption
        else Inr None
      else if flags = 1 then
        bindR (ok_or (checked_add_usize key_end (unat value_length)) Corruption) (\<lambda>value_end.
          if value_end \<noteq> length bs \<or> aux \<noteq> 0 then Inl Corruption
          else Inr (Some (Inline (byte_slice key_end value_end bs))))
      else if flags = 2 then
        if length bs \<noteq> key_end \<or> aux = NULL_PAGE_ID \<or> value_length = 0 then Inl Corruption
        else Inr (Some (Overflow aux value_length))
      else Inl Corruption)"

definition decode_leaf_record :: "bytes \<Rightarrow> usize \<Rightarrow> leaf_entry result" where
  "decode_leaf_record bs slot_key_length =
     bindR (read_u64 bs 0) (\<lambda>revision.
     bindR (read_u64 bs 8) (\<lambda>value_length.
     if unat value_length > MAX_VALUE_SIZE then Inl Corruption
     else
       bindR (read_u64 bs 16) (\<lambda>aux.
       (let flags = bs ! 24 in
        if bs ! 25 \<noteq> 0 \<or> any_nonzero (byte_slice 28 32 bs) then Inl Corruption
        else
          bindR (read_u16 bs 26) (\<lambda>key_length_word.
          (let key_length = unat key_length_word in
           if key_length \<noteq> slot_key_length then Inl Corruption
           else
             bindR (ok_or (checked_add_usize LEAF_RECORD_HEADER_SIZE key_length) Corruption) (\<lambda>key_end.
             if key_end > length bs then Inl Corruption
             else
               (let key = byte_slice LEAF_RECORD_HEADER_SIZE key_end bs in
                bindR (canonical_key Corruption key) (\<lambda>_.
                bindR (decode_leaf_value flags value_length aux key_end bs) (\<lambda>value.
                  Inr \<lparr>le_key = key, le_revision = revision, le_value = value\<rparr>))))))))))"

definition encode_leaf :: "page_id option \<Rightarrow> leaf_entry list \<Rightarrow> bytes result" where
  "encode_leaf next_leaf entries =
     encode_slotted encode_leaf_record le_key LEAF_MAGIC (encode_page_id next_leaf) entries"

definition decode_leaf :: "lsn \<Rightarrow> bytes \<Rightarrow> page_data result" where
  "decode_leaf lsn body =
     bindR (decode_slotted decode_leaf_record le_key LEAF_RECORD_HEADER_SIZE LEAF_MAGIC (\<lambda>_. True) body)
       (\<lambda>(ref, entries). Inr (LeafPage lsn (decode_page_id ref) entries))"

definition leaf_fits :: "leaf_entry list \<Rightarrow> bool" where
  "leaf_fits entries = is_ok (encode_leaf None entries)"

section \<open>Internal pages\<close>

definition encode_internal_record :: "internal_entry \<Rightarrow> bytes result" where
  "encode_internal_record entry =
     (let key = ie_key entry in
      if length key > 65535 \<or> ie_right_child entry < 2 then Inl InvalidInput
      else
        bindR (canonical_key InvalidInput key) (\<lambda>_.
        bindR (ok_or (checked_add_usize INTERNAL_RECORD_HEADER_SIZE (length key)) InvalidInput)
          (\<lambda>record_length.
          (let rec = replicate record_length 0;
               rec = write_slice 0 (u16_to_le_bytes (word_of_nat (length key))) rec;
               rec = write_slice 4 (u64_to_le_bytes (ie_right_child entry)) rec
           in Inr (write_slice INTERNAL_RECORD_HEADER_SIZE key rec)))))"

definition decode_internal_record :: "bytes \<Rightarrow> usize \<Rightarrow> internal_entry result" where
  "decode_internal_record rec key_length =
     bindR (read_u16 rec 0) (\<lambda>record_key_length.
     if any_nonzero (byte_slice 2 4 rec) \<or> unat record_key_length \<noteq> key_length then Inl Corruption
     else if length rec \<noteq> INTERNAL_RECORD_HEADER_SIZE + key_length then Inl Corruption
     else
       bindR (read_u64 rec 4) (\<lambda>right_child.
       if right_child < 2 then Inl Corruption
       else
         (let key = drop INTERNAL_RECORD_HEADER_SIZE rec in
          bindR (canonical_key Corruption key) (\<lambda>_.
            Inr \<lparr>ie_key = key, ie_right_child = right_child\<rparr>))))"

definition encode_internal :: "page_id \<Rightarrow> internal_entry list \<Rightarrow> bytes result" where
  "encode_internal leftmost_child entries =
     (if leftmost_child < 2 then Inl InvalidInput
      else encode_slotted encode_internal_record ie_key INTERNAL_MAGIC leftmost_child entries)"

definition decode_internal :: "lsn \<Rightarrow> bytes \<Rightarrow> page_data result" where
  "decode_internal lsn body =
     bindR (decode_slotted decode_internal_record ie_key INTERNAL_RECORD_HEADER_SIZE INTERNAL_MAGIC
              (\<lambda>ref. 2 \<le> ref) body)
       (\<lambda>(ref, entries). Inr (InternalPage lsn ref entries))"

definition internal_fits :: "page_id \<Rightarrow> internal_entry list \<Rightarrow> bool" where
  "internal_fits leftmost_child entries = is_ok (encode_internal leftmost_child entries)"

section \<open>Overflow and free pages\<close>

definition encode_overflow :: "page_id option \<Rightarrow> u64 \<Rightarrow> bytes \<Rightarrow> bytes result" where
  "encode_overflow nxt total_length chunk =
     (if total_length = 0 \<or> unat total_length > MAX_VALUE_SIZE then Inl InvalidInput
      else if length chunk > OVERFLOW_DATA_SIZE \<or> length chunk > 65535 \<or> chunk = [] then Inl InvalidInput
      else
        (let body = replicate BODY_SIZE 0;
             body = write_slice 0 OVERFLOW_MAGIC body;
             body = write_slice 4 (u16_to_le_bytes LAYOUT_VERSION) body;
             body = write_slice 8 (u64_to_le_bytes (encode_page_id nxt)) body;
             body = write_slice 16 (u64_to_le_bytes total_length) body;
             body = write_slice 24 (u16_to_le_bytes (word_of_nat (length chunk))) body
         in Inr (write_slice OVERFLOW_DATA_OFFSET chunk body)))"

definition decode_overflow :: "lsn \<Rightarrow> bytes \<Rightarrow> page_data result" where
  "decode_overflow lsn body =
     bindR (check_body_size body) (\<lambda>_.
     if byte_slice 0 4 body \<noteq> OVERFLOW_MAGIC then Inl Corruption
     else
       bindR (check_version (byte_slice 4 6 body)) (\<lambda>_.
       if any_nonzero (byte_slice 6 8 body) \<or> any_nonzero (byte_slice 26 32 body) then Inl Corruption
       else
         bindR (read_u64 body 8) (\<lambda>nxt.
         bindR (read_u64 body 16) (\<lambda>total_length.
         bindR (read_u16 body 24) (\<lambda>chunk_length.
         if total_length = 0 \<or> unat total_length > MAX_VALUE_SIZE \<or> chunk_length = 0 then Inl Corruption
         else if OVERFLOW_DATA_OFFSET + unat chunk_length > length body then Inl Corruption
         else Inr (OverflowPage lsn (decode_page_id nxt) total_length
                (byte_slice OVERFLOW_DATA_OFFSET (OVERFLOW_DATA_OFFSET + unat chunk_length) body)))))))"

definition encode_free :: "page_id option \<Rightarrow> bytes result" where
  "encode_free nxt =
     (let body = replicate BODY_SIZE 0;
          body = write_slice 0 FREE_MAGIC body;
          body = write_slice 4 (u16_to_le_bytes LAYOUT_VERSION) body
      in Inr (write_slice 8 (u64_to_le_bytes (encode_page_id nxt)) body))"

definition decode_free :: "lsn \<Rightarrow> bytes \<Rightarrow> page_data result" where
  "decode_free lsn body =
     bindR (check_body_size body) (\<lambda>_.
     if byte_slice 0 4 body \<noteq> FREE_MAGIC then Inl Corruption
     else
       bindR (check_version (byte_slice 4 6 body)) (\<lambda>_.
       if any_nonzero (byte_slice 6 8 body) \<or> any_nonzero (drop 16 body) then Inl Corruption
       else bindR (read_u64 body 8) (\<lambda>nxt. Inr (FreePage lsn (decode_page_id nxt)))))"

section \<open>Whole pages\<close>

fun encode_body :: "page_data \<Rightarrow> bytes result" where
  "encode_body (LeafPage _ next_leaf entries) = encode_leaf next_leaf entries"
| "encode_body (InternalPage _ leftmost_child entries) = encode_internal leftmost_child entries"
| "encode_body (OverflowPage _ nxt total_length chunk) = encode_overflow nxt total_length chunk"
| "encode_body (FreePage _ nxt) = encode_free nxt"

definition page_data_encode :: "(bytes \<Rightarrow> u32) \<Rightarrow> page_id \<Rightarrow> page_data \<Rightarrow> bytes result" where
  "page_data_encode crc pid page =
     bindR (encode_body page) (\<lambda>body.
       encode_page crc (page_header_new (page_data_type page) pid (page_data_lsn page)) body)"

definition page_data_decode :: "decoded_page \<Rightarrow> page_data result" where
  "page_data_decode page =
     (let header = decoded_header page in
      if header_flags header \<noteq> 0 then Inl Corruption
      else
        (case header_type header of
           PtLeaf \<Rightarrow> decode_leaf (header_page_lsn header) (decoded_body page)
         | PtInternal \<Rightarrow> decode_internal (header_page_lsn header) (decoded_body page)
         | PtOverflow \<Rightarrow> decode_overflow (header_page_lsn header) (decoded_body page)
         | PtFree \<Rightarrow> decode_free (header_page_lsn header) (decoded_body page)
         | PtTest \<Rightarrow> Inl Corruption))"

section \<open>The slotted layout\<close>

lemma read_u16_ok [simp]:
  "offset + 2 \<le> length bs \<Longrightarrow> length bs < 2 ^ 64 \<Longrightarrow>
   read_u16 bs offset = Inr (u16_from_le_bytes (byte_slice offset (offset + 2) bs))"
  by (simp add: read_u16_def read_array_def checked_add_usize_def)

lemma read_u64_ok [simp]:
  "offset + 8 \<le> length bs \<Longrightarrow> length bs < 2 ^ 64 \<Longrightarrow>
   read_u64 bs offset = Inr (u64_from_le_bytes (byte_slice offset (offset + 8) bs))"
  by (simp add: read_u64_def read_array_def checked_add_usize_def)

lemma byte_slice_0_Suc_Suc [simp]: "byte_slice 0 (Suc (Suc 0)) bs = byte_slice 0 2 bs"
  by (simp add: numeral_2_eq_2)

lemma any_nonzero_replicate [simp]: "\<not> any_nonzero (replicate n 0)"
  by (induction n) (simp_all add: any_nonzero_def)

lemma write_slice_adjacent:
  assumes "a + length x + length y \<le> length b"
  shows "write_slice a x (write_slice (a + length x) y b) = write_slice a (x @ y) b"
  using assms by (simp add: write_slice_def add.assoc)

text \<open>Where a list of records laid out from offset \<open>u\<close> has its slots.\<close>

fun slot_list :: "('e \<Rightarrow> bytes) \<Rightarrow> usize \<Rightarrow> ('e \<times> bytes) list \<Rightarrow> slot list" where
  "slot_list key u [] = []"
| "slot_list key u ((e, r) # ers) = (u, length r, length (key e)) # slot_list key (u + length r) ers"

abbreviation total_length :: "bytes list \<Rightarrow> nat" where
  "total_length recs \<equiv> sum_list (map length recs)"

lemma total_length_rev [simp]: "total_length (rev recs) = total_length recs"
  by (simp add: sum_list_rev flip: rev_map)

lemma length_slot_list [simp]: "length (slot_list key u ers) = length ers"
  by (induction key u ers rule: slot_list.induct) simp_all

lemma slot_list_append:
  "slot_list key u (ers @ frs) =
   slot_list key u ers @ slot_list key (u + total_length (map snd ers)) frs"
  by (induction key u ers rule: slot_list.induct) (simp_all add: add.assoc)

lemma slot_list_nth:
  "i < length ers \<Longrightarrow> slot_list key u ers ! i =
     (u + total_length (take i (map snd ers)), length (snd (ers ! i)), length (key (fst (ers ! i))))"
proof (induction key u ers arbitrary: i rule: slot_list.induct)
  case (2 key u e r ers)
  then show ?case by (cases i) (simp_all add: add.assoc)
qed simp

lemma place_records_layout:
  assumes "place_records enc key slot_bytes es upper body slots = Inr (u, b, ss)" "upper \<le> length body"
  shows "\<exists>recs. list_all2 (\<lambda>e r. enc e = Inr r) es recs \<and> u + total_length recs = upper \<and>
    (es = [] \<or> slot_bytes \<le> u) \<and> b = write_slice u (concat (rev recs)) body \<and>
    ss = slot_list key u (zip (rev es) (rev recs)) @ slots"
  using assms
proof (induction es arbitrary: upper body slots)
  case Nil
  then show ?case by (simp add: write_slice_def)
next
  case (Cons e es)
  then obtain r where r: "enc e = Inr r" "length r \<le> upper" "slot_bytes \<le> upper - length r"
    and rest: "place_records enc key slot_bytes es (upper - length r)
      (write_slice (upper - length r) r body) ((upper - length r, length r, length (key e)) # slots) = Inr (u, b, ss)"
    by (auto simp: checked_sub_usize_def split: if_splits)
  obtain recs where IH: "list_all2 (\<lambda>e r. enc e = Inr r) es recs" "u + total_length recs = upper - length r"
    "es = [] \<or> slot_bytes \<le> u" "b = write_slice u (concat (rev recs)) (write_slice (upper - length r) r body)"
    "ss = slot_list key u (zip (rev es) (rev recs)) @ (upper - length r, length r, length (key e)) # slots"
    using Cons.IH [OF rest] Cons.prems(2) r(2) by fastforce
  have len: "length es = length recs" using IH(1) by (rule list_all2_lengthD)
  have "b = write_slice u (concat (rev (r # recs))) body"
    using IH(2,4) r(2) Cons.prems(2)
      write_slice_adjacent [of u "concat (rev recs)" r body]
    by (simp add: length_concat)
  moreover have "ss = slot_list key u (zip (rev (e # es)) (rev (r # recs))) @ slots"
    using IH(2,5) len by (simp add: slot_list_append)
  moreover have "slot_bytes \<le> u" using IH(1-3) r(3) by (cases "es = []") auto
  ultimately show ?case
    using IH(1,2) r by (intro exI [of _ "r # recs"]) simp
qed

lemma place_records_returns:
  assumes "list_all2 (\<lambda>e r. enc e = Inr r) es recs" "slot_bytes + total_length recs \<le> upper"
  shows "\<exists>res. place_records enc key slot_bytes es upper body slots = Inr res"
  using assms
proof (induction es recs arbitrary: upper body slots rule: list_all2_induct)
  case (Cons e es r recs)
  then show ?case by (auto simp: checked_sub_usize_def)
qed simp

section \<open>Writing and reading slots\<close>

lemma length_write_slot [simp]:
  "40 + 8 * index \<le> length body \<Longrightarrow> length (write_slot index s body) = length body"
  by (cases s) (simp add: write_slot_def)

lemma length_write_slots [simp]:
  "32 + 8 * (index + length ss) \<le> length body \<Longrightarrow> length (write_slots index ss body) = length body"
  by (induction index ss body rule: write_slots.induct) simp_all

lemma write_slot_outside:
  assumes "40 + 8 * index \<le> length body" "d \<le> 32 + 8 * index \<or> 40 + 8 * index \<le> c"
  shows "byte_slice c d (write_slot index s body) = byte_slice c d body"
  using assms by (cases s) (auto simp: write_slot_def Let_def codec_simps)

lemma write_slots_outside:
  assumes "32 + 8 * (index + length ss) \<le> length body"
    "d \<le> 32 + 8 * index \<or> 32 + 8 * (index + length ss) \<le> c"
  shows "byte_slice c d (write_slots index ss body) = byte_slice c d body"
  using assms
  by (induction index ss body rule: write_slots.induct) (auto simp: write_slot_outside)

lemma write_slots_nth:
  assumes "32 + 8 * (index + length ss) \<le> length body" "i < length ss" "ss ! i = (off, len, klen)"
    "at = 32 + 8 * (index + i)"
  shows "byte_slice at (at + 2) (write_slots index ss body) = u16_to_le_bytes (word_of_nat off) \<and>
    byte_slice (at + 2) (at + 4) (write_slots index ss body) = u16_to_le_bytes (word_of_nat len) \<and>
    byte_slice (at + 4) (at + 6) (write_slots index ss body) = u16_to_le_bytes (word_of_nat klen)"
  using assms
proof (induction index ss body arbitrary: i rule: write_slots.induct)
  case (2 index s ss body)
  show ?case
  proof (cases i)
    case 0
    then show ?thesis
      using 2 by (simp add: write_slots_outside write_slot_def Let_def codec_simps mult.commute [of 8])
  next
    case (Suc j)
    then show ?thesis
      using 2 by simp
  qed
qed simp

lemma decode_slots_map:
  assumes "\<And>i. i \<in> set is \<Longrightarrow> 38 + 8 * i \<le> length body \<and>
      byte_slice (32 + i * 8) (32 + i * 8 + 2) body = u16_to_le_bytes (word_of_nat (off i)) \<and>
      byte_slice (32 + i * 8 + 2) (32 + i * 8 + 4) body = u16_to_le_bytes (word_of_nat (len i)) \<and>
      byte_slice (32 + i * 8 + 4) (32 + i * 8 + 6) body = u16_to_le_bytes (word_of_nat (klen i)) \<and>
      records_start \<le> off i \<and> off i + len i \<le> length body \<and> min_len \<le> len i \<and> klen i < 65536 \<and>
      dec (byte_slice (off i) (off i + len i) body) (klen i) = Inr (ent i)"
    and "length body < 65536"
  shows "decode_slots dec min_len records_start body is =
    Inr (map (\<lambda>i. (off i, off i + len i)) is, map ent is)"
  using assms(1)
proof (induction "is")
  case (Cons i "is")
  note here = Cons.prems [OF list.set_intros(1)]
  have "unat (word_of_nat n :: u16) = n" if "n < 65536" for n
    using that by (simp add: unat_of_nat)
  then have *: "unat (word_of_nat (off i) :: u16) = off i" "unat (word_of_nat (len i) :: u16) = len i"
    "unat (word_of_nat (klen i) :: u16) = klen i"
    using here assms(2) by auto
  have "decode_slots dec min_len records_start body is =
    Inr (map (\<lambda>i. (off i, off i + len i)) is, map ent is)"
    using Cons by simp
  then show ?case
    using here assms(2) * by (simp add: Let_def checked_add_usize_def ac_simps)
qed simp

section \<open>Round trip of the slotted layout\<close>

lemma total_length_take_Suc:
  "i < length recs \<Longrightarrow> total_length (take (Suc i) recs) = total_length (take i recs) + length (recs ! i)"
  by (simp add: take_Suc_conv_app_nth)

lemma total_length_take_le: "total_length (take i recs) \<le> total_length recs"
  by (metis append_take_drop_id le_add1 map_append sum_list_append)

lemma byte_slice_concat:
  assumes "i < length recs"
  shows "byte_slice (total_length (take i recs)) (total_length (take i recs) + length (recs ! i)) (concat recs) =
    recs ! i"
proof -
  have "concat recs = concat (take i recs) @ recs ! i @ concat (drop (Suc i) recs)"
    using arg_cong [OF id_take_nth_drop [OF assms], of concat] by simp
  then show ?thesis
    by (simp add: byte_slice_def length_concat)
qed

lemma windows_disjoint_consecutive:
  assumes "\<And>i. Suc i < n \<Longrightarrow> off (Suc i) = off i + (len i :: nat)"
  shows "windows_disjoint (map (\<lambda>i. (off i, off i + len i)) [k..<n])"
proof (induction "n - k" arbitrary: k)
  case (Suc m)
  then have "k < n" by simp
  show ?case
  proof (cases "Suc k < n")
    case True
    then have "[k..<n] = k # Suc k # [Suc (Suc k)..<n]" by (simp add: upt_conv_Cons)
    moreover have "windows_disjoint (map (\<lambda>i. (off i, off i + len i)) [Suc k..<n])"
      using Suc by simp
    ultimately show ?thesis
      using True assms [of k] by (simp add: upt_conv_Cons)
  next
    case False
    then have "[k..<n] = [k]" using \<open>k < n\<close> by (simp add: upt_conv_Cons)
    then show ?thesis by simp
  qed
qed simp

lemma ranges_sorted:
  assumes "\<And>i. Suc i < n \<Longrightarrow> off (Suc i) = off i + (len i :: nat)" "\<And>i. i < n \<Longrightarrow> 0 < len i"
  shows "sorted (map (\<lambda>i. (off i, off i + len i)) [0..<n])"
proof -
  have step: "off i < off (Suc i)" if "Suc i < n" for i
    using assms that by simp
  have "off i < off j" if "i < j" "j < n" for i j
    using that
  proof (induction j)
    case (Suc j)
    then show ?case using step [of j] by (cases "i = j") auto
  qed simp
  then show ?thesis
    by (auto simp: sorted_wrt_iff_nth_less less_eq_prod_def)
qed

lemma slotted_header_slices:
  assumes "length magic = 4"
  shows "length (slotted_header magic n sb ref) = BODY_SIZE"
    and "byte_slice 0 4 (slotted_header magic n sb ref) = magic"
    and "byte_slice 4 6 (slotted_header magic n sb ref) = u16_to_le_bytes LAYOUT_VERSION"
    and "byte_slice 6 8 (slotted_header magic n sb ref) = u16_to_le_bytes (word_of_nat n)"
    and "byte_slice 8 10 (slotted_header magic n sb ref) = u16_to_le_bytes (word_of_nat sb)"
    and "byte_slice 12 20 (slotted_header magic n sb ref) = u64_to_le_bytes ref"
    and "byte_slice 20 32 (slotted_header magic n sb ref) = replicate 12 0"
  using assms by (simp_all add: slotted_header_def Let_def codec_simps)

lemma encode_slotted_layout:
  assumes "encode_slotted enc key magic ref entries = Inr body" "length magic = 4"
  obtains recs u where "list_all2 (\<lambda>e r. enc e = Inr r) entries recs"
    "32 + 8 * length entries \<le> u" "u + total_length recs = BODY_SIZE"
    "windows_ascending key entries"
    "body = write_slots 0 (slot_list key u (zip entries recs))
       (write_slice 10 (u16_to_le_bytes (word_of_nat u))
         (write_slice u (concat recs) (slotted_header magic (length entries) (32 + 8 * length entries) ref)))"
proof -
  let ?n = "length entries" and ?h = "slotted_header magic (length entries) (32 + 8 * length entries) ref"
  obtain u b ss where n: "32 + 8 * ?n \<le> BODY_SIZE" "windows_ascending key entries"
    and place: "place_records enc key (32 + 8 * ?n) (rev entries) BODY_SIZE ?h [] = Inr (u, b, ss)"
    and body: "body = write_slots 0 ss (write_slice 10 (u16_to_le_bytes (word_of_nat u)) b)"
    using assms(1)
    by (auto simp: encode_slotted_def checked_add_usize_def checked_mul_usize_def ensure_sorted_def
        mult.commute split: if_splits)
  obtain recs where recs: "list_all2 (\<lambda>e r. enc e = Inr r) (rev entries) recs"
    "u + total_length recs = BODY_SIZE" "rev entries = [] \<or> 32 + 8 * ?n \<le> u"
    "b = write_slice u (concat (rev recs)) ?h" "ss = slot_list key u (zip entries (rev recs))"
    using place_records_layout [OF place] slotted_header_slices(1) [OF assms(2)] by auto
  have "recs = [] \<Longrightarrow> u = BODY_SIZE" using recs(2) by simp
  then have "32 + 8 * ?n \<le> u" using recs(1,3) n(1) by auto
  moreover have "list_all2 (\<lambda>e r. enc e = Inr r) entries (rev recs)"
    using recs(1) list_all2_rev [of _ "rev entries" recs] by simp
  ultimately show ?thesis
    using that [of "rev recs" u] recs n(2) body by simp
qed

lemma encode_slotted_returns:
  assumes "list_all2 (\<lambda>e r. enc e = Inr r) entries recs" "windows_ascending key entries"
    "32 + 8 * length entries + total_length recs \<le> BODY_SIZE"
  shows "\<exists>body. encode_slotted enc key magic ref entries = Inr body"
proof -
  have "\<exists>res. place_records enc key (32 + 8 * length entries) (rev entries) BODY_SIZE
      (slotted_header magic (length entries) (32 + 8 * length entries) ref) [] = Inr res"
    using assms by (intro place_records_returns [of _ _ "rev recs"]) (simp_all add: list_all2_rev)
  then show ?thesis
    using assms(2,3)
    by (auto simp: encode_slotted_def checked_add_usize_def checked_mul_usize_def ensure_sorted_def mult.commute)
qed

lemma byte_slice_write_inside:
  "x \<le> y \<Longrightarrow> y \<le> length r \<Longrightarrow> u + length r \<le> length b \<Longrightarrow>
   byte_slice (u + x) (u + y) (write_slice u r b) = byte_slice x y r"
  by (simp add: byte_slice_def write_slice_def)

text \<open>
  What a record codec promises the slotted layout: a record that encodes decodes, with its key
  length, to the entry it came from, and is at least \<open>min_len\<close> bytes.
\<close>

locale slotted_record =
  fixes enc :: "'e \<Rightarrow> bytes result"
    and dec :: "bytes \<Rightarrow> usize \<Rightarrow> 'e result"
    and key :: "'e \<Rightarrow> bytes"
    and min_len :: usize
    and wf :: "'e \<Rightarrow> bool"
  assumes dec_enc_record: "wf e \<Longrightarrow> enc e = Inr r \<Longrightarrow> length r \<le> BODY_SIZE \<Longrightarrow> dec r (length (key e)) = Inr e"
    and enc_length: "enc e = Inr r \<Longrightarrow> min_len \<le> length r"
    and enc_key_length: "enc e = Inr r \<Longrightarrow> length (key e) \<le> 65535"
    and min_len_pos: "0 < min_len"
begin

lemma decode_slots_layout:
  fixes recs :: "bytes list"
  assumes recs: "list_all2 (\<lambda>e r. enc e = Inr r) entries recs" "\<And>e. e \<in> set entries \<Longrightarrow> wf e"
    and u: "32 + 8 * length entries \<le> u" "u + total_length recs = BODY_SIZE"
    and h: "length h = BODY_SIZE"
    and body: "body = write_slots 0 (slot_list key u (zip entries recs))
       (write_slice 10 (u16_to_le_bytes (word_of_nat u)) (write_slice u (concat recs) h))"
  shows "\<exists>ranges. decode_slots dec min_len u body [0..<length entries] = Inr (ranges, entries) \<and>
    ensure_non_overlapping ranges = Inr ()"
proof -
  let ?n = "length entries"
  define off where "off i = u + total_length (take i recs)" for i
  define len where "len i = length (recs ! i)" for i
  have n: "length recs = ?n" using recs(1) by (simp add: list_all2_lengthD)
  have enc: "enc (entries ! i) = Inr (recs ! i)" if "i < ?n" for i
    using list_all2_nthD [OF recs(1) that] .
  have off_Suc: "off (Suc i) = off i + len i" if "i < ?n" for i
    using that n by (simp add: off_def len_def total_length_take_Suc)
  have stop: "off i + len i \<le> BODY_SIZE" if "i < ?n" for i
    using off_Suc [OF that] total_length_take_le [of "Suc i" recs] u(2) by (simp add: off_def)
  let ?b2 = "write_slice 10 (u16_to_le_bytes (word_of_nat u)) (write_slice u (concat recs) h)"
  have b2: "length ?b2 = BODY_SIZE" using u h by (simp add: length_concat)
  have length_body: "length body = BODY_SIZE" using body b2 u n by simp
  have slots: "byte_slice (32 + i * 8) (32 + i * 8 + 2) body = u16_to_le_bytes (word_of_nat (off i))"
    "byte_slice (32 + i * 8 + 2) (32 + i * 8 + 4) body = u16_to_le_bytes (word_of_nat (len i))"
    "byte_slice (32 + i * 8 + 4) (32 + i * 8 + 6) body = u16_to_le_bytes (word_of_nat (length (key (entries ! i))))"
    if "i < ?n" for i
    using write_slots_nth [of 0 "slot_list key u (zip entries recs)" ?b2 i "off i" "len i"
        "length (key (entries ! i))" "32 + i * 8"] that n u b2 body
    by (simp_all add: slot_list_nth off_def len_def)
  have slice: "byte_slice (off i) (off i + len i) body = recs ! i" if i: "i < ?n" for i
  proof -
    have "byte_slice (off i) (off i + len i) body = byte_slice (off i) (off i + len i) ?b2"
      using u b2 n unfolding body by (intro write_slots_outside) (simp_all add: off_def)
    also have "\<dots> = byte_slice (off i) (off i + len i) (write_slice u (concat recs) h)"
      using u h by (intro byte_slice_write_after) (simp_all add: off_def length_concat)
    also have "\<dots> = byte_slice (total_length (take i recs)) (total_length (take i recs) + len i) (concat recs)"
      unfolding off_def add.assoc using stop [OF i] u h
      by (intro byte_slice_write_inside) (simp_all add: off_def length_concat)
    finally show ?thesis using i n by (simp add: len_def byte_slice_concat)
  qed
  have "decode_slots dec min_len u body [0..<?n] =
    Inr (map (\<lambda>i. (off i, off i + len i)) [0..<?n], map (\<lambda>i. entries ! i) [0..<?n])"
  proof (rule decode_slots_map [where klen = "\<lambda>i. length (key (entries ! i))"])
    fix i assume "i \<in> set [0..<?n]"
    then have i: "i < ?n" by simp
    have "min_len \<le> len i" "length (key (entries ! i)) < 65536" "len i \<le> BODY_SIZE"
      using enc_length [OF enc [OF i]] enc_key_length [OF enc [OF i]] stop [OF i] by (simp_all add: len_def)
    moreover have "dec (recs ! i) (length (key (entries ! i))) = Inr (entries ! i)"
      using dec_enc_record enc [OF i] recs(2) nth_mem [OF i] \<open>len i \<le> BODY_SIZE\<close> by (simp add: len_def)
    moreover have "u \<le> off i" by (simp add: off_def)
    ultimately show "38 + 8 * i \<le> length body \<and>
      byte_slice (32 + i * 8) (32 + i * 8 + 2) body = u16_to_le_bytes (word_of_nat (off i)) \<and>
      byte_slice (32 + i * 8 + 2) (32 + i * 8 + 4) body = u16_to_le_bytes (word_of_nat (len i)) \<and>
      byte_slice (32 + i * 8 + 4) (32 + i * 8 + 6) body = u16_to_le_bytes (word_of_nat (length (key (entries ! i)))) \<and>
      u \<le> off i \<and> off i + len i \<le> length body \<and> min_len \<le> len i \<and> length (key (entries ! i)) < 65536 \<and>
      dec (byte_slice (off i) (off i + len i) body) (length (key (entries ! i))) = Inr (entries ! i)"
      using slots [OF i] slice [OF i] stop [OF i] i u length_body by (simp only:) simp
  qed (simp add: length_body)
  moreover have "0 < len i" if "i < ?n" for i
    using enc_length [OF enc [OF that]] min_len_pos unfolding len_def by linarith
  then have "sorted (map (\<lambda>i. (off i, off i + len i)) [0..<?n])"
    using off_Suc by (intro ranges_sorted) simp_all
  then have "ensure_non_overlapping (map (\<lambda>i. (off i, off i + len i)) [0..<?n]) = Inr ()"
    using windows_disjoint_consecutive [of ?n off len 0] off_Suc
    by (simp add: ensure_non_overlapping_def sorted_sort_id)
  ultimately show ?thesis
    by (simp add: map_nth)
qed

lemma decode_encode_slotted:
  assumes "encode_slotted enc key magic ref entries = Inr body" "length magic = 4" "ref_ok ref"
    and "\<And>e. e \<in> set entries \<Longrightarrow> wf e"
  shows "decode_slotted dec key min_len magic ref_ok body = Inr (ref, entries)"
proof -
  let ?n = "length entries" and ?h = "slotted_header magic (length entries) (32 + 8 * length entries) ref"
  obtain recs u where recs: "list_all2 (\<lambda>e r. enc e = Inr r) entries recs"
    and u: "32 + 8 * ?n \<le> u" "u + total_length recs = BODY_SIZE"
    and sorted: "windows_ascending key entries"
    and body: "body = write_slots 0 (slot_list key u (zip entries recs))
       (write_slice 10 (u16_to_le_bytes (word_of_nat u)) (write_slice u (concat recs) ?h))"
    using encode_slotted_layout [OF assms(1,2)] .
  note h = slotted_header_slices [OF assms(2), of ?n "32 + 8 * ?n" ref]
  have n: "length recs = ?n" using recs by (simp add: list_all2_lengthD)
  obtain ranges where ranges: "decode_slots dec min_len u body [0..<?n] = Inr (ranges, entries)"
    "ensure_non_overlapping ranges = Inr ()"
    using decode_slots_layout [OF recs assms(4) u h(1) body] by blast
  let ?b2 = "write_slice 10 (u16_to_le_bytes (word_of_nat u)) (write_slice u (concat recs) ?h)"
  have b2: "length ?b2 = BODY_SIZE" using u h by (simp add: length_concat)
  have head: "byte_slice c d body = byte_slice c d ?b2" if "d \<le> 32" for c d
    using b2 u n that unfolding body by (intro write_slots_outside) simp_all
  have len: "length body = BODY_SIZE" using body b2 u n by simp
  have fields: "byte_slice 0 4 body = magic" "byte_slice 4 6 body = u16_to_le_bytes LAYOUT_VERSION"
    "byte_slice 6 8 body = u16_to_le_bytes (word_of_nat ?n)"
    "byte_slice 8 10 body = u16_to_le_bytes (word_of_nat (32 + 8 * ?n))"
    "byte_slice 10 12 body = u16_to_le_bytes (word_of_nat u)"
    "byte_slice 12 20 body = u64_to_le_bytes ref" "byte_slice 20 32 body = replicate 12 0"
    using h u by (simp_all add: head codec_simps length_concat)
  have unat: "unat (word_of_nat ?n :: u16) = ?n" "unat (word_of_nat (32 + 8 * ?n) :: u16) = 32 + 8 * ?n"
    "unat (word_of_nat u :: u16) = u"
    using u by (simp_all add: unat_of_nat del: of_nat_add of_nat_mult)
  show ?thesis
    using fields unat len assms(3) u ranges sorted
    by (simp add: decode_slotted_def check_body_size_def check_version_def validate_slot_region_def
        ensure_sorted_def checked_add_usize_def checked_mul_usize_def mult.commute codec_simps
        del: of_nat_add of_nat_mult)
qed

end

section \<open>Leaf and internal records\<close>

text \<open>
  The entries the store writes: overflow references name a page and a length within limits, and
  internal entries nothing more than what their encoder checks.
\<close>

fun leaf_entry_wf :: "leaf_entry \<Rightarrow> bool" where
  "leaf_entry_wf entry \<longleftrightarrow>
     (case le_value entry of
        Some (Overflow head len) \<Rightarrow> head \<noteq> NULL_PAGE_ID \<and> 0 < len \<and> unat len \<le> MAX_VALUE_SIZE
      | _ \<Rightarrow> True)"

fun inline_length :: "value_ref option \<Rightarrow> nat" where
  "inline_length (Some (Inline value)) = length value"
| "inline_length _ = 0"

definition leaf_record_length :: "leaf_entry \<Rightarrow> nat" where
  "leaf_record_length entry =
     LEAF_RECORD_HEADER_SIZE + length (le_key entry) + inline_length (le_value entry)"

definition key_ok :: "bytes \<Rightarrow> bool" where
  "key_ok key \<longleftrightarrow> length key \<le> 65535 \<and> (\<exists>k. document_key_decode key = Inr k)"

lemma canonical_key_ok [simp]: "canonical_key e key = Inr x \<longleftrightarrow> (\<exists>k. document_key_decode key = Inr k)"
  by (auto simp: canonical_key_def split: sum.splits)

lemma canonical_keyI [simp]: "document_key_decode key = Inr k \<Longrightarrow> canonical_key e key = Inr ()"
  by (simp add: canonical_key_def)

lemma inline_length_fields:
  "value_fields v = (flags, vlen, aux, inline) \<Longrightarrow> length inline = inline_length v"
  by (cases v rule: value_fields.cases) auto

lemma encode_leaf_record_ok:
  assumes "leaf_record_length entry < 2 ^ 64"
  shows "(\<exists>r. encode_leaf_record entry = Inr r) \<longleftrightarrow> key_ok (le_key entry)"
proof -
  obtain flags vlen aux inline where v: "value_fields (le_value entry) = (flags, vlen, aux, inline)"
    by (cases "value_fields (le_value entry)") auto
  show ?thesis
    using assms inline_length_fields [OF v] v
    by (auto simp: encode_leaf_record_def key_ok_def Let_def checked_add_usize_def leaf_record_length_def)
qed

lemma encode_leaf_record_slices:
  assumes "encode_leaf_record entry = Inr r" "value_fields (le_value entry) = (flags, vlen, aux, inline)"
  shows "length r = leaf_record_length entry" "key_ok (le_key entry)"
    and "byte_slice 0 8 r = u64_to_le_bytes (le_revision entry)"
    and "byte_slice 8 16 r = u64_to_le_bytes vlen"
    and "byte_slice 16 24 r = u64_to_le_bytes aux"
    and "r ! 24 = flags" "r ! 25 = 0"
    and "byte_slice 26 28 r = u16_to_le_bytes (word_of_nat (length (le_key entry)))"
    and "byte_slice 28 32 r = replicate 4 0"
    and "byte_slice 32 (32 + length (le_key entry)) r = le_key entry"
    and "byte_slice (32 + length (le_key entry)) (length r) r = inline"
  using assms inline_length_fields [OF assms(2)]
  by (auto simp: encode_leaf_record_def key_ok_def Let_def checked_add_usize_def leaf_record_length_def
      codec_simps split: if_splits)

lemma decode_leaf_value_fields:
  assumes "value_fields v = (flags, vlen, aux, inline)" "leaf_entry_wf \<lparr>le_key = k, le_revision = rv, le_value = v\<rparr>"
    and "length bs = key_end + length inline" "byte_slice key_end (length bs) bs = inline"
    and "length bs \<le> BODY_SIZE"
  shows "decode_leaf_value flags vlen aux key_end bs = Inr v \<and> unat vlen \<le> MAX_VALUE_SIZE"
proof (cases v rule: value_fields.cases)
  case (2 w)
  then have "unat vlen = length inline" "w = inline" "flags = 1" "aux = 0"
    using assms(1,3,5) by (auto simp: unat_of_nat)
  then show ?thesis
    using 2 assms(3-5) by (simp add: decode_leaf_value_def checked_add_usize_def)
qed (use assms in \<open>auto simp: decode_leaf_value_def\<close>)

lemma decode_encode_leaf_record:
  assumes "leaf_entry_wf entry" "encode_leaf_record entry = Inr r" "length r \<le> BODY_SIZE"
  shows "decode_leaf_record r (length (le_key entry)) = Inr entry"
proof -
  obtain flags vlen aux inline where v: "value_fields (le_value entry) = (flags, vlen, aux, inline)"
    by (cases "value_fields (le_value entry)") auto
  note r = encode_leaf_record_slices [OF assms(2) v]
  obtain k rv val where entry: "entry = \<lparr>le_key = k, le_revision = rv, le_value = val\<rparr>"
    by (cases entry)
  have len: "length r = 32 + length k + length inline"
    using r(1) inline_length_fields [OF v] entry by (simp add: leaf_record_length_def)
  have val_ok: "decode_leaf_value flags vlen aux (32 + length k) r = Inr val \<and> unat vlen \<le> MAX_VALUE_SIZE"
    using v assms(1,3) r(11) len unfolding entry
    by (intro decode_leaf_value_fields [where inline = inline and k = k and rv = rv]) simp_all
  have "unat (word_of_nat (length k) :: u16) = length k" "length k \<le> 65535"
    using r(2) by (simp_all add: entry key_ok_def unat_of_nat)
  then show ?thesis
    using r(2-10) len val_ok assms(3) unfolding entry
    by (simp add: decode_leaf_record_def Let_def checked_add_usize_def key_ok_def)
qed

interpretation leaf: slotted_record encode_leaf_record decode_leaf_record le_key LEAF_RECORD_HEADER_SIZE leaf_entry_wf
proof unfold_locales
  fix e :: leaf_entry and r
  obtain flags vlen aux inline where v: "value_fields (le_value e) = (flags, vlen, aux, inline)"
    by (cases "value_fields (le_value e)") auto
  show "LEAF_RECORD_HEADER_SIZE \<le> length r" "length (le_key e) \<le> 65535" if "encode_leaf_record e = Inr r"
    using encode_leaf_record_slices(1,2) [OF that v] by (simp_all add: leaf_record_length_def key_ok_def)
qed (simp_all add: decode_encode_leaf_record del: leaf_entry_wf.simps)

lemma encode_internal_record_slices:
  assumes "encode_internal_record entry = Inr r"
  shows "length r = 12 + length (ie_key entry)" "key_ok (ie_key entry)" "2 \<le> ie_right_child entry"
    and "byte_slice 0 2 r = u16_to_le_bytes (word_of_nat (length (ie_key entry)))"
    and "byte_slice 2 4 r = replicate 2 0"
    and "byte_slice 4 12 r = u64_to_le_bytes (ie_right_child entry)"
    and "byte_slice 12 (length r) r = ie_key entry"
  using assms
  by (auto simp: encode_internal_record_def key_ok_def Let_def checked_add_usize_def not_less
      codec_simps split: if_splits)

lemma encode_internal_record_ok:
  "(\<exists>r. encode_internal_record entry = Inr r) \<longleftrightarrow> key_ok (ie_key entry) \<and> 2 \<le> ie_right_child entry"
  by (auto simp: encode_internal_record_def key_ok_def Let_def checked_add_usize_def not_less not_le)

lemma decode_encode_internal_record:
  assumes "encode_internal_record entry = Inr r" "length r \<le> BODY_SIZE"
  shows "decode_internal_record r (length (ie_key entry)) = Inr entry"
proof -
  note r = encode_internal_record_slices [OF assms(1)]
  have "unat (word_of_nat (length (ie_key entry)) :: u16) = length (ie_key entry)"
    using r(2) by (simp add: key_ok_def unat_of_nat)
  moreover have "drop 12 r = ie_key entry"
    using r(7) by (simp add: byte_slice_def)
  ultimately show ?thesis
    using r assms(2) by (auto simp: decode_internal_record_def key_ok_def not_less Let_def)
qed

interpretation internal: slotted_record
  encode_internal_record decode_internal_record ie_key INTERNAL_RECORD_HEADER_SIZE "\<lambda>_. True"
  by unfold_locales
    (auto simp: decode_encode_internal_record key_ok_def dest: encode_internal_record_slices(1,2))

section \<open>Pages round trip\<close>

lemma length_magics [simp]:
  "length LEAF_MAGIC = 4" "length INTERNAL_MAGIC = 4" "length OVERFLOW_MAGIC = 4" "length FREE_MAGIC = 4"
  by (simp_all add: LEAF_MAGIC_def INTERNAL_MAGIC_def OVERFLOW_MAGIC_def FREE_MAGIC_def)

text \<open>What the store keeps of its page values.\<close>

fun page_data_wf :: "page_data \<Rightarrow> bool" where
  "page_data_wf (LeafPage lsn nxt entries) \<longleftrightarrow> nxt \<noteq> Some NULL_PAGE_ID \<and> (\<forall>e\<in>set entries. leaf_entry_wf e)"
| "page_data_wf (InternalPage lsn leftmost entries) \<longleftrightarrow> True"
| "page_data_wf (OverflowPage lsn nxt len chunk) \<longleftrightarrow> nxt \<noteq> Some NULL_PAGE_ID"
| "page_data_wf (FreePage lsn nxt) \<longleftrightarrow> nxt \<noteq> Some NULL_PAGE_ID"

lemma decode_encode_overflow:
  assumes "encode_overflow nxt len chunk = Inr body" "nxt \<noteq> Some NULL_PAGE_ID"
  shows "decode_overflow lsn body = Inr (OverflowPage lsn nxt len chunk)"
proof -
  let ?w = "word_of_nat (length chunk) :: u16"
  have chunk: "0 < len" "unat len \<le> MAX_VALUE_SIZE" "length chunk \<le> OVERFLOW_DATA_SIZE" "chunk \<noteq> []"
    using assms(1) by (auto simp: encode_overflow_def word_gt_0 split: if_splits)
  then have w: "unat ?w = length chunk" by (simp add: unat_of_nat)
  then have "?w \<noteq> 0" using chunk(4) by (metis length_0_conv unat_0)
  moreover have "length body = BODY_SIZE" "byte_slice 0 4 body = OVERFLOW_MAGIC"
    "byte_slice 4 6 body = u16_to_le_bytes 1" "byte_slice 6 8 body = replicate 2 0"
    "byte_slice 8 16 body = u64_to_le_bytes (encode_page_id nxt)"
    "byte_slice 16 24 body = u64_to_le_bytes len" "byte_slice 24 26 body = u16_to_le_bytes ?w"
    "byte_slice 26 32 body = replicate 6 0" "byte_slice 32 (32 + length chunk) body = chunk"
    using assms(1) chunk by (auto simp: encode_overflow_def Let_def codec_simps split: if_splits)
  ultimately show ?thesis
    using chunk w assms(2)
    by (simp add: decode_overflow_def check_body_size_def check_version_def codec_simps decode_encode_page_id)
qed

lemma decode_encode_free:
  assumes "encode_free nxt = Inr body" "nxt \<noteq> Some NULL_PAGE_ID"
  shows "decode_free lsn body = Inr (FreePage lsn nxt)"
proof -
  have body: "length body = BODY_SIZE" "byte_slice 0 4 body = FREE_MAGIC"
    "byte_slice 4 6 body = u16_to_le_bytes 1" "byte_slice 6 8 body = replicate 2 0"
    "byte_slice 8 16 body = u64_to_le_bytes (encode_page_id nxt)"
    "byte_slice 16 BODY_SIZE body = replicate 4048 0"
    using assms(1) by (auto simp: encode_free_def Let_def codec_simps)
  moreover have "drop 16 body = replicate 4048 0"
    using body(1,6) by (simp add: byte_slice_def)
  ultimately show ?thesis
    using assms(2)
    by (simp add: decode_free_def check_body_size_def check_version_def codec_simps decode_encode_page_id)
qed

lemma length_encode_slotted:
  "encode_slotted enc key magic ref entries = Inr body \<Longrightarrow> length magic = 4 \<Longrightarrow> length body = BODY_SIZE"
  by (erule encode_slotted_layout, assumption)
    (simp add: slotted_header_slices length_concat list_all2_lengthD)

lemma length_encode_body: "encode_body page = Inr body \<Longrightarrow> length body = BODY_SIZE"
  by (cases page)
    (auto simp: encode_leaf_def encode_internal_def encode_overflow_def encode_free_def Let_def
      dest: length_encode_slotted split: if_splits)

lemma decode_encode_body:
  assumes "encode_body page = Inr body" "page_data_wf page"
  shows "page_data_decode \<lparr>decoded_header =
      (page_header_new (page_data_type page) pid (page_data_lsn page))\<lparr>header_checksum := c\<rparr>,
      decoded_body = body\<rparr> = Inr page"
proof (cases page)
  case (LeafPage lsn nxt entries)
  then have "decode_slotted decode_leaf_record le_key LEAF_RECORD_HEADER_SIZE LEAF_MAGIC (\<lambda>_. True) body =
    Inr (encode_page_id nxt, entries)"
    using assms by (intro leaf.decode_encode_slotted) (simp_all add: encode_leaf_def)
  then show ?thesis
    using LeafPage assms(2)
    by (simp add: page_data_decode_def page_header_new_def decode_leaf_def decode_encode_page_id)
next
  case (InternalPage lsn leftmost entries)
  then have "decode_slotted decode_internal_record ie_key INTERNAL_RECORD_HEADER_SIZE INTERNAL_MAGIC
      (\<lambda>ref. 2 \<le> ref) body = Inr (leftmost, entries)"
    using assms by (intro internal.decode_encode_slotted) (auto simp: encode_internal_def not_less split: if_splits)
  then show ?thesis
    using InternalPage by (simp add: page_data_decode_def page_header_new_def decode_internal_def)
qed (use assms in \<open>simp_all add: page_data_decode_def page_header_new_def decode_encode_overflow decode_encode_free\<close>)

section \<open>When entries fit a page\<close>

lemma list_all2_ex: "(\<forall>e\<in>set es. \<exists>r. f e = Inr r) \<longleftrightarrow> (\<exists>rs. list_all2 (\<lambda>e r. f e = Inr r) es rs)"
proof
  assume "\<forall>e\<in>set es. \<exists>r. f e = Inr r"
  then have "list_all2 (\<lambda>e r. f e = Inr r) es (map (\<lambda>e. SOME r. f e = Inr r) es)"
    by (auto simp: list_all2_conv_all_nth intro: someI_ex)
  then show "\<exists>rs. list_all2 (\<lambda>e r. f e = Inr r) es rs" by blast
qed (auto simp: list_all2_conv_all_nth in_set_conv_nth)

lemma encode_slotted_ok:
  assumes "length magic = 4" "\<And>e r. enc e = Inr r \<Longrightarrow> length r = reclen e"
  shows "is_ok (encode_slotted enc key magic ref entries) \<longleftrightarrow>
    windows_ascending key entries \<and> (\<forall>e\<in>set entries. \<exists>r. enc e = Inr r) \<and>
    SLOTTED_HEADER_SIZE + (\<Sum>e\<leftarrow>entries. SLOT_SIZE + reclen e) \<le> BODY_SIZE"
proof -
  have total: "total_length recs = sum_list (map reclen entries)"
    if "list_all2 (\<lambda>e r. enc e = Inr r) entries recs" for recs
    using that assms(2) by (induction rule: list_all2_induct) auto
  have sum: "(\<Sum>e\<leftarrow>entries. SLOT_SIZE + reclen e) = SLOT_SIZE * length entries + sum_list (map reclen entries)"
    by (simp add: sum_list_addf sum_list_triv)
  show ?thesis (is "?l \<longleftrightarrow> ?r")
  proof
    assume ?l
    then obtain body where "encode_slotted enc key magic ref entries = Inr body" by (auto simp: is_ok_iff)
    then show ?r
      by (rule encode_slotted_layout [OF _ assms(1)]) (auto simp: list_all2_ex total sum)
  next
    assume r: ?r
    then obtain recs where recs: "list_all2 (\<lambda>e r. enc e = Inr r) entries recs"
      by (auto simp: list_all2_ex)
    show ?l
      using encode_slotted_returns [OF recs, of key magic ref] r total [OF recs] sum by (simp add: is_ok_iff)
  qed
qed

definition internal_record_length :: "internal_entry \<Rightarrow> nat" where
  "internal_record_length entry = INTERNAL_RECORD_HEADER_SIZE + length (ie_key entry)"

lemma encode_leaf_record_length: "encode_leaf_record e = Inr r \<Longrightarrow> length r = leaf_record_length e"
  by (cases "value_fields (le_value e)") (auto dest: encode_leaf_record_slices(1))

lemma leaf_fits_iff:
  "leaf_fits entries \<longleftrightarrow>
     windows_ascending le_key entries \<and> (\<forall>e\<in>set entries. key_ok (le_key e)) \<and>
     SLOTTED_HEADER_SIZE + (\<Sum>e\<leftarrow>entries. SLOT_SIZE + leaf_record_length e) \<le> BODY_SIZE"
proof -
  have "leaf_record_length e < 2 ^ 64"
    if "SLOTTED_HEADER_SIZE + (\<Sum>e\<leftarrow>entries. SLOT_SIZE + leaf_record_length e) \<le> BODY_SIZE" "e \<in> set entries" for e
    using that member_le_sum_list [of "SLOT_SIZE + leaf_record_length e" "map (\<lambda>e. SLOT_SIZE + leaf_record_length e) entries"]
    by auto
  then have "SLOTTED_HEADER_SIZE + (\<Sum>e\<leftarrow>entries. SLOT_SIZE + leaf_record_length e) \<le> BODY_SIZE \<Longrightarrow>
    (\<forall>e\<in>set entries. \<exists>r. encode_leaf_record e = Inr r) \<longleftrightarrow> (\<forall>e\<in>set entries. key_ok (le_key e))"
    by (intro ball_cong refl encode_leaf_record_ok)
  then show ?thesis
    using encode_slotted_ok [of LEAF_MAGIC encode_leaf_record leaf_record_length le_key, OF length_magics(1)
        encode_leaf_record_length]
    unfolding leaf_fits_def encode_leaf_def by blast
qed

lemma encode_internal_record_length:
  "encode_internal_record e = Inr r \<Longrightarrow> length r = internal_record_length e"
  by (simp add: encode_internal_record_slices(1) internal_record_length_def)

lemma internal_fits_iff:
  "internal_fits leftmost entries \<longleftrightarrow>
     2 \<le> leftmost \<and> windows_ascending ie_key entries \<and>
     (\<forall>e\<in>set entries. key_ok (ie_key e) \<and> 2 \<le> ie_right_child e) \<and>
     SLOTTED_HEADER_SIZE + (\<Sum>e\<leftarrow>entries. SLOT_SIZE + internal_record_length e) \<le> BODY_SIZE"
  using not_le [of 2 leftmost]
  by (auto simp: internal_fits_def encode_internal_def
      encode_slotted_ok [OF length_magics(2) encode_internal_record_length] encode_internal_record_ok)

text \<open>
  C13. The capacity checks that decide page splits are exact: a list of leaf (internal) entries fits
  a page exactly when its keys are strictly ascending and canonical, its children are tree pages,
  and header, slots and records together take at most the 4064 bytes of a page body.
\<close>

theorem page_fits_exact:
  "(leaf_fits entries \<longleftrightarrow>
      windows_ascending le_key entries \<and> list_all (\<lambda>e. key_ok (le_key e)) entries \<and>
      SLOTTED_HEADER_SIZE + (\<Sum>e\<leftarrow>entries. SLOT_SIZE + leaf_record_length e) \<le> BODY_SIZE) \<and>
   (internal_fits leftmost children \<longleftrightarrow>
      2 \<le> leftmost \<and> windows_ascending ie_key children \<and>
      list_all (\<lambda>e. key_ok (ie_key e) \<and> 2 \<le> ie_right_child e) children \<and>
      SLOTTED_HEADER_SIZE + (\<Sum>e\<leftarrow>children. SLOT_SIZE + internal_record_length e) \<le> BODY_SIZE)"
  unfolding leaf_fits_iff internal_fits_iff list_all_iff by (rule conjI; rule refl)

section \<open>Whole pages round trip\<close>

text \<open>
  C12. Every tree page survives its encoding: a leaf, internal, overflow or free page that encodes
  into a page buffer decodes, at its page id, to the same page value, entries, keys, values,
  links and LSN included.
\<close>

theorem page_data_round_trip:
  assumes "page_data_encode crc pid page = Inr bs" "page_data_wf page"
  shows "bindR (decode_page_at crc bs (Some pid)) page_data_decode = Inr page"
proof -
  obtain body where body: "encode_body page = Inr body"
    and bs: "encode_page crc (page_header_new (page_data_type page) pid (page_data_lsn page)) body = Inr bs"
    using assms(1) by (auto simp: page_data_encode_def)
  show ?thesis
    using decode_encode_page [OF bs, of "Some pid"] length_encode_body [OF body] decode_encode_body [OF body assms(2)]
    by (simp add: page_header_new_def)
qed

lemma encode_body_ok_page:
  "encode_body page = Inr body \<Longrightarrow> \<exists>bs. page_data_encode crc pid page = Inr bs"
  by (frule length_encode_body) (simp add: page_data_encode_def encode_page_ok page_header_new_def)

theorem page_data_round_trip_witness:
  "\<exists>bs. page_data_encode (\<lambda>_. 3) 7 (LeafPage 4 (Some 9)
        [\<lparr>le_key = document_key_encode (DocumentKey [1] [2]), le_revision = 4, le_value = Some (Inline [5, 6])\<rparr>]) =
      Inr bs \<and>
    bindR (decode_page_at (\<lambda>_. 3) bs (Some 7)) page_data_decode = Inr (LeafPage 4 (Some 9)
        [\<lparr>le_key = document_key_encode (DocumentKey [1] [2]), le_revision = 4, le_value = Some (Inline [5, 6])\<rparr>])"
proof -
  let ?e = "\<lparr>le_key = document_key_encode (DocumentKey [1] [2]), le_revision = 4, le_value = Some (Inline [5, 6])\<rparr>"
  have "encode_leaf_record ?e = Inr r \<Longrightarrow> length r = leaf_record_length ?e" for r
    by (rule encode_leaf_record_length)
  moreover have "\<exists>r. encode_leaf_record ?e = Inr r"
    by (simp add: encode_leaf_record_ok leaf_record_length_def key_ok_def length_document_key_encode
        document_key.decode_encode document_key_encoded_len_def encoded_component_len_def)
  ultimately have "is_ok (encode_leaf (Some 9) [?e])"
    unfolding encode_leaf_def
    by (subst encode_slotted_ok [of _ _ leaf_record_length, OF _ encode_leaf_record_length])
      (simp_all add: leaf_record_length_def length_document_key_encode document_key_encoded_len_def
        encoded_component_len_def)
  then obtain bs where bs: "page_data_encode (\<lambda>_. 3) 7 (LeafPage 4 (Some 9) [?e]) = Inr bs"
    using encode_body_ok_page unfolding is_ok_iff by (metis encode_body.simps(1))
  show ?thesis
    using page_data_round_trip [OF bs] bs by simp
qed

end
