(* ===== verification/Page_Cache.thy ===== *)
theory Page_Cache
  imports Page_Format
begin

text \<open>
  The read cache of \<open>dodb-storage/src/btree/cache.rs\<close>: a bounded map from page ids to decoded
  pages that evicts the least recently used page. The clock wraps, as in the code.
\<close>

record cache_entry =
  cached_page :: page_data
  last_used :: u64

record page_cache =
  cache_capacity :: usize
  cache_pages :: "(page_id, cache_entry) bmap"
  cache_clock :: u64

definition cache_new :: "usize \<Rightarrow> page_cache" where
  "cache_new capacity = \<lparr>cache_capacity = capacity, cache_pages = [], cache_clock = 0\<rparr>"

definition next_clock :: "page_cache \<Rightarrow> u64 \<times> page_cache" where
  "next_clock c = (let clock = cache_clock c + 1 in (clock, c\<lparr>cache_clock := clock\<rparr>))"

definition cache_get :: "page_id \<Rightarrow> page_cache \<Rightarrow> page_data option \<times> page_cache" where
  "cache_get pid c =
     (case next_clock c of (clock, c') \<Rightarrow>
       (case map_of (cache_pages c') pid of
          None \<Rightarrow> (None, c')
        | Some entry \<Rightarrow>
            (Some (cached_page entry),
             c'\<lparr>cache_pages := bm_insert pid (entry\<lparr>last_used := clock\<rparr>) (cache_pages c')\<rparr>)))"

text \<open>\<open>min_by_key\<close> on the clock: the first page in key order with the smallest stamp.\<close>

fun least_used :: "(page_id, cache_entry) bmap \<Rightarrow> (page_id \<times> u64) option" where
  "least_used [] = None"
| "least_used ((pid, entry) # rest) =
     (case least_used rest of
        None \<Rightarrow> Some (pid, last_used entry)
      | Some (victim, stamp) \<Rightarrow>
          if last_used entry \<le> stamp then Some (pid, last_used entry) else Some (victim, stamp))"

lemma least_used_Some_mem: "least_used m = Some (v, t) \<Longrightarrow> \<exists>e. (v, e) \<in> set m \<and> last_used e = t"
  by (induction m arbitrary: v t rule: least_used.induct) (fastforce split: option.splits if_splits)+

lemma length_bm_remove_less: "k \<in> fst ` set m \<Longrightarrow> length (bm_remove k m) < length m"
  by (auto simp: bm_remove_def length_filter_less)

function evict :: "usize \<Rightarrow> (page_id, cache_entry) bmap \<Rightarrow> (page_id, cache_entry) bmap" where
  "evict capacity pages =
     (if length pages > capacity then
        (case least_used pages of
           None \<Rightarrow> pages
         | Some (victim, _) \<Rightarrow> evict capacity (bm_remove victim pages))
      else pages)"
  by pat_completeness auto
termination
proof (relation "measure (\<lambda>(capacity, pages). length pages)")
  fix capacity pages x victim t
  assume "least_used pages = Some x" "(victim, t) = x"
  then have "victim \<in> fst ` set pages"
    using least_used_Some_mem [of pages victim t] by force
  then show "((capacity, bm_remove victim pages), (capacity, pages)) \<in> measure (\<lambda>(capacity, pages). length pages)"
    by (simp add: length_bm_remove_less)
qed simp

declare evict.simps [simp del]

definition cache_insert :: "page_id \<Rightarrow> page_data \<Rightarrow> page_cache \<Rightarrow> page_cache" where
  "cache_insert pid page c =
     (if cache_capacity c = 0 then c
      else
        (case next_clock c of (clock, c') \<Rightarrow>
          c'\<lparr>cache_pages := evict (cache_capacity c')
               (bm_insert pid \<lparr>cached_page = page, last_used = clock\<rparr> (cache_pages c'))\<rparr>))"

primrec cache_insert_many :: "(page_id \<times> page_data) list \<Rightarrow> page_cache \<Rightarrow> page_cache" where
  "cache_insert_many [] c = c"
| "cache_insert_many (p # ps) c = cache_insert_many ps (cache_insert (fst p) (snd p) c)"

definition cache_len :: "page_cache \<Rightarrow> usize" where
  "cache_len c = length (cache_pages c)"

section \<open>Eviction\<close>

lemma least_used_None [simp]: "least_used m = None \<longleftrightarrow> m = []"
  by (cases m rule: least_used.cases) (auto split: option.splits)

lemma least_used_minimal: "least_used m = Some (v, t) \<Longrightarrow> (p, e) \<in> set m \<Longrightarrow> t \<le> last_used e"
  by (induction m arbitrary: v t rule: least_used.induct)
    (force split: option.splits if_splits)+

lemma evict_capacity: "length (evict capacity pages) \<le> capacity"
proof (induction capacity pages rule: evict.induct)
  case (1 capacity pages)
  then show ?case
    by (subst evict.simps) (auto split: option.splits)
qed

lemma evict_wf: "bm_wf pages \<Longrightarrow> bm_wf (evict capacity pages)"
proof (induction capacity pages rule: evict.induct)
  case (1 capacity pages)
  then show ?case
    by (subst evict.simps) (auto split: option.splits)
qed

lemma map_le_upd_NoneD: "m \<subseteq>\<^sub>m f(x := None) \<Longrightarrow> m \<subseteq>\<^sub>m f"
  unfolding map_le_def by (metis domIff fun_upd_apply)

lemma evict_submap: "map_of (evict capacity pages) \<subseteq>\<^sub>m map_of pages"
proof (induction capacity pages rule: evict.induct)
  case (1 capacity pages)
  show ?case
  proof (cases "capacity < length pages \<and> least_used pages \<noteq> None")
    case True
    then obtain v t where v: "least_used pages = Some (v, t)" by (cases "least_used pages") auto
    then have "map_of (evict capacity (bm_remove v pages)) \<subseteq>\<^sub>m (map_of pages)(v := None)"
      using 1 True by (metis map_of_bm_remove)
    then have "map_of (evict capacity (bm_remove v pages)) \<subseteq>\<^sub>m map_of pages"
      by (rule map_le_upd_NoneD)
    then show ?thesis
      using True v by (subst evict.simps) simp
  qed (auto simp: evict.simps [of capacity pages])
qed

text \<open>A page more recently used than every other page is never the victim.\<close>

lemma evict_keeps_newest:
  assumes "0 < capacity" "bm_wf pages" "map_of pages p = Some e"
    and "\<And>q d. map_of pages q = Some d \<Longrightarrow> q \<noteq> p \<Longrightarrow> last_used d < last_used e"
  shows "map_of (evict capacity pages) p = Some e"
  using assms
proof (induction capacity pages rule: evict.induct)
  case (1 capacity pages)
  show ?case
  proof (cases "capacity < length pages")
    case False
    then show ?thesis using 1 by (subst evict.simps) simp
  next
    case True
    then obtain v t where v: "least_used pages = Some (v, t)"
      by (metis least_used_None list.size(3) not_less_zero option.exhaust surj_pair)
    have "distinct (map fst pages)" using 1(3) by (rule bmap.entries_distinct)
    have "v \<noteq> p"
    proof
      assume "v = p"
      obtain d where d: "(p, d) \<in> set pages" "last_used d = t"
        using least_used_Some_mem [OF v] \<open>v = p\<close> by blast
      then have "d = e" using 1(4) \<open>distinct (map fst pages)\<close> by (simp add: map_of_eq_Some_iff)
      have "\<exists>q c. (q, c) \<in> set pages \<and> q \<noteq> p"
      proof (rule ccontr)
        assume "\<not> ?thesis"
        then have "fst ` set pages \<subseteq> {p}" by auto
        then have "length pages \<le> 1"
          using distinct_card [OF \<open>distinct (map fst pages)\<close>] card_mono [of "{p}" "set (map fst pages)"]
          by simp
        then show False using True 1(2) by simp
      qed
      then obtain q c where "(q, c) \<in> set pages" "q \<noteq> p" by blast
      moreover from this have "last_used c < last_used e"
        using 1(5) \<open>distinct (map fst pages)\<close> by (simp add: map_of_eq_Some_iff)
      ultimately show False
        using least_used_minimal [OF v] d \<open>d = e\<close> by fastforce
    qed
    then have "map_of (evict capacity (bm_remove v pages)) p = Some e"
      using 1(2-) by (intro 1(1) [OF True v refl]) (auto split: if_splits)
    then show ?thesis using True v by (subst evict.simps) simp
  qed
qed

section \<open>The cache invariant\<close>

definition cache_wf :: "page_cache \<Rightarrow> bool" where
  "cache_wf c \<longleftrightarrow> bm_wf (cache_pages c) \<and> length (cache_pages c) \<le> cache_capacity c \<and>
     (\<forall>p e. map_of (cache_pages c) p = Some e \<longrightarrow> last_used e \<le> cache_clock c)"

definition cache_lookup :: "page_cache \<Rightarrow> page_id \<Rightarrow> page_data option" where
  "cache_lookup c p = map_option cached_page (map_of (cache_pages c) p)"

lemma cache_new_wf: "cache_wf (cache_new capacity)"
  by (simp add: cache_wf_def cache_new_def)

lemma clock_mono:
  assumes "(clock :: u64) \<noteq> - 1" "t \<le> clock"
  shows "t < clock + 1"
proof -
  have "unat (- 1 :: u64) = 18446744073709551615"
    by (simp add: unsigned_minus_1_eq_mask mask_eq_exp_minus_1)
  then have "unat clock < 18446744073709551615"
    using assms(1) unat_u64_less [of clock] by (simp add: word_unat_eq_iff del: unat_u64_less)
  then show ?thesis
    using assms(2) by (simp add: word_less_nat_alt word_le_nat_alt unat_word_ariths)
qed

lemma stamps_advance:
  "cache_clock c \<noteq> - 1 \<Longrightarrow> cache_wf c \<Longrightarrow> map_of (cache_pages c) p = Some e \<Longrightarrow> last_used e < cache_clock c + 1"
  by (simp add: cache_wf_def clock_mono)

lemma cache_get_wf:
  assumes "cache_clock c \<noteq> - 1" "cache_wf c" "cache_get p c = (r, c')"
  shows "cache_wf c'"
proof (cases "map_of (cache_pages c) p")
  case None
  then show ?thesis
    using assms stamps_advance [OF assms(1,2)]
    by (auto simp: cache_get_def next_clock_def Let_def cache_wf_def less_imp_le)
next
  case (Some e)
  then have "p \<in> fst ` set (cache_pages c)" by (force dest: map_of_SomeD)
  then have "length (bm_insert p x (cache_pages c)) = length (cache_pages c)" for x
    using assms(2) by (simp add: cache_wf_def length_bm_insert)
  then show ?thesis
    using Some assms stamps_advance [OF assms(1,2)]
    by (auto simp: cache_get_def next_clock_def Let_def cache_wf_def less_imp_le split: if_splits)
qed

lemma cache_get_result: "cache_get p c = (r, c') \<Longrightarrow> r = cache_lookup c p \<and> cache_lookup c' = cache_lookup c"
  by (auto simp: cache_get_def next_clock_def cache_lookup_def Let_def fun_eq_iff split: option.splits)

lemma cache_insert_wf: "cache_clock c \<noteq> - 1 \<Longrightarrow> cache_wf c \<Longrightarrow> cache_wf (cache_insert p page c)"
proof -
  assume *: "cache_clock c \<noteq> - 1" "cache_wf c"
  let ?m = "bm_insert p \<lparr>cached_page = page, last_used = cache_clock c + 1\<rparr> (cache_pages c)"
  have "last_used e \<le> cache_clock c + 1" if "map_of (evict (cache_capacity c) ?m) q = Some e" for q e
  proof -
    have "map_of ?m q = Some e"
      using that evict_submap [of "cache_capacity c" ?m] by (auto simp: map_le_def dom_def)
    then show ?thesis
      using * clock_mono by (auto simp: cache_wf_def less_imp_le split: if_splits)
  qed
  then show ?thesis
    using * by (auto simp: cache_wf_def cache_insert_def next_clock_def Let_def evict_wf evict_capacity)
qed

text \<open>
  C19. The page cache is a bounded, coherent read cache. Starting from a well-formed cache whose
  clock has not reached its maximum, inserting a page keeps it well-formed (at most
  \<open>capacity\<close> pages, stamps never ahead of the clock); a later lookup of that page returns it
  whenever the cache has any capacity; and every other page reads as before or not at all,
  never as something else.
\<close>

theorem cache_insert_coherent:
  assumes "cache_wf c" "cache_clock c \<noteq> - 1"
  shows "cache_wf (cache_insert p page c) \<and>
    (0 < cache_capacity c \<longrightarrow> fst (cache_get p (cache_insert p page c)) = Some page) \<and>
    (\<forall>q. q \<noteq> p \<longrightarrow> fst (cache_get q (cache_insert p page c)) \<in> {None, fst (cache_get q c)})"
proof -
  let ?e = "\<lparr>cached_page = page, last_used = cache_clock c + 1\<rparr>"
  let ?m = "bm_insert p ?e (cache_pages c)"
  have get: "fst (cache_get q d) = cache_lookup d q" for q d
    using cache_get_result by (metis prod.collapse)
  have newest: "map_of (evict (cache_capacity c) ?m) p = Some ?e" if "0 < cache_capacity c"
    using that assms clock_mono [OF assms(2)]
    by (intro evict_keeps_newest) (auto simp: cache_wf_def split: if_splits)
  have "map_of (evict (cache_capacity c) ?m) q \<in> {None, map_of (cache_pages c) q}" if "q \<noteq> p" for q
    using evict_submap [of "cache_capacity c" ?m] that
    by (cases "map_of (evict (cache_capacity c) ?m) q") (auto simp: map_le_def dom_def)
  then have "map_option cached_page (map_of (evict (cache_capacity c) ?m) q) \<in>
      {None, map_option cached_page (map_of (cache_pages c) q)}" if "q \<noteq> p" for q
    using that by fastforce
  then show ?thesis
    using cache_insert_wf [OF assms(2,1), of p page] newest unfolding get
    by (auto simp: cache_lookup_def cache_insert_def next_clock_def Let_def)
qed

theorem cache_insert_coherent_witness:
  "fst (cache_get 7 (cache_insert 7 (FreePage 1 None) (cache_new 1))) = Some (FreePage 1 None)"
  using cache_insert_coherent [OF cache_new_wf, of 1 7 "FreePage 1 None"] by (simp add: cache_new_def)

end
