(* ===== verification/Btree_Overlay.thy ===== *)
theory Btree_Overlay
  imports Page_Cache Wal_Log
begin

text \<open>
  The mutable B+Tree of \<open>dodb-storage/src/btree/mod.rs\<close>: the state of a store, the overlay in
  which a batch or a group of transactions is staged, and the tree operations on the overlay
  (descent, insertion with leaf and internal splits, overflow chains, the free list, point reads,
  queries and scans under a response budget). An overlay reads a page from its own map, then
  from the page cache, then from the committed dirty pages and the data file; it never writes the
  file. Timing metrics are left out, and the message of the \<open>broken\<close> flag is dropped.

  The \<open>BTreeSet\<close> of dirty pages is the ascending list of its elements; the \<open>HashSet\<close>s of visited
  pages are sets. \<open>binary_search_by\<close> and \<open>partition_point\<close> are given by their results on sorted
  entries, which is what decoded and encodable pages have.
\<close>

abbreviation FIRST_DATA_PAGE :: page_id where "FIRST_DATA_PAGE \<equiv> 2"
abbreviation MAX_ENCODED_KEY_SIZE :: usize where "MAX_ENCODED_KEY_SIZE \<equiv> 3992"
abbreviation SUPERBLOCK_A_OFFSET :: u64 where "SUPERBLOCK_A_OFFSET \<equiv> 0"
abbreviation SUPERBLOCK_B_OFFSET :: u64 where "SUPERBLOCK_B_OFFSET \<equiv> 4096"

section \<open>The store\<close>

record storage_limits =
  limit_inline_value :: usize
  limit_max_value :: usize

definition storage_limits_default :: storage_limits where
  "storage_limits_default = \<lparr>limit_inline_value = INLINE_VALUE_LIMIT, limit_max_value = MAX_VALUE_SIZE\<rparr>"

record database_config =
  cfg_database_uuid :: bytes
  cfg_tenant_id :: tenant_id
  cfg_shard_id :: shard_id
  cfg_shard_epoch :: shard_epoch
  cfg_cache_capacity :: usize
  cfg_limits :: storage_limits

definition database_config_default :: database_config where
  "database_config_default =
     \<lparr>cfg_database_uuid = replicate 16 0, cfg_tenant_id = 0, cfg_shard_id = 0, cfg_shard_epoch = 0,
      cfg_cache_capacity = 128, cfg_limits = storage_limits_default\<rparr>"

record stored_document =
  sd_key :: document_key
  sd_value :: bytes
  sd_revision :: revision

datatype batch_request =
    ReqGet document_key
  | ReqPut document_key bytes
  | ReqDelete document_key
  | ReqQuery primary_key "sort_key option" usize
  | ReqScan "document_key option" usize

datatype batch_response =
    RespGet revision_state
  | RespPut revision
  | RespDelete revision
  | RespQuery "stored_document list"
  | RespScan "stored_document list"

record ('f, 'w) btree_store =
  st_file :: 'f
  st_wal :: "'w wal_log option"
  st_current_superblock :: superblock
  st_active_slot :: superblock_slot
  st_root_page_id :: page_id
  st_free_list_head :: "page_id option"
  st_high_water_page_id :: page_id
  st_next_revision :: revision
  st_next_lsn :: lsn
  st_next_batch_id :: u64
  st_cache :: page_cache
  st_config :: database_config
  st_dirty_pages :: "(page_id, bytes) bmap"
  st_dirty_superblock :: "bytes option"
  st_track_published_pages :: bool
  st_published_page_updates :: "(page_id, page_data) bmap"
  st_broken :: bool
  st_fault_injector :: "crash_injector option"

definition page_offset :: "page_id \<Rightarrow> u64" where
  "page_offset pid = pid * 4096"

definition decode_page_data :: "(bytes \<Rightarrow> u32) \<Rightarrow> page_id \<Rightarrow> bytes \<Rightarrow> page_data result" where
  "decode_page_data crc pid bs = bindR (decode_page_at crc bs (Some pid)) page_data_decode"

definition read_page_from_file ::
  "(bytes \<Rightarrow> u32) \<Rightarrow> 'f durable_file_ops \<Rightarrow> page_id \<Rightarrow> (('f, 'w) btree_store, error, page_data) stateful"
where
  "read_page_from_file crc ops pid st =
     (case map_of (st_dirty_pages st) pid of
        Some bs \<Rightarrow> (decode_page_data crc pid bs, st)
      | None \<Rightarrow>
          (case read_exact_at ops (page_offset pid) PAGE_SIZE (st_file st) of
             (Inl e, f) \<Rightarrow> (Inl e, st\<lparr>st_file := f\<rparr>)
           | (Inr bs, f) \<Rightarrow> (decode_page_data crc pid bs, st\<lparr>st_file := f\<rparr>)))"

section \<open>Response budgets\<close>

record response_budget =
  maximum_wire :: usize
  maximum_memory :: usize
  used_wire :: usize
  used_memory :: usize

abbreviation RESPONSE_WIRE_OVERHEAD :: usize where "RESPONSE_WIRE_OVERHEAD \<equiv> 17"
abbreviation RESPONSE_MEMORY_OVERHEAD :: usize where "RESPONSE_MEMORY_OVERHEAD \<equiv> 65536"

definition budget_new :: "usize \<Rightarrow> response_budget result" where
  "budget_new maximum =
     (if maximum < RESPONSE_WIRE_OVERHEAD then Inl ResponseTooLarge
      else Inr \<lparr>maximum_wire = maximum, maximum_memory = saturating_add_usize maximum RESPONSE_MEMORY_OVERHEAD,
                used_wire = RESPONSE_WIRE_OVERHEAD, used_memory = 0\<rparr>)"

definition budget_reserve :: "usize \<Rightarrow> usize \<Rightarrow> (response_budget, error, unit) stateful" where
  "budget_reserve wire memory b =
     (case (checked_add_usize (used_wire b) wire, checked_add_usize (used_memory b) memory) of
        (Some next_wire, Some next_memory) \<Rightarrow>
          if next_wire > maximum_wire b \<or> next_memory > maximum_memory b then (Inl ResponseTooLarge, b)
          else (Inr (), b\<lparr>used_wire := next_wire, used_memory := next_memory\<rparr>)
      | _ \<Rightarrow> (Inl ResponseTooLarge, b))"

definition reserve_state :: "usize \<Rightarrow> (response_budget, error, unit) stateful" where
  "reserve_state value_len = budget_reserve (1 + 4 + value_len + 8) (saturating_add_usize value_len 32)"

definition reserve_document :: "document_key \<Rightarrow> usize \<Rightarrow> (response_budget, error, unit) stateful" where
  "reserve_document key value_len =
     (let content = saturating_add_usize (saturating_add_usize (length (pk key)) (length (sk key))) value_len;
          materialized = saturating_add_usize content 64;
          encoded = saturating_add_usize content 20
      in budget_reserve encoded (max materialized encoded))"

section \<open>The overlay\<close>

record ('f, 'w) overlay =
  ov_store :: "('f, 'w) btree_store"
  ov_pages :: "(page_id, page_data) bmap"
  ov_dirty :: "page_id list"
  ov_read_pages :: "(page_id, page_data) bmap"
  ov_allocated :: "page_id set"
  ov_root_page_id :: page_id
  ov_free_list_head :: "page_id option"
  ov_high_water_page_id :: page_id
  ov_next_revision :: revision
  ov_last_lsn :: "lsn option"
  ov_next_lsn :: lsn
  ov_next_batch_id :: u64
  ov_current_superblock :: superblock
  ov_active_slot :: superblock_slot

definition overlay_new :: "('f, 'w) btree_store \<Rightarrow> ('f, 'w) overlay" where
  "overlay_new st =
     \<lparr>ov_store = st, ov_pages = [], ov_dirty = [], ov_read_pages = [], ov_allocated = {},
      ov_root_page_id = st_root_page_id st, ov_free_list_head = st_free_list_head st,
      ov_high_water_page_id = st_high_water_page_id st, ov_next_revision = st_next_revision st,
      ov_last_lsn = None, ov_next_lsn = st_next_lsn st, ov_next_batch_id = st_next_batch_id st,
      ov_current_superblock = st_current_superblock st, ov_active_slot = st_active_slot st\<rparr>"

type_synonym ('f, 'w, 'a) overlay_op = "(('f, 'w) overlay, error, 'a) stateful"

definition check_page_id :: "page_id \<Rightarrow> ('f, 'w, unit) overlay_op" where
  "check_page_id pid ov =
     (if pid < FIRST_DATA_PAGE \<or> ov_high_water_page_id ov < pid then (Inl Corruption, ov) else (Inr (), ov))"

definition ov_page :: "(bytes \<Rightarrow> u32) \<Rightarrow> 'f durable_file_ops \<Rightarrow> page_id \<Rightarrow> ('f, 'w, page_data) overlay_op" where
  "ov_page crc ops pid =
     bindS (check_page_id pid) (\<lambda>_ ov.
       (case map_of (ov_pages ov) pid of
          Some page \<Rightarrow> (Inr page, ov)
        | None \<Rightarrow>
            (case cache_get pid (st_cache (ov_store ov)) of
               (Some page, cache) \<Rightarrow>
                 (Inr page, ov\<lparr>ov_store := (ov_store ov)\<lparr>st_cache := cache\<rparr>,
                               ov_pages := bm_insert pid page (ov_pages ov)\<rparr>)
             | (None, cache) \<Rightarrow>
                 (case read_page_from_file crc ops pid ((ov_store ov)\<lparr>st_cache := cache\<rparr>) of
                    (Inl e, st) \<Rightarrow> (Inl e, ov\<lparr>ov_store := st\<rparr>)
                  | (Inr page, st) \<Rightarrow>
                      (Inr page, ov\<lparr>ov_store := st,
                                    ov_read_pages := bm_insert pid page (ov_read_pages ov),
                                    ov_pages := bm_insert pid page (ov_pages ov)\<rparr>)))))"

definition replace_page :: "page_id \<Rightarrow> page_data \<Rightarrow> ('f, 'w, unit) overlay_op" where
  "replace_page pid page ov =
     (Inr (), ov\<lparr>ov_pages := bm_insert pid page (ov_pages ov), ov_dirty := insort_insert pid (ov_dirty ov)\<rparr>)"

definition ov_leaf ::
  "(bytes \<Rightarrow> u32) \<Rightarrow> 'f durable_file_ops \<Rightarrow> page_id \<Rightarrow> ('f, 'w, page_id option \<times> leaf_entry list) overlay_op"
where
  "ov_leaf crc ops pid =
     bindS (ov_page crc ops pid) (\<lambda>page.
       (case page of
          LeafPage _ next_leaf entries \<Rightarrow> returnS (next_leaf, entries)
        | _ \<Rightarrow> liftR (Inl Corruption)))"

definition ov_internal ::
  "(bytes \<Rightarrow> u32) \<Rightarrow> 'f durable_file_ops \<Rightarrow> page_id \<Rightarrow> ('f, 'w, page_id \<times> internal_entry list) overlay_op"
where
  "ov_internal crc ops pid =
     bindS (ov_page crc ops pid) (\<lambda>page.
       (case page of
          InternalPage _ leftmost_child entries \<Rightarrow> returnS (leftmost_child, entries)
        | _ \<Rightarrow> liftR (Inl Corruption)))"

section \<open>Allocation\<close>

definition allocate_page :: "(bytes \<Rightarrow> u32) \<Rightarrow> 'f durable_file_ops \<Rightarrow> ('f, 'w, page_id) overlay_op" where
  "allocate_page crc ops ov =
     (case ov_free_list_head ov of
        Some pid \<Rightarrow>
          bindS (ov_page crc ops pid) (\<lambda>page ov.
            (case page of
               FreePage _ nxt \<Rightarrow>
                 (Inr pid, ov\<lparr>ov_free_list_head := nxt, ov_allocated := insert pid (ov_allocated ov)\<rparr>)
             | _ \<Rightarrow> (Inl Corruption, ov))) ov
      | None \<Rightarrow>
          (case checked_add_u64 (ov_high_water_page_id ov) 1 of
             None \<Rightarrow> (Inl InternalInvariantViolation, ov)
           | Some pid \<Rightarrow>
               (Inr pid, ov\<lparr>ov_high_water_page_id := pid, ov_allocated := insert pid (ov_allocated ov)\<rparr>)))"

definition free_page :: "page_id \<Rightarrow> revision \<Rightarrow> ('f, 'w, unit) overlay_op" where
  "free_page pid lsn ov =
     bindS (replace_page pid (FreePage lsn (ov_free_list_head ov))) (\<lambda>_ ov.
       (Inr (), ov\<lparr>ov_free_list_head := Some pid\<rparr>))
       (ov\<lparr>ov_allocated := ov_allocated ov - {pid}\<rparr>)"

definition allocate_revision :: "('f, 'w, revision) overlay_op" where
  "allocate_revision ov =
     (let revision = (case ov_last_lsn ov of Some lsn \<Rightarrow> lsn | None \<Rightarrow> ov_next_revision ov)
      in (Inr revision, ov\<lparr>ov_last_lsn := Some revision\<rparr>))"

section \<open>Values\<close>

definition validate_value :: "bytes \<Rightarrow> ('f, 'w, unit) overlay_op" where
  "validate_value val ov =
     (if length val > limit_max_value (cfg_limits (st_config (ov_store ov))) \<or> length val > MAX_VALUE_SIZE
      then (Inl InvalidInput, ov) else (Inr (), ov))"

definition validate_encoded_key :: "bytes \<Rightarrow> unit result" where
  "validate_encoded_key key = (if length key > MAX_ENCODED_KEY_SIZE then Inl InvalidInput else Inr ())"

fun value_length :: "value_ref \<Rightarrow> usize result" where
  "value_length (Inline bs) = Inr (length bs)"
| "value_length (Overflow _ len) = Inr (unat len)"

text \<open>\<open>slice::chunks\<close>.\<close>

function chunks :: "nat \<Rightarrow> 'a list \<Rightarrow> 'a list list" where
  "chunks n xs = (if xs = [] \<or> n = 0 then [] else take n xs # chunks n (drop n xs))"
  by pat_completeness auto
termination by (relation "measure (\<lambda>(n, xs). length xs)") auto

declare chunks.simps [simp del]

primrec allocate_pages ::
  "(bytes \<Rightarrow> u32) \<Rightarrow> 'f durable_file_ops \<Rightarrow> nat \<Rightarrow> page_id list \<Rightarrow> ('f, 'w, page_id list) overlay_op"
where
  "allocate_pages crc ops 0 page_ids = returnS page_ids"
| "allocate_pages crc ops (Suc n) page_ids =
     bindS (allocate_page crc ops) (\<lambda>pid. allocate_pages crc ops n (page_ids @ [pid]))"

fun write_overflow_pages :: "revision \<Rightarrow> u64 \<Rightarrow> page_id list \<Rightarrow> bytes list \<Rightarrow> ('f, 'w, unit) overlay_op" where
  "write_overflow_pages lsn len (pid # pids) (chunk # rest) =
     bindS (replace_page pid
         (OverflowPage lsn (case pids of [] \<Rightarrow> None | nxt # _ \<Rightarrow> Some nxt) len chunk)) (\<lambda>_.
       write_overflow_pages lsn len pids rest)"
| "write_overflow_pages lsn len pids rest = returnS ()"

definition make_value ::
  "(bytes \<Rightarrow> u32) \<Rightarrow> 'f durable_file_ops \<Rightarrow> bytes \<Rightarrow> revision \<Rightarrow> ('f, 'w, value_ref) overlay_op"
where
  "make_value crc ops val lsn ov =
     (if length val \<le> limit_inline_value (cfg_limits (st_config (ov_store ov))) \<and> length val \<le> INLINE_VALUE_LIMIT
      then (Inr (Inline val), ov)
      else
        (let ids = (length val + OVERFLOW_DATA_SIZE - 1) div OVERFLOW_DATA_SIZE in
         if ids > MAX_OVERFLOW_PAGES then (Inl InvalidInput, ov)
         else
           bindS (allocate_pages crc ops ids []) (\<lambda>page_ids.
           bindS (write_overflow_pages lsn (word_of_nat (length val)) page_ids (chunks OVERFLOW_DATA_SIZE val)) (\<lambda>_.
             returnS (Overflow (hd page_ids) (word_of_nat (length val))))) ov))"

text \<open>A loop that marks the pages it visits ends: there are finitely many page ids.\<close>

lemma unvisited_less:
  fixes pid :: page_id
  assumes "pid \<notin> visited"
  shows "card (UNIV - visited) - Suc 0 < card (UNIV - visited)"
proof -
  have "pid \<in> UNIV - visited" using assms by simp
  then show ?thesis by (metis card_gt_0_iff diff_less empty_iff finite zero_less_Suc)
qed

function free_chain ::
  "(bytes \<Rightarrow> u32) \<Rightarrow> 'f durable_file_ops \<Rightarrow> u64 \<Rightarrow> revision \<Rightarrow> page_id option \<Rightarrow> page_id set \<Rightarrow> u64 \<Rightarrow> usize
     \<Rightarrow> ('f, 'w, u64) overlay_op"
where
  "free_chain crc ops len lsn None visited acc_len count ov = (Inr acc_len, ov)"
| "free_chain crc ops len lsn (Some current) visited acc_len count ov =
     (if current \<in> visited \<or> count \<ge> MAX_OVERFLOW_PAGES then (Inl Corruption, ov)
      else
        (case ov_page crc ops current ov of
           (Inl e, ov) \<Rightarrow> (Inl e, ov)
         | (Inr page, ov) \<Rightarrow>
             (case page of
                OverflowPage _ nxt page_total chunk \<Rightarrow>
                  if page_total \<noteq> len then (Inl Corruption, ov)
                  else
                    (case checked_add_u64 acc_len (word_of_nat (length chunk)) of
                       None \<Rightarrow> (Inl Corruption, ov)
                     | Some acc_len \<Rightarrow>
                         free_chain crc ops len lsn nxt (insert current visited) acc_len (count + 1)
                           (snd (free_page current lsn ov)))
              | _ \<Rightarrow> (Inl Corruption, ov))))"
  by pat_completeness auto
termination
  by (relation "measure (\<lambda>(crc, ops, len, lsn, pid, visited, acc_len, count, ov). card (UNIV - visited))")
    (auto intro: unvisited_less)

definition free_value ::
  "(bytes \<Rightarrow> u32) \<Rightarrow> 'f durable_file_ops \<Rightarrow> value_ref option \<Rightarrow> revision \<Rightarrow> ('f, 'w, unit) overlay_op"
where
  "free_value crc ops val lsn =
     (case val of
        Some (Overflow head len) \<Rightarrow>
          bindS (free_chain crc ops len lsn (Some head) {} 0 0) (\<lambda>acc_len.
            if acc_len \<noteq> len \<or> len = 0 then liftR (Inl Corruption) else returnS ())
      | _ \<Rightarrow> returnS ())"

function read_chain ::
  "(bytes \<Rightarrow> u32) \<Rightarrow> 'f durable_file_ops \<Rightarrow> u64 \<Rightarrow> page_id option \<Rightarrow> page_id set \<Rightarrow> bytes \<Rightarrow> usize
     \<Rightarrow> ('f, 'w, bytes) overlay_op"
where
  "read_chain crc ops len None visited out count ov = (Inr out, ov)"
| "read_chain crc ops len (Some current) visited out count ov =
     (if current \<in> visited \<or> count \<ge> MAX_OVERFLOW_PAGES then (Inl Corruption, ov)
      else
        (case ov_page crc ops current ov of
           (Inl e, ov) \<Rightarrow> (Inl e, ov)
         | (Inr page, ov) \<Rightarrow>
             (case page of
                OverflowPage _ nxt page_total chunk \<Rightarrow>
                  if page_total \<noteq> len then (Inl Corruption, ov)
                  else read_chain crc ops len nxt (insert current visited) (out @ chunk) (count + 1) ov
              | _ \<Rightarrow> (Inl Corruption, ov))))"
  by pat_completeness auto
termination
  by (relation "measure (\<lambda>(crc, ops, len, pid, visited, out, count, ov). card (UNIV - visited))")
    (auto intro: unvisited_less)

fun read_value ::
  "(bytes \<Rightarrow> u32) \<Rightarrow> 'f durable_file_ops \<Rightarrow> value_ref \<Rightarrow> ('f, 'w, bytes) overlay_op"
where
  "read_value crc ops (Inline val) = returnS val"
| "read_value crc ops (Overflow head len) =
     bindS (read_chain crc ops len (Some head) {} [] 0) (\<lambda>out.
       if word_of_nat (length out) \<noteq> len then liftR (Inl Corruption) else returnS out)"

section \<open>Descent\<close>

function find_leaf_loop ::
  "(bytes \<Rightarrow> u32) \<Rightarrow> 'f durable_file_ops \<Rightarrow> bytes \<Rightarrow> page_id \<Rightarrow> page_id list \<Rightarrow> page_id set
     \<Rightarrow> ('f, 'w, page_id \<times> page_id list) overlay_op"
where
  "find_leaf_loop crc ops key pid route visited ov =
     (if pid \<in> visited then (Inl Corruption, ov)
      else
        (case ov_page crc ops pid ov of
           (Inl e, ov) \<Rightarrow> (Inl e, ov)
         | (Inr page, ov) \<Rightarrow>
             (case page of
                LeafPage _ _ _ \<Rightarrow> (Inr (pid, route @ [pid]), ov)
              | InternalPage _ leftmost_child entries \<Rightarrow>
                  (let index = length (takeWhile (\<lambda>e. ie_key e \<le> key) entries) in
                   find_leaf_loop crc ops key
                     (if index = 0 then leftmost_child else ie_right_child (entries ! (index - 1)))
                     (route @ [pid]) (insert pid visited) ov)
              | _ \<Rightarrow> (Inl Corruption, ov))))"
  by pat_completeness auto
termination
  by (relation "measure (\<lambda>(crc, ops, key, pid, route, visited, ov). card (UNIV - visited))")
    (auto intro: unvisited_less)

definition find_leaf ::
  "(bytes \<Rightarrow> u32) \<Rightarrow> 'f durable_file_ops \<Rightarrow> bytes \<Rightarrow> ('f, 'w, page_id \<times> page_id list) overlay_op"
where
  "find_leaf crc ops key ov = find_leaf_loop crc ops key (ov_root_page_id ov) [] {} ov"

function leftmost_leaf_loop ::
  "(bytes \<Rightarrow> u32) \<Rightarrow> 'f durable_file_ops \<Rightarrow> page_id \<Rightarrow> page_id set \<Rightarrow> ('f, 'w, page_id) overlay_op"
where
  "leftmost_leaf_loop crc ops pid visited ov =
     (if pid \<in> visited then (Inl Corruption, ov)
      else
        (case ov_page crc ops pid ov of
           (Inl e, ov) \<Rightarrow> (Inl e, ov)
         | (Inr page, ov) \<Rightarrow>
             (case page of
                LeafPage _ _ _ \<Rightarrow> (Inr pid, ov)
              | InternalPage _ leftmost_child _ \<Rightarrow>
                  leftmost_leaf_loop crc ops leftmost_child (insert pid visited) ov
              | _ \<Rightarrow> (Inl Corruption, ov))))"
  by pat_completeness auto
termination
  by (relation "measure (\<lambda>(crc, ops, pid, visited, ov). card (UNIV - visited))")
    (auto intro: unvisited_less)

definition leftmost_leaf :: "(bytes \<Rightarrow> u32) \<Rightarrow> 'f durable_file_ops \<Rightarrow> ('f, 'w, page_id) overlay_op" where
  "leftmost_leaf crc ops ov = leftmost_leaf_loop crc ops (ov_root_page_id ov) {} ov"

declare free_chain.simps(2) [simp del] read_chain.simps(2) [simp del] find_leaf_loop.simps [simp del]
  leftmost_leaf_loop.simps [simp del]

section \<open>Splits\<close>

definition split_candidates :: "usize \<Rightarrow> usize list" where
  "split_candidates len =
     (let middle = len div 2
      in sort_key (\<lambda>candidate. if candidate \<le> middle then middle - candidate else candidate - middle) [1..<len])"

definition choose_leaf_split :: "leaf_entry list \<Rightarrow> usize result" where
  "choose_leaf_split entries =
     ok_or (find (\<lambda>candidate. leaf_fits (take candidate entries) \<and> leaf_fits (drop candidate entries))
              (split_candidates (length entries))) InvalidInput"

definition choose_internal_split :: "page_id \<Rightarrow> internal_entry list \<Rightarrow> usize result" where
  "choose_internal_split leftmost entries =
     (if length entries < 3 then Inl InvalidInput
      else
        ok_or (find (\<lambda>candidate. internal_fits leftmost (take candidate entries) \<and>
                   internal_fits (ie_right_child (entries ! candidate)) (drop (candidate + 1) entries))
                 (split_candidates (length entries))) InvalidInput)"

section \<open>Insertion\<close>

text \<open>The route is taken from its end: the list is the remaining route, nearest parent first.\<close>

fun insert_parent_loop ::
  "(bytes \<Rightarrow> u32) \<Rightarrow> 'f durable_file_ops \<Rightarrow> page_id list \<Rightarrow> bytes \<Rightarrow> page_id \<Rightarrow> revision \<Rightarrow> ('f, 'w, unit) overlay_op"
where
  "insert_parent_loop crc ops (parent_id # route) separator right_child lsn =
     bindS (ov_internal crc ops parent_id) (\<lambda>(leftmost_child, entries).
     (let index = length (takeWhile (\<lambda>e. ie_key e < separator) entries);
          entries = take index entries @ \<lparr>ie_key = separator, ie_right_child = right_child\<rparr> # drop index entries
      in if internal_fits leftmost_child entries
         then replace_page parent_id (InternalPage lsn leftmost_child entries)
         else
           bindS (liftR (choose_internal_split leftmost_child entries)) (\<lambda>split.
           (let promoted = ie_key (entries ! split);
                right_leftmost = ie_right_child (entries ! split)
            in bindS (allocate_page crc ops) (\<lambda>right_id.
               (let left_entries = take split entries;
                    right_entries = drop (split + 1) entries
                in if \<not> internal_fits leftmost_child left_entries \<or> \<not> internal_fits right_leftmost right_entries
                   then liftR (Inl InvalidInput)
                   else
                     bindS (replace_page parent_id (InternalPage lsn leftmost_child left_entries)) (\<lambda>_.
                     bindS (replace_page right_id (InternalPage lsn right_leftmost right_entries)) (\<lambda>_.
                       insert_parent_loop crc ops route promoted right_id lsn))))))))"
| "insert_parent_loop crc ops [] separator right_child lsn =
     bindS (allocate_page crc ops) (\<lambda>new_root_id ov.
     bindS (replace_page new_root_id
         (InternalPage lsn (ov_root_page_id ov) [\<lparr>ie_key = separator, ie_right_child = right_child\<rparr>])) (\<lambda>_ ov.
       (Inr (), ov\<lparr>ov_root_page_id := new_root_id\<rparr>)) ov)"

definition insert_parent_separator ::
  "(bytes \<Rightarrow> u32) \<Rightarrow> 'f durable_file_ops \<Rightarrow> page_id list \<Rightarrow> bytes \<Rightarrow> page_id \<Rightarrow> revision \<Rightarrow> ('f, 'w, unit) overlay_op"
where
  "insert_parent_separator crc ops route separator right_child lsn =
     insert_parent_loop crc ops (rev (butlast route)) separator right_child lsn"

definition insert_leaf_entries ::
  "(bytes \<Rightarrow> u32) \<Rightarrow> 'f durable_file_ops \<Rightarrow> page_id \<Rightarrow> page_id list \<Rightarrow> page_id option \<Rightarrow> leaf_entry list \<Rightarrow> revision
     \<Rightarrow> ('f, 'w, unit) overlay_op"
where
  "insert_leaf_entries crc ops leaf_id route next_leaf entries lsn =
     (if leaf_fits entries then replace_page leaf_id (LeafPage lsn next_leaf entries)
      else
        bindS (liftR (choose_leaf_split entries)) (\<lambda>split.
        bindS (allocate_page crc ops) (\<lambda>right_id.
        (let left_entries = take split entries;
             right_entries = drop split entries
         in case right_entries of
              [] \<Rightarrow> liftR (Inl InternalInvariantViolation)
            | first # _ \<Rightarrow>
                bindS (replace_page leaf_id (LeafPage lsn (Some right_id) left_entries)) (\<lambda>_.
                bindS (replace_page right_id (LeafPage lsn next_leaf right_entries)) (\<lambda>_.
                  insert_parent_separator crc ops route (le_key first) right_id lsn))))))"

section \<open>Point operations\<close>

definition leaf_search :: "bytes \<Rightarrow> leaf_entry list \<Rightarrow> usize + usize" where
  "leaf_search key entries =
     (let index = length (takeWhile (\<lambda>e. le_key e < key) entries)
      in if index < length entries \<and> le_key (entries ! index) = key then Inr index else Inl index)"

definition ov_put ::
  "(bytes \<Rightarrow> u32) \<Rightarrow> 'f durable_file_ops \<Rightarrow> document_key \<Rightarrow> bytes \<Rightarrow> ('f, 'w, revision) overlay_op"
where
  "ov_put crc ops key val =
     bindS (validate_value val) (\<lambda>_.
     (let encoded = document_key_encode key in
     bindS (liftR (validate_encoded_key encoded)) (\<lambda>_.
     bindS allocate_revision (\<lambda>revision.
     bindS (find_leaf crc ops encoded) (\<lambda>(leaf_id, route).
     bindS (ov_leaf crc ops leaf_id) (\<lambda>(next_leaf, entries).
     bindS (make_value crc ops val revision) (\<lambda>value_ref.
     (let entry = \<lparr>le_key = encoded, le_revision = revision, le_value = Some value_ref\<rparr>
      in case leaf_search encoded entries of
           Inr index \<Rightarrow>
             (let old_value = le_value (entries ! index) in
              bindS (insert_leaf_entries crc ops leaf_id route next_leaf (entries[index := entry]) revision) (\<lambda>_.
              bindS (free_value crc ops old_value revision) (\<lambda>_.
                returnS revision)))
         | Inl index \<Rightarrow>
             bindS (insert_leaf_entries crc ops leaf_id route next_leaf
                 (take index entries @ entry # drop index entries) revision) (\<lambda>_.
               returnS revision)))))))))"

definition ov_delete :: "(bytes \<Rightarrow> u32) \<Rightarrow> 'f durable_file_ops \<Rightarrow> document_key \<Rightarrow> ('f, 'w, revision) overlay_op" where
  "ov_delete crc ops key =
     (let encoded = document_key_encode key in
     bindS (liftR (validate_encoded_key encoded)) (\<lambda>_.
     bindS allocate_revision (\<lambda>revision.
     bindS (find_leaf crc ops encoded) (\<lambda>(leaf_id, route).
     bindS (ov_leaf crc ops leaf_id) (\<lambda>(next_leaf, entries).
     (let entry = \<lparr>le_key = encoded, le_revision = revision, le_value = None\<rparr>
      in case leaf_search encoded entries of
           Inr index \<Rightarrow>
             (let old_value = le_value (entries ! index) in
              bindS (replace_page leaf_id (LeafPage revision next_leaf (entries[index := entry]))) (\<lambda>_.
              bindS (free_value crc ops old_value revision) (\<lambda>_.
                returnS revision)))
         | Inl index \<Rightarrow>
             bindS (insert_leaf_entries crc ops leaf_id route next_leaf
                 (take index entries @ entry # drop index entries) revision) (\<lambda>_.
               returnS revision)))))))"

definition get_observed_state ::
  "(bytes \<Rightarrow> u32) \<Rightarrow> 'f durable_file_ops \<Rightarrow> document_key \<Rightarrow> ('f, 'w, observed_state) overlay_op"
where
  "get_observed_state crc ops key =
     (let encoded = document_key_encode key in
     bindS (liftR (validate_encoded_key encoded)) (\<lambda>_.
     bindS (find_leaf crc ops encoded) (\<lambda>(leaf_id, _).
     bindS (ov_leaf crc ops leaf_id) (\<lambda>(_, entries).
       (case find (\<lambda>e. le_key e = encoded) entries of
          None \<Rightarrow> returnS (ObservedMissing 0)
        | Some entry \<Rightarrow>
            if le_value entry \<noteq> None then returnS (ObservedPresent (le_revision entry))
            else returnS (ObservedMissing (le_revision entry)))))))"

end
