(* ===== verification/Btree_Reads.thy ===== *)
theory Btree_Reads
  imports Btree_Overlay
begin

text \<open>
  Reads of an overlay that return values under a response budget: point reads, queries of one
  primary key and scans of the whole key space, both following the chain of leaves, and the
  execution of one request of a batch (\<open>execute_with_budget\<close> of
  \<open>dodb-storage/src/btree/mod.rs\<close>). The budget is a second mutable argument of the code and
  the second component of the state here.
\<close>

type_synonym ('f, 'w, 'a) budgeted_op = "(('f, 'w) overlay \<times> response_budget, error, 'a) stateful"

definition on_overlay :: "('f, 'w, 'a) overlay_op \<Rightarrow> ('f, 'w, 'a) budgeted_op" where
  "on_overlay m s = (case m (fst s) of (r, ov) \<Rightarrow> (r, ov, snd s))"

definition on_budget :: "(response_budget, error, 'a) stateful \<Rightarrow> ('f, 'w, 'a) budgeted_op" where
  "on_budget m s = (case m (snd s) of (r, b) \<Rightarrow> (r, fst s, b))"

definition get_state_with_budget ::
  "(bytes \<Rightarrow> u32) \<Rightarrow> 'f durable_file_ops \<Rightarrow> document_key \<Rightarrow> ('f, 'w, revision_state) budgeted_op"
where
  "get_state_with_budget crc ops key =
     (let encoded = document_key_encode key in
     bindS (liftR (validate_encoded_key encoded)) (\<lambda>_.
     bindS (on_overlay (find_leaf crc ops encoded)) (\<lambda>(leaf_id, _).
     bindS (on_overlay (ov_leaf crc ops leaf_id)) (\<lambda>(_, entries).
       (case find (\<lambda>e. le_key e = encoded) entries of
          None \<Rightarrow> bindS (on_budget (reserve_state 0)) (\<lambda>_. returnS (Missing 0))
        | Some entry \<Rightarrow>
            (case le_value entry of
               Some value_ref \<Rightarrow>
                 bindS (liftR (value_length value_ref)) (\<lambda>len.
                 bindS (on_budget (reserve_state len)) (\<lambda>_.
                 bindS (on_overlay (read_value crc ops value_ref)) (\<lambda>val.
                   returnS (Present val (le_revision entry)))))
             | None \<Rightarrow>
                 bindS (on_budget (reserve_state 0)) (\<lambda>_. returnS (Missing (le_revision entry)))))))))"

definition read_row ::
  "(bytes \<Rightarrow> u32) \<Rightarrow> 'f durable_file_ops \<Rightarrow> document_key \<Rightarrow> value_ref \<Rightarrow> revision
     \<Rightarrow> ('f, 'w, stored_document) budgeted_op"
where
  "read_row crc ops key value_ref revision =
     bindS (liftR (value_length value_ref)) (\<lambda>len.
     bindS (on_budget (reserve_document key len)) (\<lambda>_.
     bindS (on_overlay (read_value crc ops value_ref)) (\<lambda>val.
       returnS \<lparr>sd_key = key, sd_value = val, sd_revision = revision\<rparr>)))"

text \<open>
  The loop over the entries of one leaf: it returns the rows, whether the query is complete, and
  the flag for the first entries.
\<close>

fun query_entries ::
  "(bytes \<Rightarrow> u32) \<Rightarrow> 'f durable_file_ops \<Rightarrow> primary_key \<Rightarrow> sort_key option \<Rightarrow> bytes option \<Rightarrow> usize \<Rightarrow> bool
     \<Rightarrow> stored_document list \<Rightarrow> leaf_entry list \<Rightarrow> ('f, 'w, bool \<times> bool \<times> stored_document list) budgeted_op"
where
  "query_entries crc ops qpk after_sk cursor limit first rows [] = returnS (False, first, rows)"
| "query_entries crc ops qpk after_sk cursor limit first rows (entry # entries) =
     (if first \<and> (case cursor of None \<Rightarrow> False | Some c \<Rightarrow> le_key entry \<le> c)
      then query_entries crc ops qpk after_sk cursor limit first rows entries
      else
        bindS (liftR (map_err (\<lambda>_. Corruption) (document_key_decode (le_key entry)))) (\<lambda>key.
        if pk key \<noteq> qpk then
          if qpk < pk key then returnS (True, False, rows)
          else query_entries crc ops qpk after_sk cursor limit False rows entries
        else if (case after_sk of None \<Rightarrow> False | Some c \<Rightarrow> sk key \<le> c)
        then query_entries crc ops qpk after_sk cursor limit False rows entries
        else
          (case le_value entry of
             None \<Rightarrow> query_entries crc ops qpk after_sk cursor limit False rows entries
           | Some value_ref \<Rightarrow>
               bindS (read_row crc ops key value_ref (le_revision entry)) (\<lambda>row.
                 if length (rows @ [row]) = limit then returnS (True, False, rows @ [row])
                 else query_entries crc ops qpk after_sk cursor limit False (rows @ [row]) entries))))"

function query_leaves ::
  "(bytes \<Rightarrow> u32) \<Rightarrow> 'f durable_file_ops \<Rightarrow> primary_key \<Rightarrow> sort_key option \<Rightarrow> bytes option \<Rightarrow> usize \<Rightarrow> page_id
     \<Rightarrow> bool \<Rightarrow> page_id set \<Rightarrow> stored_document list \<Rightarrow> ('f, 'w, stored_document list) budgeted_op"
where
  "query_leaves crc ops qpk after_sk cursor limit leaf_id first visited rows s =
     (if length rows < limit then
        if leaf_id \<in> visited then (Inl Corruption, s)
        else
          bindS (on_overlay (ov_leaf crc ops leaf_id)) (\<lambda>(next_leaf, entries).
          bindS (query_entries crc ops qpk after_sk cursor limit first rows entries) (\<lambda>(complete, _, rows) s.
            if complete then (Inr rows, s)
            else
              (case next_leaf of
                 None \<Rightarrow> (Inr rows, s)
               | Some next_id \<Rightarrow>
                   query_leaves crc ops qpk after_sk cursor limit next_id False (insert leaf_id visited) rows s))) s
      else (Inr rows, s))"
  by pat_completeness auto
termination
  by (relation "measure (\<lambda>(crc, ops, qpk, after_sk, cursor, limit, leaf_id, first, visited, rows, s).
       card (UNIV - visited))")
    (auto intro: unvisited_less)

definition query_with_budget ::
  "(bytes \<Rightarrow> u32) \<Rightarrow> 'f durable_file_ops \<Rightarrow> primary_key \<Rightarrow> sort_key option \<Rightarrow> usize
     \<Rightarrow> ('f, 'w, stored_document list) budgeted_op"
where
  "query_with_budget crc ops qpk after_sk limit =
     (if limit = 0 then returnS []
      else
        (let start_key = document_key_encode (DocumentKey qpk []) in
        bindS (liftR (validate_encoded_key start_key)) (\<lambda>_.
        bindS (on_overlay (find_leaf crc ops start_key)) (\<lambda>(leaf_id, _).
        (let cursor = map_option (\<lambda>s. document_key_encode (DocumentKey qpk s)) after_sk in
        bindS (liftR (case cursor of None \<Rightarrow> Inr () | Some c \<Rightarrow> validate_encoded_key c)) (\<lambda>_.
          query_leaves crc ops qpk after_sk cursor limit leaf_id True {} []))))))"

fun scan_entries ::
  "(bytes \<Rightarrow> u32) \<Rightarrow> 'f durable_file_ops \<Rightarrow> bytes option \<Rightarrow> usize \<Rightarrow> stored_document list \<Rightarrow> leaf_entry list
     \<Rightarrow> ('f, 'w, bool \<times> stored_document list) budgeted_op"
where
  "scan_entries crc ops cursor limit rows [] = returnS (False, rows)"
| "scan_entries crc ops cursor limit rows (entry # entries) =
     (if (case cursor of None \<Rightarrow> False | Some c \<Rightarrow> le_key entry \<le> c)
      then scan_entries crc ops cursor limit rows entries
      else
        bindS (liftR (map_err (\<lambda>_. Corruption) (document_key_decode (le_key entry)))) (\<lambda>key.
          (case le_value entry of
             None \<Rightarrow> scan_entries crc ops cursor limit rows entries
           | Some value_ref \<Rightarrow>
               bindS (read_row crc ops key value_ref (le_revision entry)) (\<lambda>row.
                 if length (rows @ [row]) = limit then returnS (True, rows @ [row])
                 else scan_entries crc ops cursor limit (rows @ [row]) entries))))"

function scan_leaves ::
  "(bytes \<Rightarrow> u32) \<Rightarrow> 'f durable_file_ops \<Rightarrow> bytes option \<Rightarrow> usize \<Rightarrow> page_id \<Rightarrow> page_id set \<Rightarrow> stored_document list
     \<Rightarrow> ('f, 'w, stored_document list) budgeted_op"
where
  "scan_leaves crc ops cursor limit leaf_id visited rows s =
     (if leaf_id \<in> visited then (Inl Corruption, s)
      else
        bindS (on_overlay (ov_leaf crc ops leaf_id)) (\<lambda>(next_leaf, entries).
        bindS (scan_entries crc ops cursor limit rows entries) (\<lambda>(complete, rows) s.
          if complete then (Inr rows, s)
          else
            (case next_leaf of
               None \<Rightarrow> (Inr rows, s)
             | Some next_id \<Rightarrow> scan_leaves crc ops cursor limit next_id (insert leaf_id visited) rows s))) s)"
  by pat_completeness auto
termination
  by (relation "measure (\<lambda>(crc, ops, cursor, limit, leaf_id, visited, rows, s). card (UNIV - visited))")
    (auto intro: unvisited_less)

declare query_leaves.simps [simp del] scan_leaves.simps [simp del]

definition scan_with_budget ::
  "(bytes \<Rightarrow> u32) \<Rightarrow> 'f durable_file_ops \<Rightarrow> document_key option \<Rightarrow> usize
     \<Rightarrow> ('f, 'w, stored_document list) budgeted_op"
where
  "scan_with_budget crc ops cursor limit =
     (if limit = 0 then returnS []
      else
        bindS (case cursor of
                 Some key \<Rightarrow>
                   (let encoded = document_key_encode key in
                    bindS (liftR (validate_encoded_key encoded)) (\<lambda>_.
                      bindS (on_overlay (find_leaf crc ops encoded)) (\<lambda>(leaf_id, _). returnS leaf_id)))
               | None \<Rightarrow> on_overlay (leftmost_leaf crc ops)) (\<lambda>leaf_id.
          scan_leaves crc ops (map_option document_key_encode cursor) limit leaf_id {} []))"

definition execute_with_budget ::
  "(bytes \<Rightarrow> u32) \<Rightarrow> 'f durable_file_ops \<Rightarrow> batch_request \<Rightarrow> ('f, 'w, batch_response) budgeted_op"
where
  "execute_with_budget crc ops req =
     (case req of
        ReqGet key \<Rightarrow> bindS (get_state_with_budget crc ops key) (\<lambda>state. returnS (RespGet state))
      | ReqPut key val \<Rightarrow> bindS (on_overlay (ov_put crc ops key val)) (\<lambda>revision. returnS (RespPut revision))
      | ReqDelete key \<Rightarrow> bindS (on_overlay (ov_delete crc ops key)) (\<lambda>revision. returnS (RespDelete revision))
      | ReqQuery qpk after_sk limit \<Rightarrow>
          bindS (query_with_budget crc ops qpk after_sk limit) (\<lambda>rows. returnS (RespQuery rows))
      | ReqScan cursor limit \<Rightarrow>
          bindS (scan_with_budget crc ops cursor limit) (\<lambda>rows. returnS (RespScan rows)))"

end
