(* ===== verification/Btree_Transaction.thy ===== *)
theory Btree_Transaction
  imports Btree_Reads
begin

text \<open>
  Staging a transaction or a batch in an overlay and turning what it changed into a prepared
  batch (\<open>prepare_transaction\<close>, \<open>finish_transaction\<close>, \<open>finish\<close> and \<open>restamp_responses\<close> of
  \<open>dodb-storage/src/btree/mod.rs\<close>). Writes are staged under a provisional revision, and the
  dirty pages are restamped with the commit LSN once the number of page images is known.
\<close>

record prepared_batch =
  pb_responses :: "batch_response list"
  pb_changed_pages :: "(page_id, bytes) bmap"
  pb_changed_decoded :: "(page_id, page_data) bmap"
  pb_read_pages :: "(page_id, page_data) bmap"
  pb_new_superblock :: superblock
  pb_new_slot :: superblock_slot
  pb_base_generation :: u64
  pb_next_revision :: revision
  pb_root_page_id :: page_id
  pb_free_list_head :: "page_id option"
  pb_high_water_page_id :: page_id
  pb_commit_lsn :: "lsn option"
  pb_batch_id :: u64

definition validate_transaction_mutation :: "transaction_mutation \<Rightarrow> ('f, 'w, unit) overlay_op" where
  "validate_transaction_mutation mutation =
     (case mutation of
        MutPut key val \<Rightarrow>
          bindS (validate_value val) (\<lambda>_. liftR (validate_encoded_key (document_key_encode key)))
      | MutDelete key \<Rightarrow> liftR (validate_encoded_key (document_key_encode key)))"

primrec validate_mutations :: "transaction_mutation list \<Rightarrow> ('f, 'w, unit) overlay_op" where
  "validate_mutations [] = returnS ()"
| "validate_mutations (m # ms) = bindS (validate_transaction_mutation m) (\<lambda>_. validate_mutations ms)"

primrec check_conditions ::
  "(bytes \<Rightarrow> u32) \<Rightarrow> 'f durable_file_ops \<Rightarrow> transaction_condition list \<Rightarrow> ('f, 'w, unit) overlay_op"
where
  "check_conditions crc ops [] = returnS ()"
| "check_conditions crc ops (c # cs) =
     bindS (get_observed_state crc ops (condition_key c)) (\<lambda>actual.
       if condition_satisfied c actual then check_conditions crc ops cs
       else liftR (Inl (conflict_of c actual)))"

primrec apply_mutations ::
  "(bytes \<Rightarrow> u32) \<Rightarrow> 'f durable_file_ops \<Rightarrow> transaction_mutation list \<Rightarrow> ('f, 'w, unit) overlay_op"
where
  "apply_mutations crc ops [] = returnS ()"
| "apply_mutations crc ops (m # ms) =
     bindS (case m of
              MutPut key val \<Rightarrow> ov_put crc ops key val
            | MutDelete key \<Rightarrow> ov_delete crc ops key) (\<lambda>_.
       apply_mutations crc ops ms)"

text \<open>The two loops over the dirty pages: restamping and encoding.\<close>

primrec restamp_dirty :: "revision \<Rightarrow> lsn \<Rightarrow> page_id list \<Rightarrow> ('f, 'w, unit) overlay_op" where
  "restamp_dirty provisional committed [] ov = (Inr (), ov)"
| "restamp_dirty provisional committed (pid # pids) ov =
     (case map_of (ov_pages ov) pid of
        None \<Rightarrow> (Inl InternalInvariantViolation, ov)
      | Some page \<Rightarrow>
          restamp_dirty provisional committed pids
            (ov\<lparr>ov_pages := bm_insert pid (restamp provisional committed page) (ov_pages ov)\<rparr>))"

primrec encode_changed ::
  "(bytes \<Rightarrow> u32) \<Rightarrow> (page_id, page_data) bmap \<Rightarrow> page_id list \<Rightarrow> (page_id, bytes) bmap \<Rightarrow> (page_id, page_data) bmap
     \<Rightarrow> ((page_id, bytes) bmap \<times> (page_id, page_data) bmap) result"
where
  "encode_changed crc pages [] changed decoded = Inr (changed, decoded)"
| "encode_changed crc pages (pid # pids) changed decoded =
     (case map_of pages pid of
        None \<Rightarrow> Inl InternalInvariantViolation
      | Some page \<Rightarrow>
          bindR (page_data_encode crc pid page) (\<lambda>bs.
            encode_changed crc pages pids (bm_insert pid bs changed) (bm_insert pid page decoded)))"

text \<open>The superblock of the next generation, normalised by an encode and a decode.\<close>

definition next_superblock ::
  "(bytes \<Rightarrow> u32) \<Rightarrow> superblock \<Rightarrow> page_id \<Rightarrow> page_id option \<Rightarrow> page_id \<Rightarrow> superblock result"
where
  "next_superblock crc current root free_head high_water =
     bindR (ok_or (checked_add_u64 (sb_generation current) 1) InternalInvariantViolation) (\<lambda>generation.
     bindR (encode_superblock crc (current\<lparr>sb_generation := generation, sb_root_page_id := Some root,
              sb_free_list_head := free_head, sb_high_water_page_id := Some high_water\<rparr>)) (\<lambda>bs.
       decode_superblock crc bs))"

definition wal_commit_lsn :: "lsn \<Rightarrow> nat \<Rightarrow> lsn result" where
  "wal_commit_lsn next_lsn dirty_count =
     bindR (ok_or (checked_add_usize dirty_count 1) InternalInvariantViolation) (\<lambda>image_count.
       ok_or (checked_add_u64 next_lsn (word_of_nat image_count)) InternalInvariantViolation)"

definition ov_get :: "(('f, 'w) overlay \<Rightarrow> 'a) \<Rightarrow> ('f, 'w, 'a) overlay_op" where
  "ov_get field ov = (Inr (field ov), ov)"

definition ov_modify :: "(('f, 'w) overlay \<Rightarrow> ('f, 'w) overlay) \<Rightarrow> ('f, 'w, unit) overlay_op" where
  "ov_modify update ov = (Inr (), update ov)"

definition finish_transaction :: "(bytes \<Rightarrow> u32) \<Rightarrow> ('f, 'w, prepared_batch) overlay_op" where
  "finish_transaction crc =
     bindS (ov_get id) (\<lambda>ov.
     bindS (ok_orS (ov_last_lsn ov) InternalInvariantViolation) (\<lambda>provisional.
     bindS (if st_wal (ov_store ov) \<noteq> None
            then liftR (wal_commit_lsn (ov_next_lsn ov) (length (ov_dirty ov)))
            else returnS provisional) (\<lambda>commit_lsn.
     bindS (restamp_dirty provisional commit_lsn (ov_dirty ov)) (\<lambda>_.
     bindS (liftR (next_superblock crc (ov_current_superblock ov) (ov_root_page_id ov) (ov_free_list_head ov)
              (ov_high_water_page_id ov))) (\<lambda>new_superblock.
     bindS (ov_get ov_pages) (\<lambda>pages.
     bindS (liftR (encode_changed crc pages (ov_dirty ov) [] [])) (\<lambda>(changed, decoded).
     bindS (ov_modify (\<lambda>ov. ov\<lparr>ov_read_pages := []\<rparr>)) (\<lambda>_.
     bindS (ok_orS (checked_add_u64 commit_lsn 1) InternalInvariantViolation) (\<lambda>next_revision.
     (let new_slot = other_slot (ov_active_slot ov);
          prepared = \<lparr>pb_responses = [], pb_changed_pages = changed, pb_changed_decoded = decoded,
            pb_read_pages = ov_read_pages ov, pb_new_superblock = new_superblock, pb_new_slot = new_slot,
            pb_base_generation = sb_generation (ov_current_superblock ov), pb_next_revision = next_revision,
            pb_root_page_id = ov_root_page_id ov, pb_free_list_head = ov_free_list_head ov,
            pb_high_water_page_id = ov_high_water_page_id ov, pb_commit_lsn = Some commit_lsn,
            pb_batch_id = ov_next_batch_id ov\<rparr>
      in bindS (ov_modify (\<lambda>ov. ov\<lparr>ov_current_superblock := new_superblock, ov_active_slot := new_slot,
             ov_next_revision := next_revision\<rparr>)) (\<lambda>_.
         bindS (ok_orS (checked_add_u64 commit_lsn 1) InternalInvariantViolation) (\<lambda>next_lsn.
         bindS (ov_modify (\<lambda>ov. ov\<lparr>ov_next_lsn := next_lsn\<rparr>)) (\<lambda>_.
         bindS (ok_orS (checked_add_u64 (ov_next_batch_id ov) 1) InternalInvariantViolation) (\<lambda>next_batch_id.
         bindS (ov_modify (\<lambda>ov. ov\<lparr>ov_next_batch_id := next_batch_id, ov_dirty := [], ov_last_lsn := None\<rparr>)) (\<lambda>_.
           returnS prepared)))))))))))))))"

definition prepare_transaction ::
  "(bytes \<Rightarrow> u32) \<Rightarrow> 'f durable_file_ops \<Rightarrow> transaction_request \<Rightarrow> ('f, 'w, prepared_batch option) overlay_op"
where
  "prepare_transaction crc ops req =
     bindS (liftR (validate_request req)) (\<lambda>_.
     bindS (validate_mutations (mutations req)) (\<lambda>_.
     bindS (check_conditions crc ops (conditions req)) (\<lambda>_.
       if mutations req = [] then returnS None
       else
         bindS (apply_mutations crc ops (mutations req)) (\<lambda>_.
         bindS (finish_transaction crc) (\<lambda>prepared. returnS (Some prepared))))))"

section \<open>Batches\<close>

fun restamp_state :: "revision \<Rightarrow> revision \<Rightarrow> revision_state \<Rightarrow> revision_state" where
  "restamp_state provisional committed (Present val r) =
     Present val (if r = provisional then committed else r)"
| "restamp_state provisional committed (Missing r) = Missing (if r = provisional then committed else r)"

definition restamp_row :: "revision \<Rightarrow> revision \<Rightarrow> stored_document \<Rightarrow> stored_document" where
  "restamp_row provisional committed row =
     (if sd_revision row = provisional then row\<lparr>sd_revision := committed\<rparr> else row)"

fun restamp_response :: "revision \<Rightarrow> revision \<Rightarrow> batch_response \<Rightarrow> batch_response" where
  "restamp_response provisional committed (RespPut r) = RespPut (if r = provisional then committed else r)"
| "restamp_response provisional committed (RespDelete r) = RespDelete (if r = provisional then committed else r)"
| "restamp_response provisional committed (RespGet s) = RespGet (restamp_state provisional committed s)"
| "restamp_response provisional committed (RespQuery rows) = RespQuery (map (restamp_row provisional committed) rows)"
| "restamp_response provisional committed (RespScan rows) = RespScan (map (restamp_row provisional committed) rows)"

definition restamp_responses :: "batch_response list \<Rightarrow> revision \<Rightarrow> revision \<Rightarrow> batch_response list" where
  "restamp_responses responses provisional committed = map (restamp_response provisional committed) responses"

definition finish_batch ::
  "(bytes \<Rightarrow> u32) \<Rightarrow> ('f, 'w) overlay \<Rightarrow> batch_response list \<Rightarrow> prepared_batch result"
where
  "finish_batch crc ov responses =
     (let st = ov_store ov in
      bindR (case ov_last_lsn ov of
               None \<Rightarrow> Inr None
             | Some provisional \<Rightarrow>
                 bindR (ok_or (checked_add_usize (length (ov_dirty ov)) 1) InternalInvariantViolation) (\<lambda>image_count.
                 if st_wal st \<noteq> None
                 then bindR (ok_or (checked_add_u64 (st_next_lsn st) (word_of_nat image_count))
                        InternalInvariantViolation) (\<lambda>lsn. Inr (Some lsn))
                 else Inr (Some provisional))) (\<lambda>commit_lsn.
      bindR (case (ov_last_lsn ov, commit_lsn) of
               (Some provisional, Some committed) \<Rightarrow>
                 (case restamp_dirty provisional committed (ov_dirty ov) ov of
                    (Inl e, _) \<Rightarrow> Inl e
                  | (Inr _, ov) \<Rightarrow> Inr (ov_pages ov))
             | _ \<Rightarrow> Inr (ov_pages ov)) (\<lambda>pages.
      bindR (if commit_lsn \<noteq> None
             then next_superblock crc (st_current_superblock st) (ov_root_page_id ov) (ov_free_list_head ov)
                    (ov_high_water_page_id ov)
             else Inr (st_current_superblock st)) (\<lambda>new_superblock.
      bindR (encode_changed crc pages (ov_dirty ov) [] []) (\<lambda>(changed, decoded).
      (let responses = (case (ov_last_lsn ov, commit_lsn) of
             (Some provisional, Some committed) \<Rightarrow> restamp_responses responses provisional committed
           | _ \<Rightarrow> responses)
       in bindR (case commit_lsn of
               Some lsn \<Rightarrow> ok_or (checked_add_u64 lsn 1) InternalInvariantViolation
             | None \<Rightarrow> Inr (st_next_revision st)) (\<lambda>next_revision.
         Inr \<lparr>pb_responses = responses, pb_changed_pages = changed, pb_changed_decoded = decoded,
           pb_read_pages = ov_read_pages ov, pb_new_superblock = new_superblock,
           pb_new_slot = other_slot (st_active_slot st),
           pb_base_generation = sb_generation (st_current_superblock st), pb_next_revision = next_revision,
           pb_root_page_id = ov_root_page_id ov, pb_free_list_head = ov_free_list_head ov,
           pb_high_water_page_id = ov_high_water_page_id ov, pb_commit_lsn = commit_lsn,
           pb_batch_id = st_next_batch_id st\<rparr>)))))))"

primrec execute_requests ::
  "(bytes \<Rightarrow> u32) \<Rightarrow> 'f durable_file_ops \<Rightarrow> batch_request list \<Rightarrow> batch_response list
     \<Rightarrow> ('f, 'w, batch_response list) budgeted_op"
where
  "execute_requests crc ops [] responses = returnS responses"
| "execute_requests crc ops (req # reqs) responses =
     bindS (execute_with_budget crc ops req) (\<lambda>response. execute_requests crc ops reqs (responses @ [response]))"

end
