(* ===== verification/Btree_Checker.thy ===== *)
theory Btree_Checker
  imports Btree_Overlay
begin

text \<open>
  The structural checker of \<open>dodb-storage/src/btree/checker.rs\<close>, which reads the data file only:
  it walks the tree with the key range of every child, collects every page it reaches, follows
  the overflow chains, compares the chain of leaves with the leaves in tree order, walks the free
  list and reports the pages that are neither reachable nor free.
\<close>

record tree_check_state =
  tc_reachable :: "page_id set"
  tc_keys :: "bytes set"
  tc_leaves :: "page_id list"
  tc_max_revision :: revision

definition tree_check_state_default :: tree_check_state where
  "tree_check_state_default = \<lparr>tc_reachable = {}, tc_keys = {}, tc_leaves = [], tc_max_revision = 0\<rparr>"

record invariant_report =
  ir_reachable_pages :: usize
  ir_free_pages :: usize
  ir_leaked_pages :: "page_id list"
  ir_max_revision :: revision

type_synonym key_bounds = "bytes option \<times> bytes option"
type_synonym ('f, 'a) check_op = "('f \<times> tree_check_state, error, 'a) stateful"

definition checker_check_page_id :: "page_id \<Rightarrow> page_id \<Rightarrow> unit result" where
  "checker_check_page_id high_water pid =
     (if pid < FIRST_DATA_PAGE \<or> high_water < pid then Inl Corruption else Inr ())"

definition checker_read_page ::
  "(bytes \<Rightarrow> u32) \<Rightarrow> 'f durable_file_ops \<Rightarrow> page_id \<Rightarrow> page_id \<Rightarrow> ('f, error, page_data) stateful"
where
  "checker_read_page crc ops high_water pid =
     bindS (liftR (checker_check_page_id high_water pid)) (\<lambda>_.
     bindS (read_exact_at ops (page_offset pid) PAGE_SIZE) (\<lambda>bs.
       liftR (decode_page_data crc pid bs)))"

definition on_file :: "('f, error, 'a) stateful \<Rightarrow> ('f, 'a) check_op" where
  "on_file m s = (case m (fst s) of (r, f) \<Rightarrow> (r, f, snd s))"

section \<open>Overflow chains\<close>

function check_overflow_loop ::
  "(bytes \<Rightarrow> u32) \<Rightarrow> 'f durable_file_ops \<Rightarrow> page_id \<Rightarrow> u64 \<Rightarrow> page_id option \<Rightarrow> page_id set \<Rightarrow> u64 \<Rightarrow> usize
     \<Rightarrow> ('f, u64) check_op"
where
  "check_overflow_loop crc ops high_water len None visited acc_len count s = (Inr acc_len, s)"
| "check_overflow_loop crc ops high_water len (Some current) visited acc_len count s =
     (if count \<ge> MAX_OVERFLOW_PAGES \<or> current \<in> visited then (Inl Corruption, s)
      else if current \<in> tc_reachable (snd s) then (Inl Corruption, s)
      else
        bindS (on_file (checker_read_page crc ops high_water current)) (\<lambda>page s.
          (case page of
             OverflowPage _ nxt page_total chunk \<Rightarrow>
               if page_total \<noteq> len then (Inl Corruption, s)
               else
                 (case checked_add_u64 acc_len (word_of_nat (length chunk)) of
                    None \<Rightarrow> (Inl Corruption, s)
                  | Some acc_len \<Rightarrow>
                      check_overflow_loop crc ops high_water len nxt (insert current visited) acc_len (count + 1) s)
           | _ \<Rightarrow> (Inl Corruption, s)))
          (fst s, (snd s)\<lparr>tc_reachable := insert current (tc_reachable (snd s))\<rparr>))"
  by pat_completeness auto
termination
  by (relation "measure (\<lambda>(crc, ops, high_water, len, pid, visited, acc_len, count, s). card (UNIV - visited))")
    (auto intro: unvisited_less)

declare check_overflow_loop.simps(2) [simp del]

definition check_overflow ::
  "(bytes \<Rightarrow> u32) \<Rightarrow> 'f durable_file_ops \<Rightarrow> page_id \<Rightarrow> page_id \<Rightarrow> u64 \<Rightarrow> ('f, unit) check_op"
where
  "check_overflow crc ops high_water head len =
     (if len = 0 \<or> unat len > MAX_VALUE_SIZE then liftR (Inl Corruption)
      else
        bindS (check_overflow_loop crc ops high_water len (Some head) {} 0 0) (\<lambda>acc_len.
          if acc_len \<noteq> len then liftR (Inl Corruption) else returnS ()))"

section \<open>The tree\<close>

definition check_leaf_value ::
  "(bytes \<Rightarrow> u32) \<Rightarrow> 'f durable_file_ops \<Rightarrow> page_id \<Rightarrow> value_ref option \<Rightarrow> ('f, unit) check_op"
where
  "check_leaf_value crc ops high_water val =
     (case val of
        None \<Rightarrow> returnS ()
      | Some (Inline bs) \<Rightarrow> if length bs > INLINE_VALUE_LIMIT then liftR (Inl Corruption) else returnS ()
      | Some (Overflow head len) \<Rightarrow> check_overflow crc ops high_water head len)"

primrec check_leaf_entries ::
  "(bytes \<Rightarrow> u32) \<Rightarrow> 'f durable_file_ops \<Rightarrow> page_id \<Rightarrow> bytes option \<Rightarrow> bytes option \<Rightarrow> leaf_entry list \<Rightarrow> key_bounds
     \<Rightarrow> ('f, key_bounds) check_op"
where
  "check_leaf_entries crc ops high_water lower upper [] bounds s = (Inr bounds, s)"
| "check_leaf_entries crc ops high_water lower upper (entry # entries) bounds s =
     (if (case lower of None \<Rightarrow> False | Some bound \<Rightarrow> le_key entry < bound) \<or>
         (case upper of None \<Rightarrow> False | Some bound \<Rightarrow> bound \<le> le_key entry) then (Inl Corruption, s)
      else if le_revision entry = 0 then (Inl Corruption, s)
      else if le_key entry \<in> tc_keys (snd s) then (Inl Corruption, s)
      else
        bindS (check_leaf_value crc ops high_water (le_value entry)) (\<lambda>_.
          check_leaf_entries crc ops high_water lower upper entries
            (case fst bounds of None \<Rightarrow> Some (le_key entry) | Some k \<Rightarrow> Some k, Some (le_key entry)))
          (fst s, (snd s)\<lparr>tc_keys := insert (le_key entry) (tc_keys (snd s)),
             tc_max_revision := max (tc_max_revision (snd s)) (le_revision entry)\<rparr>))"

fun child_bounds :: "bytes option \<Rightarrow> bytes option \<Rightarrow> internal_entry list \<Rightarrow> key_bounds list" where
  "child_bounds lower upper [] = [(lower, upper)]"
| "child_bounds lower upper (entry # entries) =
     (lower, Some (ie_key entry)) # child_bounds (Some (ie_key entry)) upper entries"

definition separators_ok :: "internal_entry list \<Rightarrow> key_bounds list \<Rightarrow> bool" where
  "separators_ok entries bounds \<longleftrightarrow>
     list_all (\<lambda>index.
       (case snd (bounds ! index) of None \<Rightarrow> True | Some left_max \<Rightarrow> left_max < ie_key (entries ! index)) \<and>
       (case fst (bounds ! (index + 1)) of None \<Rightarrow> True | Some right_min \<Rightarrow> ie_key (entries ! index) \<le> right_min))
       [0..<length entries]"

definition first_some :: "'a option list \<Rightarrow> 'a option" where
  "first_some xs = (case find (\<lambda>x. x \<noteq> None) xs of None \<Rightarrow> None | Some x \<Rightarrow> x)"

function (sequential) visit_tree ::
  "(bytes \<Rightarrow> u32) \<Rightarrow> 'f durable_file_ops \<Rightarrow> page_id \<Rightarrow> page_id \<Rightarrow> bytes option \<Rightarrow> bytes option
     \<Rightarrow> ('f, key_bounds) check_op"
and visit_children ::
  "(bytes \<Rightarrow> u32) \<Rightarrow> 'f durable_file_ops \<Rightarrow> page_id \<Rightarrow> (page_id \<times> key_bounds) list \<Rightarrow> key_bounds list
     \<Rightarrow> ('f, key_bounds list) check_op"
where
  "visit_tree crc ops high_water pid lower upper s =
     (if pid \<in> tc_reachable (snd s) then (Inl Corruption, s)
      else
        (case on_file (checker_read_page crc ops high_water pid)
                (fst s, (snd s)\<lparr>tc_reachable := insert pid (tc_reachable (snd s))\<rparr>) of
           (Inl e, s) \<Rightarrow> (Inl e, s)
         | (Inr (LeafPage _ _ entries), s) \<Rightarrow>
             (case check_leaf_entries crc ops high_water lower upper entries (None, None) s of
                (Inl e, s) \<Rightarrow> (Inl e, s)
              | (Inr bounds, s) \<Rightarrow> (Inr bounds, fst s, (snd s)\<lparr>tc_leaves := tc_leaves (snd s) @ [pid]\<rparr>))
         | (Inr (InternalPage _ leftmost_child entries), s) \<Rightarrow>
             if entries = [] then (Inl Corruption, s)
             else
               (case visit_children crc ops high_water
                       (zip (leftmost_child # map ie_right_child entries) (child_bounds lower upper entries)) [] s of
                  (Inl e, s) \<Rightarrow> (Inl e, s)
                | (Inr bounds, s) \<Rightarrow>
                    if separators_ok entries bounds
                    then (Inr (first_some (map fst bounds), first_some (rev (map snd bounds))), s)
                    else (Inl Corruption, s))
         | (Inr (OverflowPage _ _ _ _), s) \<Rightarrow> (Inl Corruption, s)
         | (Inr (FreePage _ _), s) \<Rightarrow> (Inl Corruption, s)))"
| "visit_children crc ops high_water [] bounds s = (Inr bounds, s)"
| "visit_children crc ops high_water ((child, lower, upper) # children) bounds s =
     (case visit_tree crc ops high_water child lower upper s of
        (Inl e, s) \<Rightarrow> (Inl e, s)
      | (Inr b, s) \<Rightarrow> visit_children crc ops high_water children (bounds @ [b]) s)"
  by pat_completeness auto


text \<open>
  The walk ends because the set of reached pages only grows: this is shown first where the
  recursion is known to end, and then bounds the recursion.
\<close>

lemma on_file_state: "on_file m s = (r, s') \<Longrightarrow> snd s' = snd s"
  by (auto simp: on_file_def split: prod.splits)

lemma check_overflow_loop_reachable:
  "check_overflow_loop crc ops hw len pid visited acc_len count s = (r, s') \<Longrightarrow>
   tc_reachable (snd s) \<subseteq> tc_reachable (snd s')"
proof (induction "card (UNIV - visited)" arbitrary: pid visited acc_len count s rule: less_induct)
  case less
  show ?case
  proof (cases pid)
    case (Some current)
    then show ?thesis
      using less.prems less.hyps [of "insert current visited"] unvisited_less [of current visited]
      by (auto simp: check_overflow_loop.simps(2) bindS_def
          split: if_split_asm prod.split_asm sum.split_asm page_data.split_asm option.split_asm dest!: on_file_state)
        fastforce
  qed (use less.prems in simp)
qed

lemma check_overflow_reachable:
  "check_overflow crc ops hw head len s = (r, s') \<Longrightarrow> tc_reachable (snd s) \<subseteq> tc_reachable (snd s')"
  by (auto simp: check_overflow_def bindS_def liftR_def returnS_def split: if_splits prod.splits sum.splits
      dest: check_overflow_loop_reachable)

lemma check_leaf_value_reachable:
  "check_leaf_value crc ops hw val s = (r, s') \<Longrightarrow> tc_reachable (snd s) \<subseteq> tc_reachable (snd s')"
  by (auto simp: check_leaf_value_def liftR_def returnS_def split: option.splits value_ref.splits if_splits
      dest: check_overflow_reachable)

lemma check_leaf_entries_reachable:
  "check_leaf_entries crc ops hw lower upper entries bounds s = (r, s') \<Longrightarrow>
   tc_reachable (snd s) \<subseteq> tc_reachable (snd s')"
proof (induction entries arbitrary: bounds s)
  case (Cons entry entries)
  then show ?case
    by (fastforce simp: bindS_def split: if_split_asm prod.split_asm sum.split_asm dest!: check_leaf_value_reachable)
qed simp

lemma visit_reachable_dom:
  "visit_tree_visit_children_dom (Inl (crc, ops, hw, pid, lower, upper, s)) \<Longrightarrow>
     visit_tree crc ops hw pid lower upper s = (r, s') \<Longrightarrow> tc_reachable (snd s) \<subseteq> tc_reachable (snd s')"
  "visit_tree_visit_children_dom (Inr (crc, ops, hw, children, bounds, s)) \<Longrightarrow>
     visit_children crc ops hw children bounds s = (r', s') \<Longrightarrow> tc_reachable (snd s) \<subseteq> tc_reachable (snd s')"
proof (induction crc ops hw pid lower upper s and crc ops hw children bounds s arbitrary: r s' and r' s'
    rule: visit_tree_visit_children.pinduct)
  case (1 crc ops hw pid lower upper s)
  obtain r1 s1 where read: "on_file (checker_read_page crc ops hw pid)
      (fst s, (snd s)\<lparr>tc_reachable := insert pid (tc_reachable (snd s))\<rparr>) = (r1, s1)"
    by (cases "on_file (checker_read_page crc ops hw pid)
      (fst s, (snd s)\<lparr>tc_reachable := insert pid (tc_reachable (snd s))\<rparr>)") blast
  have s1: "tc_reachable (snd s) \<subseteq> tc_reachable (snd s1)" using on_file_state [OF read] by auto
  note run = "1.prems" [unfolded visit_tree.psimps [OF "1.hyps"] read]
  show ?case
  proof (cases "pid \<in> tc_reachable (snd s) \<or> is_ok r1 = False")
    case True
    then show ?thesis using run s1 by (cases r1) (auto split: if_split_asm)
  next
    case False
    then obtain page where page: "r1 = Inr page" and new: "pid \<notin> tc_reachable (snd s)" by (cases r1) auto
    show ?thesis
    proof (cases page)
      case (InternalPage lsn leftmost entries)
      let ?cs = "zip (leftmost # map ie_right_child entries) (child_bounds lower upper entries)"
      obtain r2 s2 where sub: "visit_children crc ops hw ?cs [] s1 = (r2, s2)"
        by (cases "visit_children crc ops hw ?cs [] s1") blast
      have "entries \<noteq> [] \<Longrightarrow> tc_reachable (snd s1) \<subseteq> tc_reachable (snd s2)"
        using "1.IH" [OF new] read page InternalPage sub by (cases s1) auto
      then show ?thesis
        using run new page InternalPage sub s1 by (auto split: if_split_asm sum.split_asm)
    next
      case (LeafPage lsn nxt entries)
      then show ?thesis
        using run new page s1
        by (auto split: prod.split_asm sum.split_asm dest!: check_leaf_entries_reachable)
    qed (use run new page s1 in auto)
  qed
next
  case (2 crc ops hw bounds s)
  then show ?case by (simp add: visit_children.psimps)
next
  case (3 crc ops hw child lower upper children bounds s)
  obtain r1 s1 where sub: "visit_tree crc ops hw child lower upper s = (r1, s1)"
    by (cases "visit_tree crc ops hw child lower upper s") blast
  have "tc_reachable (snd s) \<subseteq> tc_reachable (snd s1)" using "3.IH"(1) sub .
  then show ?case
    using "3.prems" "3.IH"(2) [OF sub [symmetric]] sub
    by (cases r1; cases s') (auto simp: visit_children.psimps(2) [OF "3.hyps"], blast)
qed

lemma visit_tree_decreases:
  assumes "(r, f', t') = on_file m (f, t\<lparr>tc_reachable := insert pid (tc_reachable t)\<rparr>)" "pid \<notin> tc_reachable t"
  shows "card (UNIV - tc_reachable t') < card (UNIV - tc_reachable t)"
proof -
  have "tc_reachable t' = insert pid (tc_reachable t)" using on_file_state [OF assms(1) [symmetric]] by simp
  then show ?thesis using assms(2) by (intro psubset_card_mono) auto
qed

lemma visit_tree_keeps:
  assumes "(r, f', t') = visit_tree crc ops hw pid lower upper (f, t)"
    "visit_tree_visit_children_dom (Inl (crc, ops, hw, pid, lower, upper, f, t))"
  shows "card (UNIV - tc_reachable t') \<le> card (UNIV - tc_reachable t)"
  using visit_reachable_dom(1) [OF assms(2) assms(1) [symmetric]] by (intro card_mono) auto

termination visit_tree
  by (relation "measures [\<lambda>x. case x of Inl (crc, ops, hw, pid, lower, upper, s) \<Rightarrow> card (UNIV - tc_reachable (snd s))
      | Inr (crc, ops, hw, children, bounds, s) \<Rightarrow> card (UNIV - tc_reachable (snd s)),
    \<lambda>x. case x of Inl (crc, ops, hw, pid, lower, upper, s) \<Rightarrow> 0 | Inr (crc, ops, hw, children, bounds, s) \<Rightarrow> length children + 1]")
    (auto simp: le_less dest: visit_tree_decreases visit_tree_keeps)

declare visit_tree.simps [simp del]

section \<open>The leaf chain and the free list\<close>

function checker_leftmost_leaf ::
  "(bytes \<Rightarrow> u32) \<Rightarrow> 'f durable_file_ops \<Rightarrow> page_id \<Rightarrow> page_id \<Rightarrow> page_id set \<Rightarrow> ('f, error, page_id) stateful"
where
  "checker_leftmost_leaf crc ops high_water pid visited f =
     (if pid \<in> visited then (Inl Corruption, f)
      else
        bindS (checker_read_page crc ops high_water pid) (\<lambda>page f.
          (case page of
             LeafPage _ _ _ \<Rightarrow> (Inr pid, f)
           | InternalPage _ leftmost_child _ \<Rightarrow>
               checker_leftmost_leaf crc ops high_water leftmost_child (insert pid visited) f
           | _ \<Rightarrow> (Inl Corruption, f))) f)"
  by pat_completeness auto
termination
  by (relation "measure (\<lambda>(crc, ops, high_water, pid, visited, f). card (UNIV - visited))")
    (auto intro: unvisited_less)

fun chain_keys_ok :: "bytes option \<Rightarrow> leaf_entry list \<Rightarrow> bytes option result" where
  "chain_keys_ok previous [] = Inr previous"
| "chain_keys_ok previous (entry # entries) =
     (if (case previous of None \<Rightarrow> False | Some key \<Rightarrow> le_key entry \<le> key) then Inl Corruption
      else chain_keys_ok (Some (le_key entry)) entries)"

function leaf_chain ::
  "(bytes \<Rightarrow> u32) \<Rightarrow> 'f durable_file_ops \<Rightarrow> page_id \<Rightarrow> page_id set \<Rightarrow> page_id option \<Rightarrow> page_id set \<Rightarrow> bytes option
     \<Rightarrow> page_id list \<Rightarrow> ('f, error, page_id list) stateful"
where
  "leaf_chain crc ops high_water reachable None visited previous chain f = (Inr chain, f)"
| "leaf_chain crc ops high_water reachable (Some pid) visited previous chain f =
     (if pid \<in> visited then (Inl Corruption, f)
      else if pid \<notin> reachable then (Inl Corruption, f)
      else
        bindS (checker_read_page crc ops high_water pid) (\<lambda>page f.
          (case page of
             LeafPage _ next_leaf entries \<Rightarrow>
               (case chain_keys_ok previous entries of
                  Inl e \<Rightarrow> (Inl e, f)
                | Inr previous \<Rightarrow>
                    leaf_chain crc ops high_water reachable next_leaf (insert pid visited) previous (chain @ [pid]) f)
           | _ \<Rightarrow> (Inl Corruption, f))) f)"
  by pat_completeness auto
termination
  by (relation "measure (\<lambda>(crc, ops, high_water, reachable, pid, visited, previous, chain, f). card (UNIV - visited))")
    (auto intro: unvisited_less)

definition check_leaf_chain ::
  "(bytes \<Rightarrow> u32) \<Rightarrow> 'f durable_file_ops \<Rightarrow> page_id \<Rightarrow> page_id list \<Rightarrow> page_id \<Rightarrow> page_id set
     \<Rightarrow> ('f, error, unit) stateful"
where
  "check_leaf_chain crc ops high_water tree_leaves leftmost reachable =
     bindS (leaf_chain crc ops high_water reachable (Some leftmost) {} None []) (\<lambda>chain.
       if chain \<noteq> tree_leaves then liftR (Inl Corruption) else returnS ())"

function check_free_list ::
  "(bytes \<Rightarrow> u32) \<Rightarrow> 'f durable_file_ops \<Rightarrow> page_id \<Rightarrow> page_id set \<Rightarrow> page_id option \<Rightarrow> page_id set
     \<Rightarrow> ('f, error, page_id set) stateful"
where
  "check_free_list crc ops high_water reachable None free_pages f = (Inr free_pages, f)"
| "check_free_list crc ops high_water reachable (Some pid) free_pages f =
     (case checker_check_page_id high_water pid of
        Inl e \<Rightarrow> (Inl e, f)
      | Inr _ \<Rightarrow>
          if pid \<in> free_pages then (Inl Corruption, f)
          else if pid \<in> reachable then (Inl Corruption, f)
          else
            bindS (checker_read_page crc ops high_water pid) (\<lambda>page f.
              (case page of
                 FreePage _ page_next \<Rightarrow>
                   check_free_list crc ops high_water reachable page_next (insert pid free_pages) f
               | _ \<Rightarrow> (Inl Corruption, f))) f)"
  by pat_completeness auto
termination
  by (relation "measure (\<lambda>(crc, ops, high_water, reachable, pid, free_pages, f). card (UNIV - free_pages))")
    (auto intro: unvisited_less)

declare checker_leftmost_leaf.simps [simp del] leaf_chain.simps(2) [simp del] check_free_list.simps(2) [simp del]

definition check ::
  "(bytes \<Rightarrow> u32) \<Rightarrow> 'f durable_file_ops \<Rightarrow> page_id \<Rightarrow> page_id option \<Rightarrow> page_id
     \<Rightarrow> ('f, error, invariant_report) stateful"
where
  "check crc ops root free_head high_water f =
     (case visit_tree crc ops high_water root None None (f, tree_check_state_default) of
        (Inl e, f, _) \<Rightarrow> (Inl e, f)
      | (Inr _, f, tree_state) \<Rightarrow>
          bindS (checker_leftmost_leaf crc ops high_water root {}) (\<lambda>leftmost.
          bindS (check_leaf_chain crc ops high_water (tc_leaves tree_state) leftmost (tc_reachable tree_state)) (\<lambda>_.
          bindS (check_free_list crc ops high_water (tc_reachable tree_state) free_head {}) (\<lambda>free_pages.
            returnS
              \<lparr>ir_reachable_pages = card (tc_reachable tree_state), ir_free_pages = card free_pages,
               ir_leaked_pages = filter (\<lambda>pid. pid \<notin> tc_reachable tree_state \<and> pid \<notin> free_pages)
                 (map word_of_nat [unat FIRST_DATA_PAGE..<unat high_water + 1]),
               ir_max_revision = tc_max_revision tree_state\<rparr>))) f)"

end
