(* ===== verification/Btree_Store.thy ===== *)
theory Btree_Store
  imports Btree_Transaction Btree_Checker
begin

text \<open>
  The store around the tree (\<open>BTreeStore\<close> of \<open>dodb-storage/src/btree/mod.rs\<close>): publishing prepared
  batches through the write-ahead log, groups of transactions, flushing committed pages to the
  data file, checkpoints, initialization, and opening with redo recovery. The store owns a data
  file with operations \<open>ops\<close> and optionally a log on a second file with operations \<open>wops\<close>.
\<close>

type_synonym ('f, 'w, 'a) store_op = "(('f, 'w) btree_store, error, 'a) stateful"

definition st_get :: "(('f, 'w) btree_store \<Rightarrow> 'a) \<Rightarrow> ('f, 'w, 'a) store_op" where
  "st_get field st = (Inr (field st), st)"

definition st_modify :: "(('f, 'w) btree_store \<Rightarrow> ('f, 'w) btree_store) \<Rightarrow> ('f, 'w, unit) store_op" where
  "st_modify update st = (Inr (), update st)"

definition st_file_io :: "('f, error, 'a) stateful \<Rightarrow> ('f, 'w, 'a) store_op" where
  "st_file_io m st = (case m (st_file st) of (r, f) \<Rightarrow> (r, st\<lparr>st_file := f\<rparr>))"

definition st_hit_fault :: "string \<Rightarrow> ('f, 'w, unit) store_op" where
  "st_hit_fault point st = (case hit_fault point (st_fault_injector st) of (r, i) \<Rightarrow> (r, st\<lparr>st_fault_injector := i\<rparr>))"

text \<open>\<open>if let Err(error) = m { self.broken = Some(..); return Err(g(error)) }\<close>.\<close>

definition or_broken :: "(error \<Rightarrow> error) \<Rightarrow> ('f, 'w, 'a) store_op \<Rightarrow> ('f, 'w, 'a) store_op" where
  "or_broken g m st =
     (case m st of
        (Inl e, st) \<Rightarrow> (Inl (g e), st\<lparr>st_broken := True\<rparr>)
      | (Inr x, st) \<Rightarrow> (Inr x, st))"

definition slot_offset :: "superblock_slot \<Rightarrow> u64" where
  "slot_offset slot = (case slot of SlotA \<Rightarrow> SUPERBLOCK_A_OFFSET | SlotB \<Rightarrow> SUPERBLOCK_B_OFFSET)"

definition slot_page_id :: "superblock_slot \<Rightarrow> page_id" where
  "slot_page_id slot = (case slot of SlotA \<Rightarrow> 0 | SlotB \<Rightarrow> 1)"

definition store_target_length :: "page_id \<Rightarrow> u64 result" where
  "store_target_length high_water =
     bindR (ok_or (checked_add_u64 high_water 1) InvalidInput) (\<lambda>page_count.
       ok_or (checked_mul_u64 page_count 4096) InvalidInput)"

definition grow_file :: "'f durable_file_ops \<Rightarrow> u64 \<Rightarrow> ('f, error, unit) stateful" where
  "grow_file ops target =
     bindS (\<lambda>f. (df_len ops f, f)) (\<lambda>len.
       if len < target then df_set_len ops target else returnS ())"

primrec write_pages :: "'f durable_file_ops \<Rightarrow> (page_id, bytes) bmap \<Rightarrow> ('f, error, unit) stateful" where
  "write_pages ops [] = returnS ()"
| "write_pages ops (p # ps) =
     bindS (write_all_at ops (page_offset (fst p)) (snd p)) (\<lambda>_. write_pages ops ps)"

section \<open>Publishing\<close>

fun contiguous_generations :: "u64 \<Rightarrow> prepared_batch list \<Rightarrow> bool" where
  "contiguous_generations expected [] = True"
| "contiguous_generations expected (c # cs) =
     (pb_base_generation c = expected \<and> contiguous_generations (sb_generation (pb_new_superblock c)) cs)"

definition wal_commit_of :: "prepared_batch \<Rightarrow> bytes \<Rightarrow> wal_commit result" where
  "wal_commit_of candidate superblock_bytes =
     bindR (ok_or (pb_commit_lsn candidate) InternalInvariantViolation) (\<lambda>commit_lsn.
       Inr \<lparr>wc_batch_id = pb_batch_id candidate, wc_commit_lsn = commit_lsn,
            wc_pages = map (\<lambda>(pid, image). \<lparr>wpi_page_id = pid, wpi_image = image\<rparr>) (pb_changed_pages candidate) @
              [\<lparr>wpi_page_id = slot_page_id (pb_new_slot candidate), wpi_image = superblock_bytes\<rparr>]\<rparr>)"

fun encode_candidates ::
  "(bytes \<Rightarrow> u32) \<Rightarrow> bool \<Rightarrow> prepared_batch list \<Rightarrow> (bytes list \<times> wal_commit list) result"
where
  "encode_candidates crc has_wal [] = Inr ([], [])"
| "encode_candidates crc has_wal (c # cs) =
     bindR (encode_superblock crc (pb_new_superblock c)) (\<lambda>bs.
     bindR (if has_wal then bindR (wal_commit_of c bs) (\<lambda>commit. Inr [commit]) else Inr []) (\<lambda>commit.
     bindR (encode_candidates crc has_wal cs) (\<lambda>(superblocks, commits).
       Inr (bs # superblocks, commit @ commits))))"

definition append_to_wal ::
  "(bytes \<Rightarrow> u32) \<Rightarrow> 'w durable_file_ops \<Rightarrow> wal_commit list \<Rightarrow> ('f, 'w, unit) store_op"
where
  "append_to_wal crc wops commits st =
     (case st_wal st of
        None \<Rightarrow> (Inr (), st)
      | Some wal \<Rightarrow>
          (case append_group crc wops commits (wal, st_fault_injector st) of
             (r, wal, i) \<Rightarrow>
               (case r of Inl e \<Rightarrow> Inl e | Inr _ \<Rightarrow> Inr (),
                st\<lparr>st_wal := Some wal, st_fault_injector := i\<rparr>)))"

fun write_candidates ::
  "'f durable_file_ops \<Rightarrow> prepared_batch list \<Rightarrow> bytes list \<Rightarrow> ('f, error, unit) stateful"
where
  "write_candidates ops (c # cs) (bs # bss) =
     bindS (liftR (store_target_length (pb_high_water_page_id c))) (\<lambda>target.
     bindS (grow_file ops target) (\<lambda>_.
     bindS (write_pages ops (pb_changed_pages c)) (\<lambda>_.
     bindS (write_all_at ops (slot_offset (pb_new_slot c)) bs) (\<lambda>_.
     bindS (df_sync_data ops) (\<lambda>_.
       write_candidates ops cs bss)))))"
| "write_candidates ops cs bss = returnS ()"

definition publish_candidate :: "(bytes \<Rightarrow> u32) \<Rightarrow> prepared_batch \<Rightarrow> bytes \<Rightarrow> ('f, 'w, unit) store_op" where
  "publish_candidate crc c superblock_bytes =
     bindS (liftR (decode_superblock crc superblock_bytes)) (\<lambda>superblock.
     bindS (st_modify (\<lambda>st. st\<lparr>st_current_superblock := superblock, st_active_slot := pb_new_slot c,
       st_root_page_id := pb_root_page_id c, st_free_list_head := pb_free_list_head c,
       st_high_water_page_id := pb_high_water_page_id c, st_next_revision := pb_next_revision c\<rparr>)) (\<lambda>_.
     bindS (case pb_commit_lsn c of
              None \<Rightarrow> returnS ()
            | Some commit_lsn \<Rightarrow>
                bindS (ok_orS (checked_add_u64 commit_lsn 1) InternalInvariantViolation) (\<lambda>next_lsn.
                bindS (st_modify (\<lambda>st. st\<lparr>st_next_lsn := next_lsn\<rparr>)) (\<lambda>_.
                bindS (ok_orS (checked_add_u64 (pb_batch_id c) 1) InternalInvariantViolation) (\<lambda>next_batch_id.
                  st_modify (\<lambda>st. st\<lparr>st_next_batch_id := next_batch_id,
                    st_dirty_pages := bm_extend (st_dirty_pages st) (pb_changed_pages c),
                    st_dirty_superblock := Some superblock_bytes\<rparr>))))) (\<lambda>_.
       st_modify (\<lambda>st.
         (let cache = cache_insert_many (pb_read_pages c) (st_cache st)
          in st\<lparr>st_published_page_updates :=
                  (if st_track_published_pages st
                   then bm_extend (st_published_page_updates st) (pb_changed_decoded c)
                   else st_published_page_updates st),
                st_cache := cache_insert_many (pb_changed_decoded c) cache\<rparr>)))))"

fun publish_candidates ::
  "(bytes \<Rightarrow> u32) \<Rightarrow> prepared_batch list \<Rightarrow> bytes list \<Rightarrow> ('f, 'w, unit) store_op"
where
  "publish_candidates crc (c # cs) (bs # bss) =
     bindS (publish_candidate crc c bs) (\<lambda>_. publish_candidates crc cs bss)"
| "publish_candidates crc cs bss = returnS ()"

definition publish_prepared_group ::
  "(bytes \<Rightarrow> u32) \<Rightarrow> 'f durable_file_ops \<Rightarrow> 'w durable_file_ops \<Rightarrow> prepared_batch list \<Rightarrow> ('f, 'w, unit) store_op"
where
  "publish_prepared_group crc ops wops prepared =
     bindS (st_get id) (\<lambda>st.
     if st_broken st then liftR (Inl DurabilityFailure)
     else if \<not> contiguous_generations (sb_generation (st_current_superblock st)) prepared
     then liftR (Inl InternalInvariantViolation)
     else if list_all (\<lambda>c. pb_changed_pages c = []) prepared then returnS ()
     else
       bindS (liftR (encode_candidates crc (st_wal st \<noteq> None) prepared)) (\<lambda>(superblocks, commits).
       bindS (if st_wal st \<noteq> None then or_broken id (append_to_wal crc wops commits)
              else st_file_io (write_candidates ops prepared superblocks)) (\<lambda>_.
       bindS (or_broken id (st_hit_fault ''before_publish'')) (\<lambda>_.
       bindS (publish_candidates crc prepared superblocks) (\<lambda>_.
         st_hit_fault ''after_publish'')))))"

definition publish_prepared ::
  "(bytes \<Rightarrow> u32) \<Rightarrow> 'f durable_file_ops \<Rightarrow> 'w durable_file_ops \<Rightarrow> prepared_batch
     \<Rightarrow> ('f, 'w, batch_response list) store_op"
where
  "publish_prepared crc ops wops prepared =
     bindS (publish_prepared_group crc ops wops [prepared]) (\<lambda>_. returnS (pb_responses prepared))"

section \<open>Transactions and batches\<close>

text \<open>An overlay borrows the store: what its reads do to the file and the cache stays.\<close>

definition with_overlay :: "('f, 'w, 'a) overlay_op \<Rightarrow> ('f, 'w, 'a) store_op" where
  "with_overlay m st = (case m (overlay_new st) of (r, ov) \<Rightarrow> (r, ov_store ov))"

fun rejects_candidate :: "error \<Rightarrow> bool" where
  "rejects_candidate (Conflict _) = True"
| "rejects_candidate InvalidRequest = True"
| "rejects_candidate InvalidInput = True"
| "rejects_candidate _ = False"

primrec prepare_group ::
  "(bytes \<Rightarrow> u32) \<Rightarrow> 'f durable_file_ops \<Rightarrow> transaction_request list \<Rightarrow> prepared_batch list
     \<Rightarrow> transaction_result result list
     \<Rightarrow> ('f, 'w, prepared_batch list \<times> transaction_result result list) overlay_op"
where
  "prepare_group crc ops [] prepared results ov = (Inr (prepared, results), ov)"
| "prepare_group crc ops (req # reqs) prepared results ov =
     (case prepare_transaction crc ops req ov of
        (Inr (Some candidate), ov) \<Rightarrow>
          (case pb_commit_lsn candidate of
             None \<Rightarrow> (Inl InternalInvariantViolation, ov)
           | Some commit_lsn \<Rightarrow>
               prepare_group crc ops reqs (prepared @ [candidate])
                 (results @ [Inr \<lparr>result_commit_lsn = Some commit_lsn\<rparr>]) ov)
      | (Inr None, ov) \<Rightarrow>
          prepare_group crc ops reqs prepared (results @ [Inr \<lparr>result_commit_lsn = None\<rparr>]) ov
      | (Inl e, ov) \<Rightarrow>
          if rejects_candidate e then prepare_group crc ops reqs prepared (results @ [Inl e]) ov
          else (Inl e, ov))"

definition apply_transaction_group ::
  "(bytes \<Rightarrow> u32) \<Rightarrow> 'f durable_file_ops \<Rightarrow> 'w durable_file_ops \<Rightarrow> transaction_request list
     \<Rightarrow> ('f, 'w, transaction_result result list) store_op"
where
  "apply_transaction_group crc ops wops reqs =
     (if reqs = [] then returnS []
      else
        bindS (with_overlay (prepare_group crc ops reqs [] [])) (\<lambda>(prepared, results).
          if prepared = [] then returnS results
          else bindS (publish_prepared_group crc ops wops prepared) (\<lambda>_. returnS results)))"

definition transact ::
  "(bytes \<Rightarrow> u32) \<Rightarrow> 'f durable_file_ops \<Rightarrow> 'w durable_file_ops \<Rightarrow> transaction_request
     \<Rightarrow> ('f, 'w, transaction_result) store_op"
where
  "transact crc ops wops req =
     bindS (apply_transaction_group crc ops wops [req]) (\<lambda>results.
       if results = [] then liftR (Inl InternalInvariantViolation) else liftR (last results))"

primrec get_states ::
  "(bytes \<Rightarrow> u32) \<Rightarrow> 'f durable_file_ops \<Rightarrow> document_key list \<Rightarrow> revision_state list
     \<Rightarrow> ('f, 'w, revision_state list) budgeted_op"
where
  "get_states crc ops [] states = returnS states"
| "get_states crc ops (key # keys) states =
     bindS (get_state_with_budget crc ops key) (\<lambda>state. get_states crc ops keys (states @ [state]))"

text \<open>Running a computation under a budget that starts at the given maximum.\<close>

definition with_budget :: "usize \<Rightarrow> ('f, 'w, 'a) budgeted_op \<Rightarrow> ('f, 'w, 'a) overlay_op" where
  "with_budget maximum m ov =
     (case budget_new maximum of
        Inl e \<Rightarrow> (Inl e, ov)
      | Inr budget \<Rightarrow> (case m (ov, budget) of (r, ov, _) \<Rightarrow> (r, ov)))"

definition transact_get_with_response_budget ::
  "(bytes \<Rightarrow> u32) \<Rightarrow> 'f durable_file_ops \<Rightarrow> document_key list \<Rightarrow> usize \<Rightarrow> ('f, 'w, revision_state list) store_op"
where
  "transact_get_with_response_budget crc ops keys max_response_bytes =
     bindS (st_get st_broken) (\<lambda>broken.
       if broken then liftR (Inl DurabilityFailure)
       else with_overlay (with_budget max_response_bytes (get_states crc ops keys [])))"

definition transact_get ::
  "(bytes \<Rightarrow> u32) \<Rightarrow> 'f durable_file_ops \<Rightarrow> document_key list \<Rightarrow> ('f, 'w, revision_state list) store_op"
where
  "transact_get crc ops keys = transact_get_with_response_budget crc ops keys (usize_limit - 1)"

primrec observe_keys ::
  "(bytes \<Rightarrow> u32) \<Rightarrow> 'f durable_file_ops \<Rightarrow> document_key list \<Rightarrow> observed_state list
     \<Rightarrow> ('f, 'w, observed_state list) overlay_op"
where
  "observe_keys crc ops [] states = returnS states"
| "observe_keys crc ops (key # keys) states =
     bindS (get_observed_state crc ops key) (\<lambda>state. observe_keys crc ops keys (states @ [state]))"

definition observe ::
  "(bytes \<Rightarrow> u32) \<Rightarrow> 'f durable_file_ops \<Rightarrow> document_key list \<Rightarrow> ('f, 'w, observed_state list) store_op"
where
  "observe crc ops keys =
     bindS (st_get st_broken) (\<lambda>broken.
       if broken then liftR (Inl DurabilityFailure) else with_overlay (observe_keys crc ops keys []))"

definition prepare_batch_with_response_budget ::
  "(bytes \<Rightarrow> u32) \<Rightarrow> 'f durable_file_ops \<Rightarrow> batch_request list \<Rightarrow> usize \<Rightarrow> ('f, 'w, prepared_batch) store_op"
where
  "prepare_batch_with_response_budget crc ops reqs max_response_bytes =
     with_overlay
       (bindS (with_budget max_response_bytes (execute_requests crc ops reqs [])) (\<lambda>responses ov.
          (finish_batch crc ov responses, ov)))"

definition apply_batch_with_response_budget ::
  "(bytes \<Rightarrow> u32) \<Rightarrow> 'f durable_file_ops \<Rightarrow> 'w durable_file_ops \<Rightarrow> batch_request list \<Rightarrow> usize
     \<Rightarrow> ('f, 'w, batch_response list) store_op"
where
  "apply_batch_with_response_budget crc ops wops reqs max_response_bytes =
     bindS (prepare_batch_with_response_budget crc ops reqs max_response_bytes) (\<lambda>prepared.
       publish_prepared crc ops wops prepared)"

definition apply_batch ::
  "(bytes \<Rightarrow> u32) \<Rightarrow> 'f durable_file_ops \<Rightarrow> 'w durable_file_ops \<Rightarrow> batch_request list
     \<Rightarrow> ('f, 'w, batch_response list) store_op"
where
  "apply_batch crc ops wops reqs = apply_batch_with_response_budget crc ops wops reqs (usize_limit - 1)"

definition store_get ::
  "(bytes \<Rightarrow> u32) \<Rightarrow> 'f durable_file_ops \<Rightarrow> 'w durable_file_ops \<Rightarrow> document_key \<Rightarrow> ('f, 'w, revision_state) store_op"
where
  "store_get crc ops wops key =
     bindS (apply_batch crc ops wops [ReqGet key]) (\<lambda>responses.
       (case hd responses of RespGet state \<Rightarrow> returnS state | _ \<Rightarrow> liftR (Inl InternalInvariantViolation)))"

definition store_put ::
  "(bytes \<Rightarrow> u32) \<Rightarrow> 'f durable_file_ops \<Rightarrow> 'w durable_file_ops \<Rightarrow> document_key \<Rightarrow> bytes \<Rightarrow> ('f, 'w, revision) store_op"
where
  "store_put crc ops wops key val =
     bindS (apply_batch crc ops wops [ReqPut key val]) (\<lambda>responses.
       (case hd responses of RespPut revision \<Rightarrow> returnS revision | _ \<Rightarrow> liftR (Inl InternalInvariantViolation)))"

definition store_delete ::
  "(bytes \<Rightarrow> u32) \<Rightarrow> 'f durable_file_ops \<Rightarrow> 'w durable_file_ops \<Rightarrow> document_key \<Rightarrow> ('f, 'w, revision) store_op"
where
  "store_delete crc ops wops key =
     bindS (apply_batch crc ops wops [ReqDelete key]) (\<lambda>responses.
       (case hd responses of RespDelete revision \<Rightarrow> returnS revision | _ \<Rightarrow> liftR (Inl InternalInvariantViolation)))"

definition store_query ::
  "(bytes \<Rightarrow> u32) \<Rightarrow> 'f durable_file_ops \<Rightarrow> 'w durable_file_ops \<Rightarrow> primary_key \<Rightarrow> sort_key option \<Rightarrow> usize
     \<Rightarrow> ('f, 'w, stored_document list) store_op"
where
  "store_query crc ops wops qpk after_sk limit =
     bindS (apply_batch crc ops wops [ReqQuery qpk after_sk limit]) (\<lambda>responses.
       (case hd responses of RespQuery rows \<Rightarrow> returnS rows | _ \<Rightarrow> liftR (Inl InternalInvariantViolation)))"

definition store_scan ::
  "(bytes \<Rightarrow> u32) \<Rightarrow> 'f durable_file_ops \<Rightarrow> 'w durable_file_ops \<Rightarrow> document_key option \<Rightarrow> usize
     \<Rightarrow> ('f, 'w, stored_document list) store_op"
where
  "store_scan crc ops wops cursor limit =
     bindS (apply_batch crc ops wops [ReqScan cursor limit]) (\<lambda>responses.
       (case hd responses of RespScan rows \<Rightarrow> returnS rows | _ \<Rightarrow> liftR (Inl InternalInvariantViolation)))"

end
