(* ===== verification/Btree_Recovery.thy ===== *)
theory Btree_Recovery
  imports Btree_Store
begin

text \<open>
  Moving committed pages to the data file and coming back from it
  (\<open>dodb-storage/src/btree/mod.rs\<close>): \<open>flush\<close>, \<open>check_invariants\<close>, \<open>checkpoint\<close>, \<open>initialize\<close>, redo
  recovery from the log, and the two ways to open a store. Opening works on the two files and
  the injector and returns a store that owns them; on an error the files are left as they are.
\<close>

section \<open>Flushing\<close>

primrec flush_pages :: "'f durable_file_ops \<Rightarrow> (page_id, bytes) bmap \<Rightarrow> ('f, 'w, unit) store_op" where
  "flush_pages ops [] = returnS ()"
| "flush_pages ops (p # ps) =
     bindS (st_hit_fault ''during_data_page_write'') (\<lambda>_.
     bindS (st_file_io (write_all_at ops (page_offset (fst p)) (snd p))) (\<lambda>_.
       flush_pages ops ps))"

definition flush_dirty_pages :: "'f durable_file_ops \<Rightarrow> ('f, 'w, unit) store_op" where
  "flush_dirty_pages ops =
     bindS (st_get id) (\<lambda>st.
     if st_wal st = None then st_file_io (df_sync_data ops)
     else if st_dirty_pages st = [] \<and> st_dirty_superblock st = None then returnS ()
     else
       bindS (or_broken (\<lambda>_. DurabilityFailure)
         (bindS (liftR (store_target_length (st_high_water_page_id st))) (\<lambda>target.
          bindS (st_file_io (grow_file ops target)) (\<lambda>_.
          bindS (st_hit_fault ''before_data_page_write'') (\<lambda>_.
          bindS (flush_pages ops (st_dirty_pages st)) (\<lambda>_.
          bindS (st_hit_fault ''after_data_page_write'') (\<lambda>_.
            (case st_dirty_superblock st of
               None \<Rightarrow> returnS ()
             | Some bs \<Rightarrow> st_file_io (write_all_at ops (slot_offset (st_active_slot st)) bs))))))))) (\<lambda>_.
       bindS (or_broken id (st_hit_fault ''before_data_file_sync'')) (\<lambda>_.
       bindS (or_broken id (st_hit_fault ''during_data_file_sync'')) (\<lambda>_.
       bindS (or_broken (\<lambda>_. DurabilityFailure) (st_file_io (df_sync_data ops))) (\<lambda>_.
       bindS (st_modify (\<lambda>st. st\<lparr>st_dirty_pages := [], st_dirty_superblock := None\<rparr>)) (\<lambda>_.
         st_hit_fault ''after_data_file_sync''))))))"

definition flush :: "'f durable_file_ops \<Rightarrow> ('f, 'w, unit) store_op" where
  "flush ops =
     bindS (st_get st_wal) (\<lambda>wal.
       if wal = None then st_file_io (df_sync_data ops) else flush_dirty_pages ops)"

section \<open>Checking\<close>

definition aligned_length :: "u64 \<Rightarrow> bool" where
  "aligned_length len \<longleftrightarrow> \<not> (len < 8192 \<or> unat len mod PAGE_SIZE \<noteq> 0)"

definition metadata_from_superblock ::
  "superblock \<Rightarrow> u64 \<Rightarrow> (page_id \<times> page_id option \<times> page_id) result"
where
  "metadata_from_superblock superblock file_length =
     (if unat (sb_page_size superblock) \<noteq> PAGE_SIZE then Inl UnsupportedFormat
      else
        bindR (ok_or (sb_root_page_id superblock) Corruption) (\<lambda>root.
        bindR (ok_or (sb_high_water_page_id superblock) Corruption) (\<lambda>high_water.
        bindR (ok_or (checked_add_u64 high_water 1) Corruption) (\<lambda>expected_page_count.
        if high_water < FIRST_DATA_PAGE \<or> unat expected_page_count \<noteq> unat file_length div PAGE_SIZE
        then Inl Corruption
        else if root < FIRST_DATA_PAGE \<or> high_water < root then Inl Corruption
        else if (case sb_free_list_head superblock of
                   None \<Rightarrow> False
                 | Some free \<Rightarrow> free < FIRST_DATA_PAGE \<or> high_water < free) then Inl Corruption
        else Inr (root, sb_free_list_head superblock, high_water)))))"

definition read_selected_superblock ::
  "(bytes \<Rightarrow> u32) \<Rightarrow> 'f durable_file_ops \<Rightarrow> ('f, error, selected_superblock) stateful"
where
  "read_selected_superblock crc ops =
     bindS (read_exact_at ops SUPERBLOCK_A_OFFSET PAGE_SIZE) (\<lambda>slot_a.
     bindS (read_exact_at ops SUPERBLOCK_B_OFFSET PAGE_SIZE) (\<lambda>slot_b.
       liftR (choose_superblock crc slot_a slot_b)))"

definition latest_commit_lsn :: "'w wal_log \<Rightarrow> lsn \<Rightarrow> lsn" where
  "latest_commit_lsn wal otherwise =
     (if wal_committed wal = [] then otherwise else cb_commit_lsn (last (wal_committed wal)))"

definition check_invariants ::
  "(bytes \<Rightarrow> u32) \<Rightarrow> 'f durable_file_ops \<Rightarrow> ('f, 'w, invariant_report) store_op"
where
  "check_invariants crc ops =
     bindS (st_get st_wal) (\<lambda>wal.
     bindS (if wal \<noteq> None then flush_dirty_pages ops else returnS ()) (\<lambda>_.
     bindS (st_file_io (\<lambda>f. (df_len ops f, f))) (\<lambda>len.
     if \<not> aligned_length len then liftR (Inl Corruption)
     else
       bindS (st_file_io (read_selected_superblock crc ops)) (\<lambda>selected.
       bindS (st_get id) (\<lambda>st.
       if selected_slot selected \<noteq> st_active_slot st \<or> selected_superblock selected \<noteq> st_current_superblock st
       then liftR (Inl Corruption)
       else
         bindS (liftR (metadata_from_superblock (selected_superblock selected) len)) (\<lambda>(root, free_head, high_water).
         if root \<noteq> st_root_page_id st \<or> free_head \<noteq> st_free_list_head st \<or> high_water \<noteq> st_high_water_page_id st
         then liftR (Inl Corruption)
         else if (case st_wal st of
                    None \<Rightarrow> False
                  | Some wal \<Rightarrow>
                      latest_commit_lsn wal (sb_checkpoint_lsn (st_current_superblock st))
                        < sb_checkpoint_lsn (st_current_superblock st)) then liftR (Inl Corruption)
         else st_file_io (check crc ops root free_head high_water)))))))"

section \<open>Checkpoints\<close>

record checkpoint_report =
  cr_checkpoint_lsn :: lsn
  cr_pages_flushed :: usize
  cr_bytes_written :: u64
  cr_wal_bytes_reclaimed :: u64

definition checkpoint_bytes :: "usize \<Rightarrow> bool \<Rightarrow> bool \<Rightarrow> u64 option" where
  "checkpoint_bytes dirty_page_count dirty_superblock metadata_changed =
     (if dirty_page_count < 2 ^ 64 then
        (case checked_mul_u64 (word_of_nat dirty_page_count) 4096 of
           None \<Rightarrow> None
         | Some bs \<Rightarrow>
             (case checked_add_u64 bs (if dirty_superblock then 4096 else 0) of
                None \<Rightarrow> None
              | Some bs \<Rightarrow> checked_add_u64 bs (if metadata_changed then 4096 else 0)))
      else None)"

definition checkpoint_metadata ::
  "(bytes \<Rightarrow> u32) \<Rightarrow> 'f durable_file_ops \<Rightarrow> lsn \<Rightarrow> ('f, 'w, unit) store_op"
where
  "checkpoint_metadata crc ops checkpoint_lsn =
     bindS (st_get id) (\<lambda>st.
     bindS (ok_orS (checked_add_u64 (sb_generation (st_current_superblock st)) 1) InternalInvariantViolation)
       (\<lambda>generation.
     bindS (liftR (encode_superblock crc ((st_current_superblock st)\<lparr>sb_generation := generation,
              sb_checkpoint_lsn := checkpoint_lsn\<rparr>))) (\<lambda>bs.
     bindS (liftR (decode_superblock crc bs)) (\<lambda>superblock.
     bindS (liftR (encode_superblock crc superblock)) (\<lambda>bs.
     (let slot = other_slot (st_active_slot st) in
     bindS (st_hit_fault ''before_checkpoint_superblock_write'') (\<lambda>_.
     bindS (or_broken (\<lambda>_. CheckpointFailure) (st_file_io (write_all_at ops (slot_offset slot) bs))) (\<lambda>_.
     bindS (st_hit_fault ''after_checkpoint_superblock_write'') (\<lambda>_.
     bindS (st_hit_fault ''before_checkpoint_metadata_sync'') (\<lambda>_.
     bindS (st_hit_fault ''during_checkpoint_metadata_sync'') (\<lambda>_.
     bindS (or_broken (\<lambda>_. CheckpointFailure) (st_file_io (df_sync_data ops))) (\<lambda>_.
     bindS (or_broken (\<lambda>_. CheckpointFailure) (st_hit_fault ''after_checkpoint_metadata_sync'')) (\<lambda>_.
       st_modify (\<lambda>st. st\<lparr>st_current_superblock := superblock, st_active_slot := slot\<rparr>))))))))))))))"

definition reset_wal ::
  "(bytes \<Rightarrow> u32) \<Rightarrow> 'w durable_file_ops \<Rightarrow> lsn \<Rightarrow> ('f, 'w, unit) store_op"
where
  "reset_wal crc wops checkpoint_lsn st =
     (case st_wal st of
        None \<Rightarrow> (Inr (), st)
      | Some wal \<Rightarrow>
          if wal_committed wal \<noteq> [] \<or> wal_history_start_lsn wal < checkpoint_lsn then
            (case wal_reset crc wops checkpoint_lsn (wal, st_fault_injector st) of
               (Inl e, wal, i) \<Rightarrow>
                 (Inl CheckpointFailure, st\<lparr>st_wal := Some wal, st_fault_injector := i, st_broken := True\<rparr>)
             | (Inr _, wal, i) \<Rightarrow>
                 (Inr (), st\<lparr>st_next_lsn := wal_next_lsn wal, st_next_batch_id := wal_next_batch_id wal,
                             st_wal := Some wal, st_fault_injector := i\<rparr>))
          else (Inr (), st))"

definition checkpoint ::
  "(bytes \<Rightarrow> u32) \<Rightarrow> 'f durable_file_ops \<Rightarrow> 'w durable_file_ops \<Rightarrow> ('f, 'w, checkpoint_report) store_op"
where
  "checkpoint crc ops wops =
     bindS (st_get st_broken) (\<lambda>broken.
     if broken then liftR (Inl CheckpointFailure)
     else
     bindS (st_hit_fault ''before_checkpoint_gate'') (\<lambda>_.
     bindS (st_get id) (\<lambda>st.
     bindS (ok_orS (st_wal st) CheckpointFailure) (\<lambda>wal.
     (let current = sb_checkpoint_lsn (st_current_superblock st);
          checkpoint_lsn = latest_commit_lsn wal current
      in if checkpoint_lsn < current then liftR (Inl InternalInvariantViolation)
         else
           (let metadata_changed = current < checkpoint_lsn;
                dirty_page_count = length (st_dirty_pages st)
            in
     bindS (ok_orS (checkpoint_bytes dirty_page_count (st_dirty_superblock st \<noteq> None) metadata_changed)
              CheckpointFailure) (\<lambda>bytes_written.
     bindS (liftR (wal_metrics_of wops wal)) (\<lambda>metrics_before.
     bindS (st_hit_fault ''before_checkpoint_data_flush'') (\<lambda>_.
     bindS (map_errS (\<lambda>_. CheckpointFailure) (flush_dirty_pages ops)) (\<lambda>_.
     bindS (st_hit_fault ''after_checkpoint_data_sync'') (\<lambda>_.
     bindS (if metadata_changed then checkpoint_metadata crc ops checkpoint_lsn else returnS ()) (\<lambda>_.
     bindS (or_broken (\<lambda>_. CheckpointFailure) (check_invariants crc ops)) (\<lambda>_.
     bindS (reset_wal crc wops checkpoint_lsn) (\<lambda>_.
     bindS (or_broken (\<lambda>_. CheckpointFailure) (st_hit_fault ''before_checkpoint_complete'')) (\<lambda>_.
     bindS (st_get st_wal) (\<lambda>wal.
     bindS (case wal of
              None \<Rightarrow> returnS 0
            | Some wal \<Rightarrow> bindS (liftR (wal_metrics_of wops wal)) (\<lambda>metrics. returnS (metric_wal_bytes metrics)))
       (\<lambda>wal_bytes_after.
       returnS \<lparr>cr_checkpoint_lsn = checkpoint_lsn, cr_pages_flushed = dirty_page_count,
         cr_bytes_written = bytes_written,
         cr_wal_bytes_reclaimed =
           (if metric_wal_bytes metrics_before < wal_bytes_after then 0
            else metric_wal_bytes metrics_before - wal_bytes_after)\<rparr>)))))))))))))))))"

section \<open>Creating a store\<close>

definition initial_superblock :: "database_config \<Rightarrow> superblock" where
  "initial_superblock config =
     (superblock_new 1 (cfg_database_uuid config) (cfg_tenant_id config) (cfg_shard_id config)
        (cfg_shard_epoch config))\<lparr>sb_root_page_id := Some FIRST_DATA_PAGE, sb_high_water_page_id := Some FIRST_DATA_PAGE\<rparr>"

definition initialize ::
  "(bytes \<Rightarrow> u32) \<Rightarrow> 'f durable_file_ops \<Rightarrow> database_config \<Rightarrow> ('f, error, ('f, 'w) btree_store) stateful"
where
  "initialize crc ops config =
     bindS (liftR (page_data_encode crc FIRST_DATA_PAGE (LeafPage 0 None []))) (\<lambda>root_bytes.
     bindS (liftR (encode_superblock crc (initial_superblock config))) (\<lambda>superblock_bytes.
     bindS (df_set_len ops 12288) (\<lambda>_.
     bindS (write_all_at ops SUPERBLOCK_A_OFFSET superblock_bytes) (\<lambda>_.
     bindS (write_all_at ops SUPERBLOCK_B_OFFSET superblock_bytes) (\<lambda>_.
     bindS (write_all_at ops (page_offset FIRST_DATA_PAGE) root_bytes) (\<lambda>_.
     bindS (df_sync_all ops) (\<lambda>_ f.
       (Inr \<lparr>st_file = f, st_wal = None, st_current_superblock = initial_superblock config,
             st_active_slot = SlotA, st_root_page_id = FIRST_DATA_PAGE, st_free_list_head = None,
             st_high_water_page_id = FIRST_DATA_PAGE, st_next_revision = 1, st_next_lsn = 1,
             st_next_batch_id = 1, st_cache = cache_new (cfg_cache_capacity config), st_config = config,
             st_dirty_pages = [], st_dirty_superblock = None, st_track_published_pages = False,
             st_published_page_updates = [], st_broken = False, st_fault_injector = None\<rparr>, f))))))))"

section \<open>Redo recovery\<close>

definition validate_superblock_identity :: "superblock \<Rightarrow> wal_identity \<Rightarrow> unit result" where
  "validate_superblock_identity superblock identity =
     (if sb_database_uuid superblock \<noteq> wi_database_uuid identity \<or> sb_tenant_id superblock \<noteq> wi_tenant_id identity \<or>
         sb_shard_id superblock \<noteq> wi_shard_id identity \<or> sb_shard_epoch superblock \<noteq> wi_shard_epoch identity
      then Inl Corruption else Inr ())"

definition validate_existing_identity_before_wal ::
  "(bytes \<Rightarrow> u32) \<Rightarrow> 'f durable_file_ops \<Rightarrow> wal_identity \<Rightarrow> u64 \<Rightarrow> ('f, error, lsn option) stateful"
where
  "validate_existing_identity_before_wal crc ops identity wal_length =
     bindS (\<lambda>f. (df_len ops f, f)) (\<lambda>len.
     if len = 0 then returnS None
     else if \<not> aligned_length len then
       if wal_length = 0 then liftR (Inl Corruption) else returnS None
     else
       bindS (read_exact_at ops SUPERBLOCK_A_OFFSET PAGE_SIZE) (\<lambda>slot_a.
       bindS (read_exact_at ops SUPERBLOCK_B_OFFSET PAGE_SIZE) (\<lambda>slot_b.
         (case choose_superblock crc slot_a slot_b of
            Inl e \<Rightarrow> if 0 < wal_length then returnS None else liftR (Inl e)
          | Inr selected \<Rightarrow>
              bindS (liftR (validate_superblock_identity (selected_superblock selected) identity)) (\<lambda>_.
                returnS (Some (sb_checkpoint_lsn (selected_superblock selected))))))))"

type_synonym ('f, 'a) recovery_op = "('f \<times> crash_injector option, error, 'a) stateful"

definition recovery_should_write ::
  "(bytes \<Rightarrow> u32) \<Rightarrow> 'f durable_file_ops \<Rightarrow> u64 \<Rightarrow> lsn \<Rightarrow> page_id \<Rightarrow> u64 \<Rightarrow> ('f, error, bool) stateful"
where
  "recovery_should_write crc ops readable_length commit_lsn pid offset =
     (if pid = 0 \<or> pid = 1 then returnS True
      else if (case checked_add_u64 offset 4096 of None \<Rightarrow> False | Some end_offset \<Rightarrow> end_offset \<le> readable_length)
      then
        bindS (read_exact_at ops offset PAGE_SIZE) (\<lambda>bs.
          (case decode_page_at crc bs (Some pid) of
             Inl _ \<Rightarrow> returnS True
           | Inr current \<Rightarrow> returnS (header_page_lsn (decoded_header current) < commit_lsn)))
      else returnS True)"

primrec recover_pages ::
  "(bytes \<Rightarrow> u32) \<Rightarrow> 'f durable_file_ops \<Rightarrow> u64 \<Rightarrow> lsn \<Rightarrow> wal_page_image list \<Rightarrow> bool \<Rightarrow> ('f, bool) recovery_op"
where
  "recover_pages crc ops readable_length commit_lsn [] changed = returnS changed"
| "recover_pages crc ops readable_length commit_lsn (page # pages) changed =
     bindS (ok_orS (checked_mul_u64 (wpi_page_id page) 4096) RecoveryFailure) (\<lambda>offset.
     bindS (file_io (recovery_should_write crc ops readable_length commit_lsn (wpi_page_id page) offset)) (\<lambda>should_write.
     if should_write then
       bindS (file_hit ''during_recovery_page_write'') (\<lambda>_.
       bindS (file_io (write_all_at ops offset (wpi_image page))) (\<lambda>_.
         recover_pages crc ops readable_length commit_lsn pages True))
     else recover_pages crc ops readable_length commit_lsn pages changed))"

primrec recover_batches ::
  "(bytes \<Rightarrow> u32) \<Rightarrow> 'f durable_file_ops \<Rightarrow> u64 \<Rightarrow> committed_wal_batch list \<Rightarrow> bool \<Rightarrow> ('f, bool) recovery_op"
where
  "recover_batches crc ops readable_length [] changed = returnS changed"
| "recover_batches crc ops readable_length (batch # batches) changed =
     bindS (recover_pages crc ops readable_length (cb_commit_lsn batch) (cb_pages batch) changed) (\<lambda>changed.
       recover_batches crc ops readable_length batches changed)"

definition highest_data_page :: "committed_wal_batch list \<Rightarrow> page_id" where
  "highest_data_page batches =
     fold max (filter (\<lambda>pid. FIRST_DATA_PAGE \<le> pid) (map wpi_page_id (concat (map cb_pages batches)))) FIRST_DATA_PAGE"

definition recover_data_file ::
  "(bytes \<Rightarrow> u32) \<Rightarrow> 'f durable_file_ops \<Rightarrow> committed_wal_batch list \<Rightarrow> lsn \<Rightarrow> ('f, unit) recovery_op"
where
  "recover_data_file crc ops committed checkpoint_lsn =
     (let batches = filter (\<lambda>batch. checkpoint_lsn < cb_commit_lsn batch) committed in
      if batches = [] then returnS ()
      else
        bindS (ok_orS (checked_add_u64 (highest_data_page batches) 1) RecoveryFailure) (\<lambda>page_count.
        bindS (ok_orS (checked_mul_u64 page_count 4096) RecoveryFailure) (\<lambda>target.
        bindS (file_io (\<lambda>f. (df_len ops f, f))) (\<lambda>current_length.
        bindS (if current_length = 0 \<or> current_length < target then file_io (df_set_len ops target)
               else if unat current_length mod PAGE_SIZE \<noteq> 0 then liftR (Inl RecoveryFailure)
               else returnS ()) (\<lambda>_.
        bindS (file_io (\<lambda>f. (df_len ops f, f))) (\<lambda>readable_length.
        bindS (recover_batches crc ops readable_length batches (current_length < target)) (\<lambda>changed.
          if changed then
            bindS (file_hit ''before_recovery_sync'') (\<lambda>_.
            bindS (file_hit ''during_recovery_sync'') (\<lambda>_.
            bindS (file_io (map_errS (\<lambda>_. DurabilityFailure) (df_sync_data ops))) (\<lambda>_.
              file_hit ''after_recovery_sync'')))
          else returnS ())))))))"

section \<open>Opening\<close>

definition config_identity :: "database_config \<Rightarrow> wal_identity" where
  "config_identity config =
     \<lparr>wi_database_uuid = cfg_database_uuid config, wi_tenant_id = cfg_tenant_id config,
      wi_shard_id = cfg_shard_id config, wi_shard_epoch = cfg_shard_epoch config\<rparr>"

text \<open>The store of a selected superblock, before its revision counter is known.\<close>

definition store_of_superblock ::
  "'f \<Rightarrow> 'w wal_log option \<Rightarrow> selected_superblock \<Rightarrow> page_id \<times> page_id option \<times> page_id \<Rightarrow> lsn \<Rightarrow> database_config
     \<Rightarrow> crash_injector option \<Rightarrow> ('f, 'w) btree_store"
where
  "store_of_superblock f wal selected metadata next_lsn config injector =
     (case metadata of (root, free_head, high_water) \<Rightarrow>
       \<lparr>st_file = f, st_wal = wal, st_current_superblock = selected_superblock selected,
        st_active_slot = selected_slot selected, st_root_page_id = root, st_free_list_head = free_head,
        st_high_water_page_id = high_water, st_next_revision = 1, st_next_lsn = next_lsn, st_next_batch_id = 1,
        st_cache = cache_new (cfg_cache_capacity config), st_config = config, st_dirty_pages = [],
        st_dirty_superblock = None, st_track_published_pages = False, st_published_page_updates = [],
        st_broken = False, st_fault_injector = injector\<rparr>)"

definition open_no_wal ::
  "(bytes \<Rightarrow> u32) \<Rightarrow> 'f durable_file_ops \<Rightarrow> database_config \<Rightarrow> ('f, error, ('f, 'w) btree_store) stateful"
where
  "open_no_wal crc ops config =
     bindS (\<lambda>f. (df_len ops f, f)) (\<lambda>len.
     if len = 0 then initialize crc ops config
     else if \<not> aligned_length len then liftR (Inl Corruption)
     else
       bindS (read_selected_superblock crc ops) (\<lambda>selected.
       bindS (liftR (metadata_from_superblock (selected_superblock selected) len)) (\<lambda>metadata f.
         (case check_invariants crc ops (store_of_superblock f None selected metadata 1 config None) of
            (Inl e, st) \<Rightarrow> (Inl e, st_file st)
          | (Inr report, st) \<Rightarrow>
              (case ok_or (checked_add_u64 (ir_max_revision report) 1) InternalInvariantViolation of
                 Inl e \<Rightarrow> (Inl e, st_file st)
               | Inr next_revision \<Rightarrow> (Inr (st\<lparr>st_next_revision := next_revision\<rparr>), st_file st))))))"

definition open_recovered ::
  "(bytes \<Rightarrow> u32) \<Rightarrow> 'f durable_file_ops \<Rightarrow> database_config \<Rightarrow> 'w wal_log
     \<Rightarrow> ('f, ('f, 'w) btree_store) recovery_op"
where
  "open_recovered crc ops config wal =
     bindS (file_io (\<lambda>f. (df_len ops f, f))) (\<lambda>len.
     if \<not> aligned_length len then liftR (Inl RecoveryFailure)
     else
       bindS (file_io (read_selected_superblock crc ops)) (\<lambda>selected.
       bindS (liftR (validate_superblock_identity (selected_superblock selected) (config_identity config))) (\<lambda>_.
       bindS (liftR (metadata_from_superblock (selected_superblock selected) len)) (\<lambda>metadata.
       bindS (liftR (resume_after (sb_checkpoint_lsn (selected_superblock selected)) wal)) (\<lambda>wal s.
         (case check_invariants crc ops
                 (store_of_superblock (fst s) (Some wal) selected metadata 0 config (snd s)) of
            (Inl e, st) \<Rightarrow> (Inl e, st_file st, st_fault_injector st)
          | (Inr report, st) \<Rightarrow>
              (case ok_or (checked_add_u64 (max (ir_max_revision report) (latest_commit_lsn wal 0)) 1)
                      InternalInvariantViolation of
                 Inl e \<Rightarrow> (Inl e, st_file st, st_fault_injector st)
               | Inr next_revision \<Rightarrow>
                   (Inr (st\<lparr>st_next_revision := next_revision, st_next_lsn := wal_next_lsn wal,
                            st_next_batch_id := wal_next_batch_id wal\<rparr>), st_file st, st_fault_injector st))))))))"

definition open_with_wal ::
  "(bytes \<Rightarrow> u32) \<Rightarrow> 'f durable_file_ops \<Rightarrow> 'w durable_file_ops \<Rightarrow> database_config
     \<Rightarrow> ('f \<times> 'w \<times> crash_injector option, error, ('f, 'w) btree_store) stateful"
where
  "open_with_wal crc ops wops config s =
     (case s of (f, wfile, injector) \<Rightarrow>
     (case df_len wops wfile of
        Inl e \<Rightarrow> (Inl e, f, wfile, injector)
      | Inr wal_length \<Rightarrow>
     (case validate_existing_identity_before_wal crc ops (config_identity config) wal_length f of
        (Inl e, f) \<Rightarrow> (Inl e, f, wfile, injector)
      | (Inr hint, f) \<Rightarrow>
     (let checkpoint_hint = (case hint of None \<Rightarrow> 0 | Some lsn \<Rightarrow> lsn) in
      case wal_open crc wops (config_identity config) checkpoint_hint (wfile, injector) of
        (Inl e, wfile, injector) \<Rightarrow> (Inl e, f, wfile, injector)
      | (Inr wal, wfile, injector) \<Rightarrow>
     (case df_len ops f of
        Inl e \<Rightarrow> (Inl e, f, wfile, injector)
      | Inr len \<Rightarrow>
          if len = 0 \<and> wal_committed wal = [] then
            (case initialize crc ops config f of
               (Inl e, f) \<Rightarrow> (Inl e, f, wfile, injector)
             | (Inr st, f) \<Rightarrow>
                 (Inr (st\<lparr>st_wal := Some wal, st_next_lsn := wal_next_lsn wal,
                          st_next_batch_id := wal_next_batch_id wal, st_fault_injector := injector\<rparr>), f, wfile, injector))
          else
            (case bindS (recover_data_file crc ops (wal_committed wal) checkpoint_hint) (\<lambda>_.
                    open_recovered crc ops config wal) (f, injector) of
               (r, f, injector) \<Rightarrow> (r, f, wfile, injector)))))))"

end
