(* ===== verification/Outcome.thy ===== *)
theory Outcome
  imports Dodb_Prelude
begin

text \<open>
  Reasoning about stateful code that may fail: \<open>outcome Q E r\<close> holds of a finished run if its
  result and state satisfy \<open>Q\<close> when it succeeded and its error and state satisfy \<open>E\<close> when it
  failed. The rules below follow the way the code is composed.
\<close>

definition outcome :: "('a \<Rightarrow> 's \<Rightarrow> bool) \<Rightarrow> ('e \<Rightarrow> 's \<Rightarrow> bool) \<Rightarrow> ('e + 'a) \<times> 's \<Rightarrow> bool" where
  "outcome Q E r = (case fst r of Inr x \<Rightarrow> Q x (snd r) | Inl e \<Rightarrow> E e (snd r))"

lemma outcome_simps [simp]:
  "outcome Q E (Inr x, s) = Q x s" "outcome Q E (Inl e, s) = E e s"
  by (simp_all add: outcome_def)

lemma outcome_returnS [simp]: "outcome Q E (returnS x s) = Q x s"
  by (simp add: returnS_def)

lemma outcome_liftR [simp]: "outcome Q E (liftR r s) = (case r of Inr x \<Rightarrow> Q x s | Inl e \<Rightarrow> E e s)"
  by (simp add: liftR_def outcome_def split: sum.splits)

lemma outcome_bindS:
  assumes "outcome R E (m s)" "\<And>x s'. R x s' \<Longrightarrow> outcome Q E (f x s')"
  shows "outcome Q E (bindS m f s)"
proof -
  obtain r s' where "m s = (r, s')" by (cases "m s") blast
  then show ?thesis using assms by (cases r) (simp_all add: bindS_def)
qed

lemma outcome_mono:
  assumes "outcome R F r" "\<And>x s. R x s \<Longrightarrow> Q x s" "\<And>e s. F e s \<Longrightarrow> E e s"
  shows "outcome Q E r"
proof -
  obtain r1 s where "r = (r1, s)" by (cases r) blast
  then show ?thesis using assms by (cases r1) simp_all
qed

lemma outcome_case:
  assumes "outcome R E r" "\<And>x s. r = (Inr x, s) \<Longrightarrow> R x s \<Longrightarrow> outcome Q E (f x s)"
    and "\<And>e s. r = (Inl e, s) \<Longrightarrow> E e s \<Longrightarrow> outcome Q E (g e s)"
  shows "outcome Q E (case r of (Inr x, s) \<Rightarrow> f x s | (Inl e, s) \<Rightarrow> g e s)"
proof -
  obtain r1 s where "r = (r1, s)" by (cases r) blast
  then show ?thesis using assms by (cases r1) simp_all
qed

lemma outcome_conj:
  "outcome Q E r \<Longrightarrow> outcome R F r \<Longrightarrow> outcome (\<lambda>x s. Q x s \<and> R x s) (\<lambda>e s. E e s \<and> F e s) r"
  by (auto simp: outcome_def split: sum.splits)

lemma outcome_InrD: "outcome Q E r \<Longrightarrow> r = (Inr x, s) \<Longrightarrow> Q x s"
  by simp

lemma outcome_InlD: "outcome Q E r \<Longrightarrow> r = (Inl e, s) \<Longrightarrow> E e s"
  by simp

lemma outcome_I:
  assumes "\<And>x s. r = (Inr x, s) \<Longrightarrow> Q x s" "\<And>e s. r = (Inl e, s) \<Longrightarrow> E e s"
  shows "outcome Q E r"
proof -
  obtain r1 s where "r = (r1, s)" by (cases r) blast
  then show ?thesis using assms by (cases r1) simp_all
qed

section \<open>Parts of the state that code leaves alone\<close>

definition keeps :: "('s \<Rightarrow> 'b) \<Rightarrow> ('s, 'e, 'a) stateful \<Rightarrow> bool" where
  "keeps field m \<longleftrightarrow> (\<forall>s. field (snd (m s)) = field s)"

named_theorems keeps_intros

lemma keeps_run: "keeps field m \<Longrightarrow> m s = (r, s') \<Longrightarrow> field s' = field s"
  unfolding keeps_def by (metis snd_conv)

lemma keeps_bindS_run:
  assumes "keeps field m" "\<And>x s1. m s = (Inr x, s1) \<Longrightarrow> field (snd (f x s1)) = field s1"
  shows "field (snd (bindS m f s)) = field s"
proof -
  obtain r s1 where r: "m s = (r, s1)" by force
  show ?thesis using keeps_run [OF assms(1) r] assms(2) r by (cases r) (auto simp: bindS_def)
qed

lemma keeps_bindS [keeps_intros]: "keeps field m \<Longrightarrow> (\<And>x. keeps field (f x)) \<Longrightarrow> keeps field (bindS m f)"
  using keeps_bindS_run [of field m _ f] unfolding keeps_def by blast

lemma keeps_pure [keeps_intros]:
  "keeps field (liftR r)" "keeps field (returnS x)"
  by (simp_all add: keeps_def liftR_def returnS_def)

end
