(* ===== verification/Btree_Heap.thy ===== *)
theory Btree_Heap
  imports Btree_Overlay Outcome "HOL-Library.Multiset"
begin

text \<open>
  An overlay seen as a heap of pages. \<open>stored_page\<close> is the committed page of a store, whichever
  of the dirty pages or the data file holds it; \<open>ov_view\<close> puts the pages of the overlay over it.
  A heap \<open>V\<close> is a partial function from page ids to pages; \<open>ov_holds\<close> says that an overlay shows
  every page of the heap, that its caches are coherent, and that it has left the committed state
  alone. \<open>arena\<close> adds who owns what: the pages \<open>owned\<close> by the tree and its values and the pages
  \<open>fs\<close> of the free list are distinct. The laws of the page operations are stated over it.
\<close>

section \<open>Committed pages\<close>

definition stored_page ::
  "(bytes \<Rightarrow> u32) \<Rightarrow> ('f \<Rightarrow> bytes) \<Rightarrow> ('f, 'w) btree_store \<Rightarrow> page_id \<Rightarrow> page_data result"
where
  "stored_page crc view st pid =
     (case map_of (st_dirty_pages st) pid of
        Some bs \<Rightarrow> decode_page_data crc pid bs
      | None \<Rightarrow>
          if (unat pid + 1) * PAGE_SIZE \<le> length (view (st_file st))
          then decode_page_data crc pid
                 (byte_slice (unat pid * PAGE_SIZE) (unat pid * PAGE_SIZE + PAGE_SIZE) (view (st_file st)))
          else Inl Corruption)"

definition coherent :: "(bytes \<Rightarrow> u32) \<Rightarrow> ('f \<Rightarrow> bytes) \<Rightarrow> ('f, 'w) btree_store \<Rightarrow> bool" where
  "coherent crc view st \<longleftrightarrow>
     (\<forall>pid page. cache_lookup (st_cache st) pid = Some page \<longrightarrow> stored_page crc view st pid = Inr page) \<and>
     (cache_capacity (st_cache st) = 0 \<longrightarrow> cache_pages (st_cache st) = [])"

definition same_committed ::
  "(bytes \<Rightarrow> u32) \<Rightarrow> ('f \<Rightarrow> bytes) \<Rightarrow> ('f \<Rightarrow> bool) \<Rightarrow> ('f, 'w) btree_store \<Rightarrow> ('f, 'w) btree_store \<Rightarrow> bool"
where
  "same_committed crc view healthy st0 st \<longleftrightarrow>
     st\<lparr>st_file := st_file st0, st_cache := st_cache st0\<rparr> = st0 \<and>
     view (st_file st) = view (st_file st0) \<and> length (view (st_file st0)) < 2 ^ 64 \<and>
     (healthy (st_file st0) \<longrightarrow> healthy (st_file st)) \<and> coherent crc view st"

lemma cache_get_empty:
  assumes "cache_get pid c = (r, c')"
  shows "cache_capacity c' = cache_capacity c" "cache_pages c = [] \<Longrightarrow> cache_pages c' = []"
  using assms by (auto simp: cache_get_def next_clock_def Let_def split: option.splits)

lemma stored_page_cong:
  "st_dirty_pages st = st_dirty_pages st' \<Longrightarrow> view (st_file st) = view (st_file st') \<Longrightarrow>
    stored_page crc view st = stored_page crc view st'"
  by (simp add: stored_page_def fun_eq_iff split: option.splits)

lemma same_committed_dirty:
  assumes "same_committed crc view healthy st0 st"
  shows "st_dirty_pages st = st_dirty_pages st0"
proof -
  have "st\<lparr>st_file := st_file st0, st_cache := st_cache st0\<rparr> = st0" using assms by (simp add: same_committed_def)
  from arg_cong [OF this, of st_dirty_pages] show ?thesis by simp
qed

lemma same_committed_stored:
  "same_committed crc view healthy st0 st \<Longrightarrow> stored_page crc view st = stored_page crc view st0"
  by (rule stored_page_cong) (simp_all add: same_committed_dirty, simp add: same_committed_def)

section \<open>The overlay as a heap\<close>

type_synonym page_heap = "page_id \<Rightarrow> page_data option"

text \<open>
  The base of an overlay: the store it reads, and the pages as they are for the next transaction
  staged in it, which the earlier transactions of its group may already have changed.
\<close>

type_synonym ('f, 'w) base = "('f, 'w) btree_store \<times> (page_id \<Rightarrow> page_data result)"

definition ov_view ::
  "(bytes \<Rightarrow> u32) \<Rightarrow> ('f \<Rightarrow> bytes) \<Rightarrow> ('f, 'w) overlay \<Rightarrow> page_id \<Rightarrow> page_data result"
where
  "ov_view crc view ov pid =
     (case map_of (ov_pages ov) pid of
        Some page \<Rightarrow> Inr page
      | None \<Rightarrow> stored_page crc view (ov_store ov) pid)"

definition clean_pages :: "(bytes \<Rightarrow> u32) \<Rightarrow> ('f \<Rightarrow> bytes) \<Rightarrow> ('f, 'w) base \<Rightarrow> ('f, 'w) overlay \<Rightarrow> bool" where
  "clean_pages crc view st0 ov \<longleftrightarrow>
     (\<forall>pid page. map_of (ov_pages ov) pid = Some page \<longrightarrow> pid \<in> set (ov_dirty ov) \<or> snd st0 pid = Inr page) \<and>
     (\<forall>pid. map_of (ov_pages ov) pid = None \<longrightarrow> snd st0 pid = stored_page crc view (fst st0) pid) \<and>
     (\<forall>pid page. map_of (ov_read_pages ov) pid = Some page \<longrightarrow> snd st0 pid = Inr page) \<and> bm_wf (ov_read_pages ov) \<and>
     set (ov_dirty ov) \<subseteq> dom (map_of (ov_pages ov))"

text \<open>
  The pages of a heap encode, and the pages they refer to are allocated. While the allocator has
  not reached the null page id, such a page is well formed and survives its encoding.
\<close>

definition ref_le :: "page_id \<Rightarrow> page_id option \<Rightarrow> bool" where
  "ref_le hw r = (case r of None \<Rightarrow> True | Some p \<Rightarrow> p \<le> hw)"

definition entry_le :: "page_id \<Rightarrow> leaf_entry \<Rightarrow> bool" where
  "entry_le hw e =
     (case le_value e of
        Some (Overflow head len) \<Rightarrow> head \<le> hw \<and> 0 < len \<and> unat len \<le> MAX_VALUE_SIZE
      | _ \<Rightarrow> True)"

fun links_le :: "page_id \<Rightarrow> page_data \<Rightarrow> bool" where
  "links_le hw (LeafPage lsn nxt es) \<longleftrightarrow> ref_le hw nxt \<and> (\<forall>e \<in> set es. entry_le hw e)"
| "links_le hw (InternalPage lsn l es) \<longleftrightarrow> True"
| "links_le hw (OverflowPage lsn nxt len chunk) \<longleftrightarrow> ref_le hw nxt"
| "links_le hw (FreePage lsn nxt) \<longleftrightarrow> ref_le hw nxt"

definition page_sound :: "page_id \<Rightarrow> page_data \<Rightarrow> bool" where
  "page_sound hw page \<longleftrightarrow> links_le hw page \<and> is_ok (encode_body page)"

definition ov_holds ::
  "(bytes \<Rightarrow> u32) \<Rightarrow> ('f \<Rightarrow> bytes) \<Rightarrow> ('f \<Rightarrow> bool) \<Rightarrow> ('f, 'w) base \<Rightarrow> page_heap \<Rightarrow> ('f, 'w) overlay \<Rightarrow> bool"
where
  "ov_holds crc view healthy st0 V ov \<longleftrightarrow>
     same_committed crc view healthy (fst st0) (ov_store ov) \<and> clean_pages crc view st0 ov \<and>
     (\<forall>pid page. V pid = Some page \<longrightarrow>
        2 \<le> pid \<and> pid \<le> ov_high_water_page_id ov \<and> ov_view crc view ov pid = Inr page \<and> page_sound (ov_high_water_page_id ov) page) \<and>
     set (ov_dirty ov) \<subseteq> dom V"

text \<open>The fields of an overlay that page operations leave alone.\<close>

definition ov_stamp :: "('f, 'w) overlay \<Rightarrow> revision \<times> lsn option \<times> lsn \<times> u64 \<times> superblock \<times> superblock_slot" where
  "ov_stamp ov =
     (ov_next_revision ov, ov_last_lsn ov, ov_next_lsn ov, ov_next_batch_id ov, ov_current_superblock ov, ov_active_slot ov)"

definition ov_core ::
  "('f, 'w) overlay \<Rightarrow> page_id \<times> revision \<times> lsn option \<times> lsn \<times> u64 \<times> superblock \<times> superblock_slot"
where
  "ov_core ov = (ov_root_page_id ov, ov_stamp ov)"

lemma ov_coreD:
  "ov_core ov' = ov_core ov \<Longrightarrow> ov_root_page_id ov' = ov_root_page_id ov"
  "ov_core ov' = ov_core ov \<Longrightarrow> ov_stamp ov' = ov_stamp ov"
  by (simp_all add: ov_core_def)

fun free_list :: "page_heap \<Rightarrow> page_id option \<Rightarrow> page_id list \<Rightarrow> bool" where
  "free_list V None [] \<longleftrightarrow> True"
| "free_list V (Some p) (q # ps) \<longleftrightarrow> p = q \<and> (\<exists>lsn nxt. V p = Some (FreePage lsn nxt) \<and> free_list V nxt ps)"
| "free_list V _ _ \<longleftrightarrow> False"

definition arena ::
  "(bytes \<Rightarrow> u32) \<Rightarrow> ('f \<Rightarrow> bytes) \<Rightarrow> ('f \<Rightarrow> bool) \<Rightarrow> ('f, 'w) base \<Rightarrow> page_heap \<Rightarrow> page_id list
     \<Rightarrow> page_id list \<Rightarrow> ('f, 'w) overlay \<Rightarrow> bool"
where
  "arena crc view healthy st0 V owned fs ov \<longleftrightarrow>
     ov_holds crc view healthy st0 V ov \<and> free_list V (ov_free_list_head ov) fs \<and>
     distinct (owned @ fs) \<and> set (ov_dirty ov) \<subseteq> set (owned @ fs) \<and> 2 \<le> ov_high_water_page_id ov \<and> (\<forall>p \<in> set owned. 2 \<le> p \<and> p \<le> ov_high_water_page_id ov)"

text \<open>A failed operation leaves the committed state alone; on a healthy file its error is one of \<open>A\<close>.\<close>

definition fails ::
  "(bytes \<Rightarrow> u32) \<Rightarrow> ('f \<Rightarrow> bytes) \<Rightarrow> ('f \<Rightarrow> bool) \<Rightarrow> ('f, 'w) base \<Rightarrow> error set \<Rightarrow> error
     \<Rightarrow> ('f, 'w) overlay \<Rightarrow> bool"
where
  "fails crc view healthy st0 A e ov \<longleftrightarrow>
     same_committed crc view healthy (fst st0) (ov_store ov) \<and> (healthy (st_file (fst st0)) \<longrightarrow> e \<in> A)"

lemma fails_mono: "fails crc view healthy st0 A e ov \<Longrightarrow> A \<subseteq> B \<Longrightarrow> fails crc view healthy st0 B e ov"
  by (auto simp: fails_def)

lemma outcome_fails_mono:
  "outcome Q (fails crc view healthy st0 A) r \<Longrightarrow> A \<subseteq> B \<Longrightarrow> outcome Q (fails crc view healthy st0 B) r"
  by (erule outcome_mono) (auto intro: fails_mono)

lemma ref_le_mono: "ref_le hw r \<Longrightarrow> hw \<le> hw' \<Longrightarrow> ref_le hw' r"
  by (auto simp: ref_le_def split: option.splits intro: order_trans)

lemma entry_le_mono: "entry_le hw e \<Longrightarrow> hw \<le> hw' \<Longrightarrow> entry_le hw' e"
  by (auto simp: entry_le_def split: option.splits value_ref.splits intro: order_trans)

lemma page_sound_mono: "page_sound hw page \<Longrightarrow> hw \<le> hw' \<Longrightarrow> page_sound hw' page"
  by (cases page) (auto simp: page_sound_def intro: ref_le_mono entry_le_mono)

lemma page_sound_wf:
  assumes "page_sound hw page" "hw \<noteq> NULL_PAGE_ID"
  shows "page_data_wf page"
proof -
  have "hw < NULL_PAGE_ID" using assms(2) word_order.not_eq_extremum by auto
  then have less: "p \<noteq> NULL_PAGE_ID" if "p \<le> hw" for p using that by auto
  show ?thesis
    using assms(1) less
    by (cases page) (auto simp: page_sound_def ref_le_def entry_le_def split: option.splits value_ref.splits)
qed

lemma page_sound_leaf:
  "page_sound hw (LeafPage lsn nxt es) \<longleftrightarrow> ref_le hw nxt \<and> (\<forall>e \<in> set es. entry_le hw e) \<and> leaf_fits es"
  by (simp add: page_sound_def leaf_fits_def encode_leaf_def
      encode_slotted_ok [OF length_magics(1) encode_leaf_record_length] conj_assoc)

lemma page_sound_internal: "page_sound hw (InternalPage lsn l es) \<longleftrightarrow> internal_fits l es"
  by (simp add: page_sound_def internal_fits_def)

lemma page_sound_overflow:
  "page_sound hw (OverflowPage lsn nxt len chunk) \<longleftrightarrow> ref_le hw nxt \<and> len \<noteq> 0 \<and> unat len \<le> MAX_VALUE_SIZE \<and>
     length chunk \<le> OVERFLOW_DATA_SIZE \<and> chunk \<noteq> []"
  by (auto simp: page_sound_def is_ok_iff encode_overflow_def Let_def)

lemma page_sound_free: "page_sound hw (FreePage lsn nxt) \<longleftrightarrow> ref_le hw nxt"
  by (simp add: page_sound_def is_ok_iff encode_free_def Let_def)

lemma free_list_cong: "(\<And>p. p \<in> set ps \<Longrightarrow> V' p = V p) \<Longrightarrow> free_list V' h ps = free_list V h ps"
  by (induction V h ps rule: free_list.induct) auto

lemma free_list_dom: "free_list V h ps \<Longrightarrow> p \<in> set ps \<Longrightarrow> \<exists>page. V p = Some page"
  by (induction V h ps rule: free_list.induct) auto

lemma arena_perm: "mset xs = mset ys \<Longrightarrow> arena crc view healthy st0 V xs fs ov = arena crc view healthy st0 V ys fs ov"
proof -
  assume *: "mset xs = mset ys"
  then have "mset (xs @ fs) = mset (ys @ fs)" by simp
  then have "distinct (xs @ fs) = distinct (ys @ fs)" by (rule mset_eq_imp_distinct_iff)
  moreover have "set xs = set ys" using * by (rule mset_eq_setD)
  ultimately show ?thesis by (simp add: arena_def)
qed

lemma arena_holds: "arena crc view healthy st0 V owned fs ov \<Longrightarrow> ov_holds crc view healthy st0 V ov"
  by (simp add: arena_def)

lemma arena_distinct: "arena crc view healthy st0 V owned fs ov \<Longrightarrow> distinct owned"
  by (simp add: arena_def)

lemma arena_committed:
  "arena crc view healthy st0 V owned fs ov \<Longrightarrow> same_committed crc view healthy (fst st0) (ov_store ov)"
  by (simp add: arena_def ov_holds_def)

lemma arena_range:
  assumes "arena crc view healthy st0 V owned fs ov" "p \<in> set (owned @ fs)"
  shows "2 \<le> p" "p \<le> ov_high_water_page_id ov"
proof -
  have "2 \<le> p \<and> p \<le> ov_high_water_page_id ov"
  proof (cases "p \<in> set owned")
    case True
    then show ?thesis using assms(1) by (simp add: arena_def)
  next
    case False
    then obtain page where "V p = Some page"
      using assms free_list_dom [of V "ov_free_list_head ov" fs p] by (auto simp: arena_def)
    then show ?thesis using assms(1) by (simp add: arena_def ov_holds_def)
  qed
  then show "2 \<le> p" "p \<le> ov_high_water_page_id ov" by simp_all
qed

lemma arena_head:
  assumes "arena crc view healthy st0 V owned fs ov"
  shows "ref_le (ov_high_water_page_id ov) (ov_free_list_head ov)"
proof (cases "ov_free_list_head ov")
  case (Some p)
  then have "p \<in> set (owned @ fs)" using assms by (cases fs) (simp_all add: arena_def)
  from arena_range(2) [OF assms this] Some show ?thesis by (simp add: ref_le_def)
qed (simp add: ref_le_def)

lemma ov_holds_stored:
  "ov_holds crc view healthy st0 V ov \<Longrightarrow> stored_page crc view (ov_store ov) = stored_page crc view (fst st0)"
  unfolding ov_holds_def by (blast intro: same_committed_stored)

lemma ov_view_cong:
  "ov_store ov' = ov_store ov \<Longrightarrow> ov_pages ov' = ov_pages ov \<Longrightarrow> ov_view crc view ov' = ov_view crc view ov"
  by (simp add: ov_view_def fun_eq_iff split: option.splits)

lemma ov_holds_cong:
  assumes "ov_holds crc view healthy st0 V ov" "ov_store ov' = ov_store ov" "ov_pages ov' = ov_pages ov"
    and "ov_dirty ov' = ov_dirty ov" "ov_read_pages ov' = ov_read_pages ov"
    and "ov_high_water_page_id ov \<le> ov_high_water_page_id ov'"
  shows "ov_holds crc view healthy st0 V ov'"
proof -
  have "clean_pages crc view st0 ov' = clean_pages crc view st0 ov" by (simp add: clean_pages_def assms(2-5))
  moreover have "2 \<le> pid \<and> pid \<le> ov_high_water_page_id ov' \<and> page_sound (ov_high_water_page_id ov') page"
    if "V pid = Some page" for pid page
    using assms(1,6) that unfolding ov_holds_def by (meson order_trans page_sound_mono)
  ultimately show ?thesis using assms(1) by (simp add: ov_holds_def ov_view_cong [OF assms(2,3)] assms(2,4))
qed

lemma arena_cong:
  assumes "arena crc view healthy st0 V owned fs ov" "ov_store ov' = ov_store ov" "ov_pages ov' = ov_pages ov"
    and "ov_dirty ov' = ov_dirty ov" "ov_read_pages ov' = ov_read_pages ov"
    and "ov_high_water_page_id ov' = ov_high_water_page_id ov" "ov_free_list_head ov' = ov_free_list_head ov"
  shows "arena crc view healthy st0 V owned fs ov'"
  using assms ov_holds_cong [OF arena_holds [OF assms(1)] assms(2-5)] by (simp add: arena_def)

section \<open>Laws of the page operations\<close>

locale page_store = reliable_file ops view healthy
  for ops :: "'f durable_file_ops" and view :: "'f \<Rightarrow> bytes" and healthy :: "'f \<Rightarrow> bool" +
  fixes crc :: "bytes \<Rightarrow> u32"
begin

abbreviation Arena ::
  "('f, 'w) base \<Rightarrow> page_heap \<Rightarrow> page_id list \<Rightarrow> page_id list \<Rightarrow> ('f, 'w) overlay \<Rightarrow> bool"
where
  "Arena \<equiv> arena crc view healthy"

abbreviation Fails :: "('f, 'w) base \<Rightarrow> error set \<Rightarrow> error \<Rightarrow> ('f, 'w) overlay \<Rightarrow> bool" where
  "Fails \<equiv> fails crc view healthy"

abbreviation Holds :: "('f, 'w) base \<Rightarrow> page_heap \<Rightarrow> ('f, 'w) overlay \<Rightarrow> bool" where
  "Holds \<equiv> ov_holds crc view healthy"

lemma read_page_from_file_outcome:
  fixes st :: "('f, 'w) btree_store"
  assumes "same_committed crc view healthy st0 st" "stored_page crc view st0 pid = Inr page"
  shows "outcome (\<lambda>r st'. r = page \<and> same_committed crc view healthy st0 st' \<and> st_cache st' = st_cache st)
    (\<lambda>e st'. same_committed crc view healthy st0 st' \<and> \<not> healthy (st_file st0))
    (read_page_from_file crc ops pid st)"
proof (cases "map_of (st_dirty_pages st) pid")
  case (Some bs)
  then have "decode_page_data crc pid bs = Inr page"
    using assms(2) by (simp add: same_committed_stored [OF assms(1), symmetric] stored_page_def)
  then show ?thesis using Some assms(1) by (simp add: read_page_from_file_def)
next
  case None
  let ?v = "view (st_file st)"
  have stored: "stored_page crc view st pid = Inr page"
    using assms by (simp add: same_committed_stored [OF assms(1)])
  have inside: "(unat pid + 1) * PAGE_SIZE \<le> length ?v"
    and dec: "decode_page_data crc pid (byte_slice (unat pid * PAGE_SIZE) (unat pid * PAGE_SIZE + PAGE_SIZE) ?v) = Inr page"
    using stored None by (auto simp: stored_page_def split: if_splits)
  have len: "length ?v < 2 ^ 64" using assms(1) by (simp add: same_committed_def)
  have off: "unat (page_offset pid) = unat pid * PAGE_SIZE"
    using inside len by (simp add: page_offset_def unat_word_ariths)
  obtain r f where run: "read_exact_at ops (page_offset pid) PAGE_SIZE (st_file st) = (r, f)"
    by (cases "read_exact_at ops (page_offset pid) PAGE_SIZE (st_file st)") blast
  have returns: "r = Inr (byte_slice (unat pid * PAGE_SIZE) (unat pid * PAGE_SIZE + PAGE_SIZE) ?v) \<and> healthy f"
    if "healthy (st_file st)"
    using read_exact_at_returns [OF that, of "page_offset pid" PAGE_SIZE] off inside len run by auto
  have "view f = ?v" using read_exact_at_view(1) [OF run] .
  then have "stored_page crc view (st\<lparr>st_file := f\<rparr>) = stored_page crc view st"
    by (intro stored_page_cong) simp_all
  then have keep: "same_committed crc view healthy st0 (st\<lparr>st_file := f\<rparr>)"
    using assms(1) returns \<open>view f = ?v\<close> by (auto simp: same_committed_def coherent_def)
  show ?thesis
  proof (cases r)
    case (Inl e)
    then have "\<not> healthy (st_file st0)" using returns assms(1) by (auto simp: same_committed_def)
    then show ?thesis using Inl None run keep by (simp add: read_page_from_file_def)
  next
    case (Inr bs)
    have "bs = byte_slice (unat pid * PAGE_SIZE) (unat pid * PAGE_SIZE + PAGE_SIZE) ?v"
      using read_exact_at_ok(1) [OF run [unfolded Inr]] off inside len by simp
    then show ?thesis using Inr None run keep dec by (simp add: read_page_from_file_def)
  qed
qed

lemma ov_page_outcome:
  assumes "Holds st0 V ov" "V pid = Some page"
  shows "outcome (\<lambda>r ov'. r = page \<and> Holds st0 V ov' \<and> ov_core ov' = ov_core ov \<and>
      ov_free_list_head ov' = ov_free_list_head ov \<and> ov_high_water_page_id ov' = ov_high_water_page_id ov \<and>
      ov_dirty ov' = ov_dirty ov)
    (Fails st0 {}) (ov_page crc ops pid ov)"
proof -
  have range: "\<not> pid < 2" "\<not> ov_high_water_page_id ov < pid" and view: "ov_view crc view ov pid = Inr page"
    and com: "same_committed crc view healthy (fst st0) (ov_store ov)" and clean: "clean_pages crc view st0 ov"
    using assms by (auto simp: ov_holds_def not_less)
  have check: "check_page_id pid ov = (Inr (), ov)" using range by (simp add: check_page_id_def)
  show ?thesis
  proof (cases "map_of (ov_pages ov) pid")
    case (Some p)
    then have "p = page" using view by (simp add: ov_view_def)
    then show ?thesis using Some assms(1) check by (simp add: ov_page_def bindS_def)
  next
    case None
    have stored: "stored_page crc view (ov_store ov) pid = Inr page" using view None by (simp add: ov_view_def)
    obtain c cache where get: "cache_get pid (st_cache (ov_store ov)) = (c, cache)"
      by (cases "cache_get pid (st_cache (ov_store ov))") blast
    let ?st = "(ov_store ov)\<lparr>st_cache := cache\<rparr>"
    have look: "c = cache_lookup (st_cache (ov_store ov)) pid" "cache_lookup cache = cache_lookup (st_cache (ov_store ov))"
      using cache_get_result [OF get] by auto
    have same: "stored_page crc view ?st = stored_page crc view (ov_store ov)"
      by (intro stored_page_cong) simp_all
    then have com': "same_committed crc view healthy (fst st0) ?st"
      using com look(2) cache_get_empty [OF get] by (simp add: same_committed_def coherent_def)
    have adopt: "Holds st0 V (ov\<lparr>ov_store := st, ov_read_pages := reads, ov_pages := bm_insert pid page (ov_pages ov)\<rparr>)"
      if "same_committed crc view healthy (fst st0) st"
        and "\<And>q p. map_of reads q = Some p \<Longrightarrow> snd st0 q = Inr p" "bm_wf reads" for st reads
    proof -
      let ?ov = "ov\<lparr>ov_store := st, ov_read_pages := reads, ov_pages := bm_insert pid page (ov_pages ov)\<rparr>"
      have eq: "stored_page crc view st = stored_page crc view (fst st0)" "stored_page crc view (ov_store ov) = stored_page crc view (fst st0)"
        using same_committed_stored that(1) com by blast+
      have "ov_view crc view ?ov = ov_view crc view ov"
        using stored None eq by (auto simp: ov_view_def fun_eq_iff split: option.splits)
      moreover have "clean_pages crc view st0 ?ov" using clean stored that(2,3) None by (auto simp: clean_pages_def eq)
      ultimately show ?thesis using assms(1) that(1) by (simp add: ov_holds_def)
    qed
    show ?thesis
    proof (cases c)
      case (Some p)
      then have "p = page" using look(1) com stored by (auto simp: same_committed_def coherent_def)
      then show ?thesis
        using Some None get check adopt [OF com', of "ov_read_pages ov"] clean same_committed_stored [OF com]
        by (simp add: ov_page_def bindS_def clean_pages_def ov_core_def ov_stamp_def)
    next
      case c: None
      have run: "outcome (\<lambda>r st'. r = page \<and> same_committed crc view healthy (fst st0) st' \<and> st_cache st' = st_cache ?st)
        (\<lambda>e st'. same_committed crc view healthy (fst st0) st' \<and> \<not> healthy (st_file (fst st0))) (read_page_from_file crc ops pid ?st)"
        by (rule read_page_from_file_outcome [OF com']) (simp add: stored same_committed_stored [OF com, symmetric])
      obtain r st' where r: "read_page_from_file crc ops pid ?st = (r, st')"
        by (cases "read_page_from_file crc ops pid ?st") blast
      show ?thesis
      proof (cases r)
        case (Inl e)
        then show ?thesis using run r c None get check by (simp add: ov_page_def bindS_def fails_def)
      next
        case (Inr p)
        then have p: "p = page" "same_committed crc view healthy (fst st0) st'" using run r by simp_all
        have "Holds st0 V (ov\<lparr>ov_store := st', ov_read_pages := bm_insert pid page (ov_read_pages ov),
          ov_pages := bm_insert pid page (ov_pages ov)\<rparr>)"
          using clean stored same_committed_stored [OF com] None
          by (intro adopt [OF p(2)]) (auto simp: clean_pages_def split: if_splits)
        then show ?thesis using Inr p r c None get check by (simp add: ov_page_def bindS_def ov_core_def ov_stamp_def)
      qed
    qed
  qed
qed

lemma arena_page:
  assumes "Arena st0 V owned fs ov" "V pid = Some page"
  shows "outcome (\<lambda>r ov'. r = page \<and> Arena st0 V owned fs ov' \<and> ov_core ov' = ov_core ov \<and>
      ov_high_water_page_id ov' = ov_high_water_page_id ov) (Fails st0 {}) (ov_page crc ops pid ov)"
  by (rule outcome_mono [OF ov_page_outcome [OF arena_holds [OF assms(1)] assms(2)]])
    (use assms(1) in \<open>simp_all add: arena_def\<close>)

lemma replace_page_holds:
  assumes "Holds st0 V ov" "2 \<le> pid" "pid \<le> ov_high_water_page_id ov"
    and "page_sound (ov_high_water_page_id ov) page"
  shows "Holds st0 (V(pid \<mapsto> page)) (ov\<lparr>ov_pages := bm_insert pid page (ov_pages ov), ov_dirty := insort_insert pid (ov_dirty ov)\<rparr>)"
proof -
  let ?ov = "ov\<lparr>ov_pages := bm_insert pid page (ov_pages ov), ov_dirty := insort_insert pid (ov_dirty ov)\<rparr>"
  have "ov_view crc view ?ov = (ov_view crc view ov)(pid := Inr page)"
    by (auto simp: ov_view_def fun_eq_iff split: option.splits)
  moreover have "clean_pages crc view st0 ?ov"
    using assms(1) by (auto simp: ov_holds_def clean_pages_def set_insort_insert)
  moreover have "set (insort_insert pid (ov_dirty ov)) \<subseteq> dom (V(pid \<mapsto> page))"
    using assms(1) by (auto simp: ov_holds_def set_insort_insert)
  ultimately show ?thesis using assms by (simp add: ov_holds_def)
qed

lemma arena_replace:
  assumes "Arena st0 V owned fs ov" "pid \<in> set owned" "page_sound (ov_high_water_page_id ov) page"
  shows "outcome (\<lambda>_ ov'. Arena st0 (V(pid \<mapsto> page)) owned fs ov' \<and> ov_core ov' = ov_core ov \<and>
      ov_high_water_page_id ov' = ov_high_water_page_id ov) E (replace_page pid page ov)"
proof -
  let ?ov = "ov\<lparr>ov_pages := bm_insert pid page (ov_pages ov), ov_dirty := insort_insert pid (ov_dirty ov)\<rparr>"
  have "Holds st0 (V(pid \<mapsto> page)) ?ov"
    by (rule replace_page_holds) (use assms in \<open>auto simp: arena_def\<close>)
  moreover have "free_list (V(pid \<mapsto> page)) (ov_free_list_head ov) fs = free_list V (ov_free_list_head ov) fs"
    by (rule free_list_cong) (use assms in \<open>auto simp: arena_def\<close>)
  ultimately have "Arena st0 (V(pid \<mapsto> page)) owned fs ?ov"
    using assms by (auto simp: arena_def set_insort_insert)
  then show ?thesis by (simp add: replace_page_def ov_core_def ov_stamp_def)
qed

lemma arena_free:
  assumes "Arena st0 V (pid # owned) fs ov"
  shows "outcome (\<lambda>_ ov'. \<exists>page. Arena st0 (V(pid \<mapsto> page)) owned (pid # fs) ov' \<and> ov_core ov' = ov_core ov \<and>
      ov_high_water_page_id ov' = ov_high_water_page_id ov) E (free_page pid lsn ov)"
proof -
  let ?page = "FreePage lsn (ov_free_list_head ov)"
  let ?ov = "ov\<lparr>ov_allocated := ov_allocated ov - {pid}, ov_pages := bm_insert pid ?page (ov_pages ov),
    ov_dirty := insort_insert pid (ov_dirty ov)\<rparr>"
  have "Holds st0 V (ov\<lparr>ov_allocated := ov_allocated ov - {pid}\<rparr>)"
    by (rule ov_holds_cong [of _ _ _ _ _ ov]) (use assms in \<open>simp_all add: arena_def\<close>)
  moreover have "page_sound (ov_high_water_page_id ov) ?page"
    using arena_head [OF assms] by (simp add: page_sound_free)
  ultimately have "Holds st0 (V(pid \<mapsto> ?page)) ?ov"
    using replace_page_holds [of st0 V "ov\<lparr>ov_allocated := ov_allocated ov - {pid}\<rparr>" pid ?page] assms
    by (simp add: arena_def)
  then have "Holds st0 (V(pid \<mapsto> ?page)) (?ov\<lparr>ov_free_list_head := Some pid\<rparr>)"
    by (rule ov_holds_cong) simp_all
  moreover have "free_list (V(pid \<mapsto> ?page)) (ov_free_list_head ov) fs = free_list V (ov_free_list_head ov) fs"
    by (rule free_list_cong) (use assms in \<open>auto simp: arena_def\<close>)
  ultimately have "Arena st0 (V(pid \<mapsto> ?page)) owned (pid # fs) (?ov\<lparr>ov_free_list_head := Some pid\<rparr>)"
    using assms by (auto simp: arena_def set_insort_insert)
  moreover have "free_page pid lsn ov = (Inr (), ?ov\<lparr>ov_free_list_head := Some pid\<rparr>)"
    by (simp add: free_page_def bindS_def replace_page_def)
  moreover have "ov_core (?ov\<lparr>ov_free_list_head := Some pid\<rparr>) = ov_core ov" by (simp add: ov_core_def ov_stamp_def)
  moreover have "ov_high_water_page_id (?ov\<lparr>ov_free_list_head := Some pid\<rparr>) = ov_high_water_page_id ov" by simp
  ultimately show ?thesis by (simp only: outcome_simps) blast
qed

lemma arena_allocate:
  assumes "Arena st0 V owned fs ov"
  shows "outcome (\<lambda>pid ov'. \<exists>fs'. Arena st0 V (pid # owned) fs' ov' \<and> ov_core ov' = ov_core ov \<and>
      ov_high_water_page_id ov \<le> ov_high_water_page_id ov')
    (Fails st0 {InternalInvariantViolation}) (allocate_page crc ops ov)"
proof (cases "ov_free_list_head ov")
  case None
  show ?thesis
  proof (cases "checked_add_u64 (ov_high_water_page_id ov) 1")
    case None
    then show ?thesis using \<open>ov_free_list_head ov = None\<close> arena_committed [OF assms]
      by (simp add: allocate_page_def fails_def)
  next
    case (Some pid)
    let ?ov = "ov\<lparr>ov_high_water_page_id := pid, ov_allocated := insert pid (ov_allocated ov)\<rparr>"
    have less: "ov_high_water_page_id ov < pid" by (rule checked_add_u64_less [OF Some]) simp
    have dom: "q \<le> ov_high_water_page_id ov" if "q \<in> set (owned @ fs)" for q
      using that arena_range [OF assms] by blast
    have "pid \<notin> set (owned @ fs)" using dom [of pid] less by (meson leD)
    moreover have "Holds st0 V ?ov"
      by (rule ov_holds_cong [of _ _ _ _ _ ov]) (use assms less in \<open>simp_all add: arena_def\<close>)
    moreover have "2 \<le> ov_high_water_page_id ov" using assms by (simp add: arena_def)
    moreover have "q \<le> pid" if "q \<in> set owned" for q
      using order_trans [OF dom less_imp_le [OF less], of q] that by simp
    moreover have "2 \<le> pid" using order_trans [OF calculation(3) less_imp_le [OF less]] .
    ultimately have "Arena st0 V (pid # owned) fs ?ov"
      using assms by (auto simp: arena_def)
    moreover have run: "allocate_page crc ops ov = (Inr pid, ?ov)"
      using Some \<open>ov_free_list_head ov = None\<close> by (simp add: allocate_page_def)
    moreover have "ov_core ?ov = ov_core ov" by (simp add: ov_core_def ov_stamp_def)
    ultimately show ?thesis
      unfolding run outcome_simps using less by (intro exI [of _ fs] conjI) simp_all
  qed
next
  case (Some pid)
  obtain lsn nxt fs' where fs: "fs = pid # fs'" "V pid = Some (FreePage lsn nxt)" "free_list V nxt fs'"
    using assms Some by (cases fs) (simp_all add: arena_def, blast)
  have take: "Arena st0 V (pid # owned) fs' (ov1\<lparr>ov_free_list_head := nxt, ov_allocated := A\<rparr>)"
    if "Arena st0 V owned fs ov1" for ov1 A
  proof -
    have "Holds st0 V (ov1\<lparr>ov_free_list_head := nxt, ov_allocated := A\<rparr>)"
      by (rule ov_holds_cong [of _ _ _ _ _ ov1]) (use that in \<open>simp_all add: arena_def\<close>)
    moreover have "2 \<le> pid \<and> pid \<le> ov_high_water_page_id ov1"
      using that fs(2) by (simp add: arena_def ov_holds_def)
    ultimately show ?thesis using that fs by (simp add: arena_def)
  qed
  show ?thesis
    unfolding allocate_page_def
    apply (simp add: Some)
    apply (rule outcome_bindS)
     apply (rule outcome_fails_mono [OF arena_page [OF assms fs(2)]], simp)
    subgoal for page ov1
      using take [of ov1 "insert pid (ov_allocated ov1)"] by (auto simp: ov_core_def ov_stamp_def)
    done
qed

end

interpretation crashable_pages: page_store crashable_ops volatile fault_free crc for crc
  by unfold_locales

end
