(* ===== verification/Btree_Tree.thy ===== *)
theory Btree_Tree
  imports Btree_Heap
begin

text \<open>
  The tree a heap of pages represents, as a pure datatype: a leaf with its page id and entries, an
  inner node with its page id, children and separators. The heap predicates say that the inner
  pages of the heap are those of the tree (\<open>node_heap\<close>) and that its leaves are linked from left
  to right (\<open>leaf_links\<close>). A context is the path from a subtree up to the root: the subtree is
  plugged into its frames. \<open>ordered\<close> is the search-tree invariant, with the bounds that the
  separators above a subtree give it.
\<close>

datatype gtree = GLeaf page_id "leaf_entry list" | GNode page_id "gtree list" "bytes list"

fun root_id :: "gtree \<Rightarrow> page_id" where
  "root_id (GLeaf p _) = p"
| "root_id (GNode p _ _) = p"

fun inner :: "gtree \<Rightarrow> page_id list" where
  "inner (GLeaf _ _) = []"
| "inner (GNode p cs _) = p # concat (map inner cs)"

fun leaves :: "gtree \<Rightarrow> (page_id \<times> leaf_entry list) list" where
  "leaves (GLeaf p es) = [(p, es)]"
| "leaves (GNode _ cs _) = concat (map leaves cs)"

definition leaf_entries :: "(page_id \<times> leaf_entry list) list \<Rightarrow> leaf_entry list" where
  "leaf_entries ls = concat (map snd ls)"

section \<open>Order\<close>

definition above :: "bytes option \<Rightarrow> bytes \<Rightarrow> bool" where
  "above lo k = (case lo of None \<Rightarrow> True | Some l \<Rightarrow> l < k)"

definition at_least :: "bytes option \<Rightarrow> bytes \<Rightarrow> bool" where
  "at_least lo k = (case lo of None \<Rightarrow> True | Some l \<Rightarrow> l \<le> k)"

definition below :: "bytes \<Rightarrow> bytes option \<Rightarrow> bool" where
  "below k hi = (case hi of None \<Rightarrow> True | Some h \<Rightarrow> k < h)"

definition within :: "bytes option \<Rightarrow> bytes option \<Rightarrow> bytes \<Rightarrow> bool" where
  "within lo hi k \<longleftrightarrow> at_least lo k \<and> below k hi"

definition separators :: "bytes option \<Rightarrow> bytes option \<Rightarrow> bytes list \<Rightarrow> bool" where
  "separators lo hi ks \<longleftrightarrow> sorted_wrt (<) ks \<and> (\<forall>k \<in> set ks. above lo k \<and> below k hi)"

fun ordered :: "bytes option \<Rightarrow> bytes option \<Rightarrow> gtree \<Rightarrow> bool"
  and kids :: "bytes option \<Rightarrow> bytes option \<Rightarrow> gtree list \<Rightarrow> bytes list \<Rightarrow> bool"
where
  "ordered lo hi (GLeaf p es) \<longleftrightarrow>
     sorted_wrt (<) (map le_key es) \<and> (\<forall>e \<in> set es. within lo hi (le_key e))"
| "ordered lo hi (GNode p cs ks) \<longleftrightarrow> separators lo hi ks \<and> kids lo hi cs ks"
| "kids lo hi [c] [] \<longleftrightarrow> ordered lo hi c"
| "kids lo hi (c # cs) (k # ks) \<longleftrightarrow> ordered lo (Some k) c \<and> kids (Some k) hi cs ks"
| "kids lo hi _ _ \<longleftrightarrow> False"

fun kids_left :: "bytes option \<Rightarrow> gtree list \<Rightarrow> bytes list \<Rightarrow> bool" where
  "kids_left lo [] [] \<longleftrightarrow> True"
| "kids_left lo (c # cs) (k # ks) \<longleftrightarrow> ordered lo (Some k) c \<and> kids_left (Some k) cs ks"
| "kids_left lo _ _ \<longleftrightarrow> False"

definition end_lo :: "bytes option \<Rightarrow> bytes list \<Rightarrow> bytes option" where
  "end_lo lo ks = (if ks = [] then lo else Some (last ks))"

definition start_hi :: "bytes option \<Rightarrow> bytes list \<Rightarrow> bytes option" where
  "start_hi hi ks = (case ks of [] \<Rightarrow> hi | k # _ \<Rightarrow> Some k)"

fun kids_right :: "bytes option \<Rightarrow> bytes list \<Rightarrow> gtree list \<Rightarrow> bool" where
  "kids_right hi [] [] \<longleftrightarrow> True"
| "kids_right hi (k # ks) (c # cs) \<longleftrightarrow> ordered (Some k) (start_hi hi ks) c \<and> kids_right hi ks cs"
| "kids_right hi _ _ \<longleftrightarrow> False"

lemma start_hi_simps [simp]: "start_hi hi [] = hi" "start_hi hi (k # ks) = Some k"
  by (simp_all add: start_hi_def)

lemma end_lo_simps [simp]: "end_lo lo [] = lo" "end_lo lo (ks @ [k]) = Some k"
  "end_lo lo (k # ks) = end_lo (Some k) ks"
  by (simp_all add: end_lo_def)

lemma start_hi_append: "start_hi hi (ks @ ks') = start_hi (start_hi hi ks') ks"
  by (cases ks) simp_all

lemma end_lo_append: "end_lo lo (ks @ ks') = end_lo (end_lo lo ks) ks'"
  by (simp add: end_lo_def)

lemma kids_length: "kids lo hi cs ks \<Longrightarrow> length cs = Suc (length ks)"
proof (induction ks arbitrary: lo cs)
  case Nil
  then show ?case by (cases cs; cases "tl cs") auto
next
  case (Cons k ks)
  then show ?case by (cases cs) (auto dest: Cons.IH)
qed

lemma kids_right_eq: "kids (Some k) hi (c # cs) ks \<longleftrightarrow> kids_right hi (k # ks) (c # cs)"
proof (induction ks arbitrary: k c cs)
  case Nil
  then show ?case by (cases cs) auto
next
  case (Cons k' ks)
  then show ?case by (cases cs) auto
qed

text \<open>A node is cut around a run of its children.\<close>

lemma kids_cut:
  assumes "length cs1 = Suc (length ks1)"
  shows "kids lo hi (cs1 @ cs2) (ks1 @ k # ks2) \<longleftrightarrow> kids lo (Some k) cs1 ks1 \<and> kids (Some k) hi cs2 ks2"
  using assms
proof (induction ks1 arbitrary: lo cs1)
  case Nil
  then obtain c where "cs1 = [c]" by (cases cs1) auto
  then show ?case by simp
next
  case (Cons k1 ks1)
  then obtain c cs where "cs1 = c # cs" "length cs = Suc (length ks1)" by (cases cs1) auto
  then show ?case using Cons.IH [of cs "Some k1"] by auto
qed

lemma kids_left_split:
  assumes "length cs1 = length ks1"
  shows "kids lo hi (cs1 @ cs2) (ks1 @ ks2) \<longleftrightarrow> kids_left lo cs1 ks1 \<and> kids (end_lo lo ks1) hi cs2 ks2"
  using assms
proof (induction ks1 arbitrary: lo cs1)
  case (Cons k ks1)
  then obtain c cs where "cs1 = c # cs" "length cs = length ks1" by (cases cs1) auto
  then show ?case using Cons.IH [of cs "Some k"] by auto
qed simp

lemma kids_right_split:
  assumes "length cs = Suc (length ks)" "length cs2 = length ks2"
  shows "kids lo hi (cs @ cs2) (ks @ ks2) \<longleftrightarrow> kids lo (start_hi hi ks2) cs ks \<and> kids_right hi ks2 cs2"
proof (cases ks2)
  case (Cons k ks')
  then obtain c cs' where cs2: "cs2 = c # cs'" using assms(2) by (cases cs2) auto
  show ?thesis using kids_cut [OF assms(1), of lo hi cs2 k ks'] Cons cs2 kids_right_eq by simp
qed (use assms in simp)

lemma kids_split:
  assumes "length cs1 = length ks1" "length cs = Suc (length ks)" "length cs2 = length ks2"
  shows "kids lo hi (cs1 @ cs @ cs2) (ks1 @ ks @ ks2) \<longleftrightarrow>
    kids_left lo cs1 ks1 \<and> kids (end_lo lo ks1) (start_hi hi ks2) cs ks \<and> kids_right hi ks2 cs2"
  using kids_left_split [OF assms(1)] kids_right_split [OF assms(2,3)] by simp

section \<open>Contexts\<close>

type_synonym frame = "page_id \<times> gtree list \<times> bytes list \<times> bytes list \<times> gtree list"

fun plug :: "frame list \<Rightarrow> gtree \<Rightarrow> gtree" where
  "plug [] t = t"
| "plug ((p, cs1, ks1, ks2, cs2) # ctx) t = plug ctx (GNode p (cs1 @ t # cs2) (ks1 @ ks2))"

fun frame_shape :: "frame \<Rightarrow> bool" where
  "frame_shape (p, cs1, ks1, ks2, cs2) \<longleftrightarrow> length cs1 = length ks1 \<and> length cs2 = length ks2"

fun ctx_lo :: "bytes option \<Rightarrow> frame list \<Rightarrow> bytes option" where
  "ctx_lo lo [] = lo"
| "ctx_lo lo ((p, cs1, ks1, ks2, cs2) # ctx) = end_lo (ctx_lo lo ctx) ks1"

fun ctx_hi :: "bytes option \<Rightarrow> frame list \<Rightarrow> bytes option" where
  "ctx_hi hi [] = hi"
| "ctx_hi hi ((p, cs1, ks1, ks2, cs2) # ctx) = start_hi (ctx_hi hi ctx) ks2"

fun ctx_ordered :: "bytes option \<Rightarrow> bytes option \<Rightarrow> frame list \<Rightarrow> bool" where
  "ctx_ordered lo hi [] \<longleftrightarrow> True"
| "ctx_ordered lo hi ((p, cs1, ks1, ks2, cs2) # ctx) \<longleftrightarrow>
     separators (ctx_lo lo ctx) (ctx_hi hi ctx) (ks1 @ ks2) \<and>
     kids_left (ctx_lo lo ctx) cs1 ks1 \<and> kids_right (ctx_hi hi ctx) ks2 cs2 \<and> ctx_ordered lo hi ctx"

fun ctx_inner :: "frame list \<Rightarrow> page_id list" where
  "ctx_inner [] = []"
| "ctx_inner ((p, cs1, ks1, ks2, cs2) # ctx) = p # concat (map inner cs1) @ concat (map inner cs2) @ ctx_inner ctx"

fun ctx_left :: "frame list \<Rightarrow> (page_id \<times> leaf_entry list) list" where
  "ctx_left [] = []"
| "ctx_left ((p, cs1, ks1, ks2, cs2) # ctx) = ctx_left ctx @ concat (map leaves cs1)"

fun ctx_right :: "frame list \<Rightarrow> (page_id \<times> leaf_entry list) list" where
  "ctx_right [] = []"
| "ctx_right ((p, cs1, ks1, ks2, cs2) # ctx) = concat (map leaves cs2) @ ctx_right ctx"

fun ctx_root :: "page_id \<Rightarrow> frame list \<Rightarrow> page_id" where
  "ctx_root r [] = r"
| "ctx_root r ((p, _) # ctx) = ctx_root p ctx"

lemma plug_append [simp]: "plug (ctx @ ctx') t = plug ctx' (plug ctx t)"
  by (induction ctx t rule: plug.induct) simp_all

lemma root_id_plug [simp]: "root_id (plug ctx t) = ctx_root (root_id t) ctx"
  by (induction ctx t rule: plug.induct) simp_all

lemma leaves_plug [simp]: "leaves (plug ctx t) = ctx_left ctx @ leaves t @ ctx_right ctx"
  by (induction ctx t rule: plug.induct) simp_all

lemma mset_inner_plug: "mset (inner (plug ctx t)) = mset (ctx_inner ctx) + mset (inner t)"
  by (induction ctx t rule: plug.induct) simp_all

lemma ctx_lo_append [simp]: "ctx_lo lo (ctx @ ctx') = ctx_lo (ctx_lo lo ctx') ctx"
  by (induction lo ctx rule: ctx_lo.induct) simp_all

lemma ctx_hi_append [simp]: "ctx_hi hi (ctx @ ctx') = ctx_hi (ctx_hi hi ctx') ctx"
  by (induction hi ctx rule: ctx_hi.induct) simp_all

lemma ordered_plug:
  "list_all frame_shape ctx \<Longrightarrow>
    ordered lo hi (plug ctx t) \<longleftrightarrow> ctx_ordered lo hi ctx \<and> ordered (ctx_lo lo ctx) (ctx_hi hi ctx) t"
proof (induction ctx t rule: plug.induct)
  case (2 p cs1 ks1 ks2 cs2 ctx t)
  then show ?case
    using kids_split [of cs1 ks1 "[t]" "[]" cs2 ks2 "ctx_lo lo ctx" "ctx_hi hi ctx"] by auto
qed simp

section \<open>Pages\<close>

definition child_entries :: "bytes list \<Rightarrow> page_id list \<Rightarrow> internal_entry list" where
  "child_entries ks ids = map2 (\<lambda>k i. \<lparr>ie_key = k, ie_right_child = i\<rparr>) ks ids"

definition node_page :: "page_heap \<Rightarrow> page_id \<Rightarrow> page_id list \<Rightarrow> bytes list \<Rightarrow> bool" where
  "node_page V p ids ks \<longleftrightarrow>
     (\<exists>lsn. V p = Some (InternalPage lsn (hd ids) (child_entries ks (tl ids)))) \<and>
     length ids = Suc (length ks) \<and> internal_fits (hd ids) (child_entries ks (tl ids))"

fun node_heap :: "page_heap \<Rightarrow> gtree \<Rightarrow> bool" where
  "node_heap V (GLeaf p es) \<longleftrightarrow> True"
| "node_heap V (GNode p cs ks) \<longleftrightarrow> node_page V p (map root_id cs) ks \<and> (\<forall>c \<in> set cs. node_heap V c)"

fun ctx_heap :: "page_heap \<Rightarrow> page_id \<Rightarrow> frame list \<Rightarrow> bool" where
  "ctx_heap V r [] \<longleftrightarrow> True"
| "ctx_heap V r ((p, cs1, ks1, ks2, cs2) # ctx) \<longleftrightarrow>
     node_page V p (map root_id cs1 @ r # map root_id cs2) (ks1 @ ks2) \<and>
     (\<forall>c \<in> set cs1 \<union> set cs2. node_heap V c) \<and> ctx_heap V p ctx"

fun leaf_links :: "page_heap \<Rightarrow> (page_id \<times> leaf_entry list) list \<Rightarrow> page_id option \<Rightarrow> bool" where
  "leaf_links V [] nxt \<longleftrightarrow> True"
| "leaf_links V ((p, es) # ls) nxt \<longleftrightarrow>
     (\<exists>lsn. V p = Some (LeafPage lsn (case ls of [] \<Rightarrow> nxt | (q, _) # _ \<Rightarrow> Some q) es)) \<and> leaf_fits es \<and>
     leaf_links V ls nxt"

definition first_leaf :: "(page_id \<times> leaf_entry list) list \<Rightarrow> page_id option \<Rightarrow> page_id option" where
  "first_leaf ls nxt = (case ls of [] \<Rightarrow> nxt | (q, _) # _ \<Rightarrow> Some q)"

lemma leaf_links_Cons:
  "leaf_links V ((p, es) # ls) nxt \<longleftrightarrow>
     (\<exists>lsn. V p = Some (LeafPage lsn (first_leaf ls nxt) es)) \<and> leaf_fits es \<and> leaf_links V ls nxt"
  by (simp add: first_leaf_def)

lemma first_leaf_append: "first_leaf (ls @ ls') nxt = first_leaf ls (first_leaf ls' nxt)"
  by (simp add: first_leaf_def split: list.splits)

lemma leaf_links_append:
  "leaf_links V (ls @ ls') nxt \<longleftrightarrow> leaf_links V ls (first_leaf ls' nxt) \<and> leaf_links V ls' nxt"
  by (induction ls) (auto simp: leaf_links_Cons first_leaf_append simp del: leaf_links.simps(2))

lemma leaf_links_cong:
  "(\<And>p. p \<in> fst ` set ls \<Longrightarrow> V' p = V p) \<Longrightarrow> leaf_links V' ls nxt = leaf_links V ls nxt"
  by (induction ls) auto

lemma node_page_cong: "V' p = V p \<Longrightarrow> node_page V' p ids ks = node_page V p ids ks"
  by (simp add: node_page_def)

lemma node_heap_cong: "(\<And>p. p \<in> set (inner t) \<Longrightarrow> V' p = V p) \<Longrightarrow> node_heap V' t = node_heap V t"
  by (induction t rule: inner.induct) (auto cong: node_page_cong)

lemma ctx_heap_cong:
  "(\<And>p. p \<in> set (ctx_inner ctx) \<Longrightarrow> V' p = V p) \<Longrightarrow> ctx_heap V' r ctx = ctx_heap V r ctx"
proof (induction V r ctx rule: ctx_heap.induct)
  case (2 V r p cs1 ks1 ks2 cs2 ctx)
  have "node_heap V' c = node_heap V c" if "c \<in> set cs1 \<union> set cs2" for c
    using 2(2) that by (intro node_heap_cong) auto
  then show ?case using 2 node_page_cong [of V' p V] by simp
qed simp

lemma node_heap_upd: "p \<notin> set (inner t) \<Longrightarrow> node_heap (V(p := x)) t = node_heap V t"
  by (rule node_heap_cong) auto

lemma ctx_heap_upd: "p \<notin> set (ctx_inner ctx) \<Longrightarrow> ctx_heap (V(p := x)) r ctx = ctx_heap V r ctx"
  by (rule ctx_heap_cong) auto

lemma leaf_links_upd: "p \<notin> fst ` set ls \<Longrightarrow> leaf_links (V(p := x)) ls nxt = leaf_links V ls nxt"
  by (rule leaf_links_cong) auto

lemma node_heap_plug: "node_heap V (plug ctx t) \<longleftrightarrow> ctx_heap V (root_id t) ctx \<and> node_heap V t"
  by (induction ctx t rule: plug.induct) auto

end
