(* ===== verification/Btree_Descent.thy ===== *)
theory Btree_Descent
  imports Btree_Tree
begin

text \<open>
  The search-tree order of the entries, and the descent: \<open>find_leaf\<close> returns the leaf whose bounds
  hold the key, and its route is the path of the context around that leaf.
\<close>

section \<open>The entries of an ordered tree\<close>

lemma separators_Cons: "separators lo hi (k # ks) \<longleftrightarrow> above lo k \<and> below k hi \<and> separators (Some k) hi ks \<and> (\<forall>k' \<in> set ks. above lo k')"
  by (auto simp: separators_def above_def)

lemma within_left: "within lo (Some k) x \<Longrightarrow> below k hi \<Longrightarrow> within lo hi x"
  by (auto simp: within_def below_def split: option.splits)

lemma within_right: "within (Some k) hi x \<Longrightarrow> above lo k \<Longrightarrow> within lo hi x"
  by (auto simp: within_def at_least_def above_def split: option.splits)

lemma leaf_entries_simps [simp]:
  "leaf_entries [] = []" "leaf_entries ((p, es) # ls) = es @ leaf_entries ls"
  "leaf_entries (ls @ ls') = leaf_entries ls @ leaf_entries ls'"
  by (simp_all add: leaf_entries_def)

lemma ordered_entries_aux:
  "ordered lo hi t \<Longrightarrow> sorted_wrt (<) (map le_key (leaf_entries (leaves t))) \<and>
     (\<forall>e \<in> set (leaf_entries (leaves t)). within lo hi (le_key e))"
  "kids lo hi cs ks \<Longrightarrow> separators lo hi ks \<Longrightarrow>
     sorted_wrt (<) (map le_key (leaf_entries (concat (map leaves cs)))) \<and>
     (\<forall>e \<in> set (leaf_entries (concat (map leaves cs))). within lo hi (le_key e))"
proof (induction lo hi t and lo hi cs ks rule: ordered_kids.induct)
  case (4 lo hi c cs k ks)
  let ?l = "leaf_entries (leaves c)" and ?r = "leaf_entries (concat (map leaves cs))"
  have sep: "above lo k" "below k hi" "separators (Some k) hi ks" using "4.prems"(2) by (simp_all add: separators_Cons)
  have l: "sorted_wrt (<) (map le_key ?l)" "\<forall>e \<in> set ?l. within lo (Some k) (le_key e)"
    and r: "sorted_wrt (<) (map le_key ?r)" "\<forall>e \<in> set ?r. within (Some k) hi (le_key e)"
    using 4 sep by auto
  have "le_key x < le_key y" if "x \<in> set ?l" "y \<in> set ?r" for x y
    using l(2) r(2) that by (fastforce simp: within_def below_def at_least_def)
  then show ?case using l r sep by (auto simp: sorted_wrt_append intro: within_left within_right)
qed auto

lemma ordered_entries:
  assumes "ordered lo hi t"
  shows "sorted_wrt (<) (map le_key (leaf_entries (leaves t)))"
    and "e \<in> set (leaf_entries (leaves t)) \<Longrightarrow> within lo hi (le_key e)"
  using ordered_entries_aux(1) [OF assms] by auto

lemma ordered_leaves:
  "ordered lo hi t \<Longrightarrow> leaves t \<noteq> []"
  "kids lo hi cs ks \<Longrightarrow> concat (map leaves cs) \<noteq> []"
  by (induction lo hi t and lo hi cs ks rule: ordered_kids.induct) auto

lemma ctx_position:
  assumes "list_all frame_shape ctx" "ctx_ordered None None ctx" "within (ctx_lo None ctx) (ctx_hi None ctx) key"
  shows "\<And>e. e \<in> set (leaf_entries (ctx_left ctx)) \<Longrightarrow> le_key e < key"
    and "\<And>e. e \<in> set (leaf_entries (ctx_right ctx)) \<Longrightarrow> key < le_key e"
proof -
  let ?e = "\<lparr>le_key = key, le_revision = 0, le_value = None\<rparr>"
  have "ordered None None (plug ctx (GLeaf 0 [?e]))" using assms by (simp add: ordered_plug)
  from ordered_entries(1) [OF this]
  have *: "sorted_wrt (<) (map le_key (leaf_entries (ctx_left ctx)) @ key # map le_key (leaf_entries (ctx_right ctx)))"
    by simp
  show "le_key e < key" if "e \<in> set (leaf_entries (ctx_left ctx))" for e
    using * that by (auto simp: sorted_wrt_append)
  show "key < le_key e" if "e \<in> set (leaf_entries (ctx_right ctx))" for e
    using * that by (auto simp: sorted_wrt_append)
qed

section \<open>Choosing a child\<close>

lemma child_entries_keys: "length ids = length ks \<Longrightarrow> map ie_key (child_entries ks ids) = ks"
  by (induction ids ks rule: list_induct2) (simp_all add: child_entries_def)

lemma length_child_entries [simp]: "length (child_entries ks ids) = min (length ks) (length ids)"
  by (simp add: child_entries_def)

lemma child_entries_nth:
  "i < length ks \<Longrightarrow> i < length ids \<Longrightarrow> child_entries ks ids ! i = \<lparr>ie_key = ks ! i, ie_right_child = ids ! i\<rparr>"
  by (simp add: child_entries_def)

lemma takeWhile_child_entries:
  "length ids = length ks \<Longrightarrow>
    length (takeWhile (\<lambda>e. P (ie_key e)) (child_entries ks ids)) = length (takeWhile P ks)"
  by (induction ids ks rule: list_induct2) (simp_all add: child_entries_def)

lemma within_chosen:
  assumes "separators lo hi ks" "within lo hi key" "i = length (takeWhile (\<lambda>k. k \<le> key) ks)"
  shows "within (end_lo lo (take i ks)) (start_hi hi (drop i ks)) key"
proof -
  have tw: "take i ks = takeWhile (\<lambda>k. k \<le> key) ks" using takeWhile_eq_take [of "\<lambda>k. k \<le> key" ks] assms(3) by simp
  have dw: "drop i ks = dropWhile (\<lambda>k. k \<le> key) ks" using dropWhile_eq_drop [of "\<lambda>k. k \<le> key" ks] assms(3) by simp
  have "at_least (end_lo lo (take i ks)) key"
  proof (cases "take i ks = []")
    case False
    then have "last (take i ks) \<in> set (takeWhile (\<lambda>k. k \<le> key) ks)" using last_in_set [OF False] by (simp only: tw)
    then have "last (take i ks) \<le> key" by (auto dest: set_takeWhileD)
    then show ?thesis using False by (simp add: end_lo_def at_least_def)
  qed (use assms(2) in \<open>simp add: within_def end_lo_def\<close>)
  moreover have "below key (start_hi hi (drop i ks))"
  proof (cases "drop i ks")
    case (Cons k ks')
    then have "\<not> k \<le> key" using hd_dropWhile [of "\<lambda>k. k \<le> key" ks] by (simp add: dw [symmetric])
    then show ?thesis using Cons by (simp add: below_def)
  qed (use assms(2) in \<open>simp add: within_def\<close>)
  ultimately show ?thesis by (simp add: within_def)
qed

lemma chosen_child:
  assumes "length ids = Suc (length ks)" "i = length (takeWhile (\<lambda>e. ie_key e \<le> key) (child_entries ks (tl ids)))"
  shows "i = length (takeWhile (\<lambda>k. k \<le> key) ks)" "i < length ids"
    "(if i = 0 then hd ids else ie_right_child (child_entries ks (tl ids) ! (i - 1))) = ids ! i"
proof -
  show i: "i = length (takeWhile (\<lambda>k. k \<le> key) ks)"
    using assms takeWhile_child_entries [of "tl ids" ks "\<lambda>k. k \<le> key"] by simp
  have "i \<le> length ks" using i length_takeWhile_le by metis
  then show "i < length ids" using assms(1) by simp
  show "(if i = 0 then hd ids else ie_right_child (child_entries ks (tl ids) ! (i - 1))) = ids ! i"
    using \<open>i \<le> length ks\<close> assms(1) by (cases ids) (auto simp: child_entries_nth nth_Cons split: nat.splits)
qed

section \<open>The descent\<close>

text \<open>What a descent needs of the heap: the inner pages and the leaves of the tree, each once.\<close>

definition tree_heap :: "page_heap \<Rightarrow> gtree \<Rightarrow> bool" where
  "tree_heap V t \<longleftrightarrow> node_heap V t \<and> (\<forall>(p, es) \<in> set (leaves t). \<exists>lsn nxt. V p = Some (LeafPage lsn nxt es)) \<and>
     distinct (inner t @ map fst (leaves t))"

definition tree_pages :: "gtree \<Rightarrow> page_id set" where
  "tree_pages t = set (inner t) \<union> fst ` set (leaves t)"

lemma root_in_tree_pages: "root_id t \<in> tree_pages t"
  by (cases t) (auto simp: tree_pages_def)

lemma tree_pages_node: "tree_pages (GNode p cs ks) = insert p (\<Union>c \<in> set cs. tree_pages c)"
  by (auto simp: tree_pages_def)

lemma tree_heap_child:
  assumes "tree_heap V (GNode p (cs1 @ c # cs2) ks)"
  shows "tree_heap V c" "p \<notin> tree_pages c"
proof -
  have "distinct (concat (map inner (cs1 @ c # cs2)) @ map fst (concat (map leaves (cs1 @ c # cs2))))"
    using assms by (simp add: tree_heap_def)
  then have "distinct (inner c @ map fst (leaves c))" by auto
  then show "tree_heap V c" using assms by (auto simp: tree_heap_def)
  show "p \<notin> tree_pages c" using assms by (auto simp: tree_heap_def tree_pages_def)
qed

context page_store
begin

lemma find_leaf_loop_outcome:
  assumes "Arena st0 V owned fs ov" "tree_heap V t" "ordered lo hi t" "within lo hi key" "tree_pages t \<inter> visited = {}"
  shows "outcome (\<lambda>(leaf_id, route') ov'. \<exists>ctx es. t = plug ctx (GLeaf leaf_id es) \<and>
      route' = route @ rev (map fst ctx) @ [leaf_id] \<and> list_all frame_shape ctx \<and>
      within (ctx_lo lo ctx) (ctx_hi hi ctx) key \<and> Arena st0 V owned fs ov' \<and> ov_core ov' = ov_core ov)
    (Fails st0 {}) (find_leaf_loop crc ops key (root_id t) route visited ov)"
  using assms
proof (induction t arbitrary: lo hi route visited ov)
  case (GLeaf p es)
  then obtain lsn nxt where V: "V p = Some (LeafPage lsn nxt es)" by (auto simp: tree_heap_def)
  have "p \<notin> visited" using GLeaf.prems(5) by (auto simp: tree_pages_def)
  then show ?case
    unfolding root_id.simps find_leaf_loop.simps [of crc ops key p]
    apply simp
    apply (rule outcome_case [OF arena_page [OF GLeaf.prems(1) V]])
    subgoal for page ov1
      using GLeaf.prems(4) by (auto intro!: exI [of _ "[]"])
    by simp
next
  case (GNode p cs ks)
  let ?ids = "map root_id cs"
  obtain lsn where V: "V p = Some (InternalPage lsn (hd ?ids) (child_entries ks (tl ?ids)))" and len: "length ?ids = Suc (length ks)"
    using GNode.prems(2) by (auto simp: tree_heap_def node_page_def)
  define i where "i = length (takeWhile (\<lambda>e. ie_key e \<le> key) (child_entries ks (tl ?ids)))"
  note i = chosen_child [OF len i_def]
  let ?c = "cs ! i"
  have ilen: "i < length cs" using i(2) by simp
  have cs: "cs = take i cs @ ?c # drop (Suc i) cs" using ilen by (rule id_take_nth_drop)
  have ord: "separators lo hi ks" "kids lo hi cs ks" using GNode.prems(3) by simp_all
  have "kids (end_lo lo (take i ks)) (start_hi hi (drop i ks)) [?c] []"
    using kids_split [of "take i cs" "take i ks" "[?c]" "[]" "drop (Suc i) cs" "drop i ks" lo hi] ord(2) cs len ilen by simp
  then have c_ord: "ordered (end_lo lo (take i ks)) (start_hi hi (drop i ks)) ?c" by simp
  have child: "tree_heap V ?c" "p \<notin> tree_pages ?c"
    using tree_heap_child [of V p "take i cs" ?c "drop (Suc i) cs" ks] GNode.prems(2) cs by simp_all
  have disj: "tree_pages ?c \<inter> insert p visited = {}"
    using GNode.prems(5) child(2) nth_mem [OF ilen] unfolding tree_pages_node by blast
  have pick: "(let index = length (takeWhile (\<lambda>e. ie_key e \<le> key) (child_entries ks (tl ?ids))) in
      find_leaf_loop crc ops key (if index = 0 then hd ?ids else ie_right_child (child_entries ks (tl ?ids) ! (index - 1))) r v ov1) =
    find_leaf_loop crc ops key (root_id ?c) r v ov1" for r v and ov1 :: "('f, 'a) overlay"
    unfolding Let_def i_def [symmetric] i(3) using ilen by simp
  have whole: "plug (ctx @ [(p, take i cs, take i ks, drop i ks, drop (Suc i) cs)]) l = GNode p cs ks" if "?c = plug ctx l" for ctx l
    using that cs by simp
  have "p \<notin> visited" using GNode.prems(5) by (simp add: tree_pages_node)
  then show ?case
    unfolding root_id.simps find_leaf_loop.simps [of crc ops key p]
    apply simp
    apply (rule outcome_case [OF arena_page [OF GNode.prems(1) V]])
    subgoal for page ov1
      apply (elim conjE, simp only: page_data.case pick)
      apply (rule outcome_mono [OF GNode.IH [OF _ _ child(1) c_ord within_chosen [OF ord(1) GNode.prems(4) i(1)] disj]])
        apply (simp_all add: ilen)
      apply (clarsimp simp del: list_all_append)
      subgoal for leaf_id ov' ctx es
        using whole [of ctx "GLeaf leaf_id es"] len ilen
        by (intro exI [of _ "ctx @ [(p, take i cs, take i ks, drop i ks, drop (Suc i) cs)]"] conjI exI [of _ es]) auto
      done
    by simp
qed

lemma find_leaf_outcome:
  assumes "Arena st0 V owned fs ov" "tree_heap V t" "ordered None None t" "ov_root_page_id ov = root_id t"
  shows "outcome (\<lambda>(leaf_id, route) ov'. \<exists>ctx es. t = plug ctx (GLeaf leaf_id es) \<and>
      route = rev (map fst ctx) @ [leaf_id] \<and> list_all frame_shape ctx \<and>
      within (ctx_lo None ctx) (ctx_hi None ctx) key \<and> Arena st0 V owned fs ov' \<and> ov_core ov' = ov_core ov)
    (Fails st0 {}) (find_leaf crc ops key ov)"
  using find_leaf_loop_outcome [OF assms(1-3), of key "{}" "[]"] assms(4)
  by (simp add: find_leaf_def within_def at_least_def below_def)

lemma leftmost_leaf_loop_outcome:
  assumes "Arena st0 V owned fs ov" "tree_heap V t" "ordered lo hi t" "tree_pages t \<inter> visited = {}"
  shows "outcome (\<lambda>leaf_id ov'. leaf_id = fst (hd (leaves t)) \<and> Arena st0 V owned fs ov' \<and> ov_core ov' = ov_core ov)
    (Fails st0 {}) (leftmost_leaf_loop crc ops (root_id t) visited ov)"
  using assms
proof (induction t arbitrary: lo hi visited ov)
  case (GLeaf p es)
  then obtain lsn nxt where V: "V p = Some (LeafPage lsn nxt es)" by (auto simp: tree_heap_def)
  have "p \<notin> visited" using GLeaf.prems(4) by (auto simp: tree_pages_def)
  then show ?case
    unfolding root_id.simps leftmost_leaf_loop.simps [of crc ops p]
    apply simp
    apply (rule outcome_case [OF arena_page [OF GLeaf.prems(1) V]])
    by auto
next
  case (GNode p cs ks)
  obtain c cs' where cs: "cs = c # cs'" using GNode.prems(3) by (cases cs) auto
  obtain lsn where V: "V p = Some (InternalPage lsn (root_id c) (child_entries ks (map root_id cs')))"
    using GNode.prems(2) cs by (auto simp: tree_heap_def node_page_def)
  have child: "tree_heap V c" "p \<notin> tree_pages c"
    using tree_heap_child [of V p "[]" c cs' ks] GNode.prems(2) cs by simp_all
  obtain hi' where c_ord: "ordered lo hi' c" using GNode.prems(3) cs by (cases ks; cases cs') auto
  have disj: "tree_pages c \<inter> insert p visited = {}"
    using GNode.prems(4) child(2) cs unfolding tree_pages_node by auto
  have "p \<notin> visited" using GNode.prems(4) by (simp add: tree_pages_node)
  moreover have "leaves c \<noteq> []" using c_ord by (rule ordered_leaves)
  ultimately show ?case
    unfolding root_id.simps leftmost_leaf_loop.simps [of crc ops p]
    apply simp
    apply (rule outcome_case [OF arena_page [OF GNode.prems(1) V]])
    subgoal for page ov1
      apply (elim conjE, simp only: page_data.case)
      apply (rule outcome_mono [OF GNode.IH [OF _ _ child(1) c_ord disj]])
      using cs by (simp_all add: hd_append)
    by simp
qed

end

end
