(* ===== verification/Btree_Insert.thy ===== *)
theory Btree_Insert
  imports Btree_Descent
begin

text \<open>
  Insertion: the separator of a split is carried up the route, splitting the inner pages that are
  full, and the tree that results has the same leaves and is ordered again.
\<close>

section \<open>Inner pages\<close>

lemma child_entries_append:
  "length ks = length ids \<Longrightarrow> child_entries (ks @ ks') (ids @ ids') = child_entries ks ids @ child_entries ks' ids'"
  by (simp add: child_entries_def)

lemma child_entries_take: "take n (child_entries ks ids) = child_entries (take n ks) (take n ids)"
  by (simp add: child_entries_def take_map take_zip)

lemma child_entries_drop: "drop n (child_entries ks ids) = child_entries (drop n ks) (drop n ids)"
  by (simp add: child_entries_def drop_map drop_zip)

lemma child_entries_Cons: "child_entries (k # ks) (i # ids) = \<lparr>ie_key = k, ie_right_child = i\<rparr> # child_entries ks ids"
  by (simp add: child_entries_def)

text \<open>Inserting a separator and the child to its right.\<close>

lemma child_entries_insert:
  assumes "length a = length ks1" "length b = length ks2"
  shows "take (length ks1) (child_entries (ks1 @ ks2) (tl (a @ r # b))) @ \<lparr>ie_key = sep, ie_right_child = q\<rparr> #
      drop (length ks1) (child_entries (ks1 @ ks2) (tl (a @ r # b))) =
    child_entries (ks1 @ sep # ks2) (tl (a @ r # q # b))"
proof -
  have tl: "tl (a @ r # b) = tl (a @ [r]) @ b" "tl (a @ r # q # b) = tl (a @ [r]) @ q # b"
    by (cases a; simp)+
  have "length (tl (a @ [r])) = length ks1" using assms(1) by simp
  then show ?thesis
    unfolding tl using assms(2) by (simp add: child_entries_append child_entries_Cons)
qed

lemma separator_position:
  assumes "separators lo hi (ks1 @ ks2)" "above (end_lo lo ks1) sep" "below sep (start_hi hi ks2)"
  shows "length (takeWhile (\<lambda>k. k < sep) (ks1 @ ks2)) = length ks1" "separators lo hi (ks1 @ sep # ks2)"
proof -
  have sorted: "sorted_wrt (<) ks1" "sorted_wrt (<) ks2" "\<forall>x \<in> set ks1. \<forall>y \<in> set ks2. x < y"
    and in_bounds: "\<forall>k \<in> set (ks1 @ ks2). above lo k \<and> below k hi"
    using assms(1) by (auto simp: separators_def sorted_wrt_append)
  have left: "k < sep" if k: "k \<in> set ks1" for k
  proof -
    obtain ks' l where ks1: "ks1 = ks' @ [l]" using k by (cases ks1 rule: rev_cases) auto
    then have "l < sep" "k \<le> l" using assms(2) that sorted(1) by (auto simp: above_def sorted_wrt_append)
    then show ?thesis by order
  qed
  have right: "sep < k" if k: "k \<in> set ks2" for k
  proof -
    obtain h ks' where ks2: "ks2 = h # ks'" using k by (cases ks2) auto
    then have "sep < h" "h \<le> k" using assms(3) that sorted(2) by (auto simp: below_def)
    then show ?thesis by order
  qed
  have "takeWhile (\<lambda>k. k < sep) (ks1 @ ks2) = ks1"
    using left right by (cases ks2) (auto simp: takeWhile_append2 dest: less_asym)
  then show "length (takeWhile (\<lambda>k. k < sep) (ks1 @ ks2)) = length ks1" by simp
  have "above lo sep \<and> below sep hi"
  proof
    show "above lo sep"
      using assms(2) in_bounds by (cases ks1 rule: rev_cases) (auto simp: above_def split: option.splits)
    show "below sep hi"
      using assms(3) in_bounds by (cases ks2) (auto simp: below_def split: option.splits)
  qed
  then show "separators lo hi (ks1 @ sep # ks2)"
    using sorted in_bounds left right by (simp add: separators_def sorted_wrt_append)
qed

lemma node_insert_ordered:
  assumes "frame_shape (p, cs1, ks1, ks2, cs2)" "ctx_ordered lo hi ((p, cs1, ks1, ks2, cs2) # ctx)"
    and "ordered (ctx_lo lo ((p, cs1, ks1, ks2, cs2) # ctx)) (Some sep) t1"
    and "ordered (Some sep) (ctx_hi hi ((p, cs1, ks1, ks2, cs2) # ctx)) t2"
    and "above (ctx_lo lo ((p, cs1, ks1, ks2, cs2) # ctx)) sep" "below sep (ctx_hi hi ((p, cs1, ks1, ks2, cs2) # ctx))"
  shows "ordered (ctx_lo lo ctx) (ctx_hi hi ctx) (GNode p (cs1 @ t1 # t2 # cs2) (ks1 @ sep # ks2))"
  using assms kids_split [of cs1 ks1 "[t1, t2]" "[sep]" cs2 ks2 "ctx_lo lo ctx" "ctx_hi hi ctx"]
    separator_position(2) [of "ctx_lo lo ctx" "ctx_hi hi ctx" ks1 ks2 sep]
  by simp

lemma node_split_ordered:
  assumes "ordered lo hi (GNode p cs ks)" "s < length ks"
  shows "ordered lo (Some (ks ! s)) (GNode p (take (Suc s) cs) (take s ks))"
    and "ordered (Some (ks ! s)) hi (GNode q (drop (Suc s) cs) (drop (Suc s) ks))"
    and "above lo (ks ! s)" "below (ks ! s) hi"
proof -
  have ks: "ks = take s ks @ ks ! s # drop (Suc s) ks" using assms(2) by (rule id_take_nth_drop)
  have len: "length cs = Suc (length ks)" using assms(1) kids_length by auto
  have "kids lo hi (take (Suc s) cs @ drop (Suc s) cs) (take s ks @ ks ! s # drop (Suc s) ks)"
    using assms(1) ks by simp
  then have cut: "kids lo (Some (ks ! s)) (take (Suc s) cs) (take s ks)"
    "kids (Some (ks ! s)) hi (drop (Suc s) cs) (drop (Suc s) ks)"
    using kids_cut [of "take (Suc s) cs" "take s ks" lo hi "drop (Suc s) cs" "ks ! s" "drop (Suc s) ks"] len assms(2)
    by auto
  have sep: "separators lo hi (take s ks @ ks ! s # drop (Suc s) ks)" using assms(1) ks by simp
  then have "separators lo (Some (ks ! s)) (take s ks)" "separators (Some (ks ! s)) hi (drop (Suc s) ks)"
    by (auto simp: separators_def sorted_wrt_append above_def below_def)
  then show "ordered lo (Some (ks ! s)) (GNode p (take (Suc s) cs) (take s ks))"
    "ordered (Some (ks ! s)) hi (GNode q (drop (Suc s) cs) (drop (Suc s) ks))"
    using cut by simp_all
  show "above lo (ks ! s)" "below (ks ! s) hi" using sep by (simp_all add: separators_def)
qed

lemma node_split_entries:
  assumes "length ids = Suc (length ks)" "s < length ks"
  shows "take s (child_entries ks (tl ids)) = child_entries (take s ks) (tl (take (Suc s) ids))"
    and "drop (s + 1) (child_entries ks (tl ids)) = child_entries (drop (Suc s) ks) (tl (drop (Suc s) ids))"
    and "ie_key (child_entries ks (tl ids) ! s) = ks ! s"
    and "ie_right_child (child_entries ks (tl ids) ! s) = hd (drop (Suc s) ids)"
    and "hd (take (Suc s) ids) = hd ids"
proof -
  obtain i ids' where ids: "ids = i # ids'" "length ids' = length ks" using assms(1) by (cases ids) auto
  show "take s (child_entries ks (tl ids)) = child_entries (take s ks) (tl (take (Suc s) ids))"
    "drop (s + 1) (child_entries ks (tl ids)) = child_entries (drop (Suc s) ks) (tl (drop (Suc s) ids))"
    "ie_key (child_entries ks (tl ids) ! s) = ks ! s" "hd (take (Suc s) ids) = hd ids"
    using ids assms(2) by (simp_all add: child_entries_take child_entries_drop child_entries_nth drop_Suc tl_drop)
  show "ie_right_child (child_entries ks (tl ids) ! s) = hd (drop (Suc s) ids)"
    using ids assms(2) by (simp add: child_entries_nth hd_drop_conv_nth)
qed

section \<open>Separators fit\<close>

text \<open>A key taken from a page fits a new root on its own.\<close>

definition sep_fits :: "bytes \<Rightarrow> bool" where
  "sep_fits sep \<longleftrightarrow> internal_fits 2 [\<lparr>ie_key = sep, ie_right_child = 2\<rparr>]"

lemma sep_fits_root: "sep_fits sep \<Longrightarrow> 2 \<le> a \<Longrightarrow> 2 \<le> b \<Longrightarrow> internal_fits a [\<lparr>ie_key = sep, ie_right_child = b\<rparr>]"
  by (simp add: sep_fits_def internal_fits_iff internal_record_length_def)

lemma internal_fits_sep: "internal_fits l es \<Longrightarrow> e \<in> set es \<Longrightarrow> sep_fits (ie_key e)"
  using member_le_sum_list [of "SLOT_SIZE + internal_record_length e" "map (\<lambda>e. SLOT_SIZE + internal_record_length e) es"]
  by (auto simp: sep_fits_def internal_fits_iff internal_record_length_def)

lemma leaf_fits_sep: "leaf_fits es \<Longrightarrow> e \<in> set es \<Longrightarrow> sep_fits (le_key e)"
  using member_le_sum_list [of "SLOT_SIZE + leaf_record_length e" "map (\<lambda>e. SLOT_SIZE + leaf_record_length e) es"]
  by (auto simp: sep_fits_def internal_fits_iff leaf_fits_iff internal_record_length_def leaf_record_length_def)

lemma set_split_candidates: "set (split_candidates n) = {1..<n}"
  by (simp add: split_candidates_def Let_def)

lemma find_SomeD: "find P xs = Some x \<Longrightarrow> P x \<and> x \<in> set xs"
  by (auto simp: find_Some_iff)

lemma choose_internal_split_ok:
  "choose_internal_split l es = Inr s \<Longrightarrow> 1 \<le> s \<and> s < length es \<and> internal_fits l (take s es) \<and>
     internal_fits (ie_right_child (es ! s)) (drop (s + 1) es)"
  by (auto simp: choose_internal_split_def set_split_candidates dest!: find_SomeD split: if_splits)

lemma choose_internal_split_error: "choose_internal_split l es = Inl e \<Longrightarrow> e = InvalidInput"
  by (auto simp: choose_internal_split_def split: if_splits)

lemma choose_leaf_split_error: "choose_leaf_split es = Inl e \<Longrightarrow> e = InvalidInput"
  by (auto simp: choose_leaf_split_def)

lemma choose_leaf_split_ok:
  "choose_leaf_split es = Inr s \<Longrightarrow> 1 \<le> s \<and> s < length es \<and> leaf_fits (take s es) \<and> leaf_fits (drop s es)"
  by (auto simp: choose_leaf_split_def set_split_candidates dest!: find_SomeD split: if_splits)

section \<open>Carrying a separator up\<close>

text \<open>
  The tree after an update of its inner pages: it has the leaves \<open>ls\<close>, is ordered, and the pages
  \<open>rest\<close> (leaves and overflow chains) are as they were in \<open>V\<close>.
\<close>

definition rebuilt ::
  "(bytes \<Rightarrow> u32) \<Rightarrow> ('f \<Rightarrow> bytes) \<Rightarrow> ('f \<Rightarrow> bool) \<Rightarrow> ('f, 'w) base \<Rightarrow> page_heap \<Rightarrow> page_id list
     \<Rightarrow> (page_id \<times> leaf_entry list) list \<Rightarrow> revision \<times> lsn option \<times> lsn \<times> u64 \<times> superblock \<times> superblock_slot
     \<Rightarrow> ('f, 'w) overlay \<Rightarrow> bool"
where
  "rebuilt crc view healthy st0 V rest ls stamp ov \<longleftrightarrow>
     (\<exists>V' t fs. arena crc view healthy st0 V' (inner t @ rest) fs ov \<and> node_heap V' t \<and> leaves t = ls \<and>
        ordered None None t \<and> ov_root_page_id ov = root_id t \<and> (\<forall>p \<in> set rest. V' p = V p) \<and> ov_stamp ov = stamp)"

lemma rebuiltI:
  assumes "arena crc view healthy st0 V' (inner t @ rest) fs ov" "node_heap V' t" "leaves t = ls"
    and "ordered None None t" "ov_root_page_id ov = root_id t" "\<And>p. p \<in> set rest \<Longrightarrow> V' p = V p" "ov_stamp ov = stamp"
  shows "rebuilt crc view healthy st0 V rest ls stamp ov"
  using assms unfolding rebuilt_def by blast

lemma rebuilt_frame:
  assumes "rebuilt crc view healthy st0 V rest ls stamp ov" "\<And>p. p \<in> set rest \<Longrightarrow> V p = U p"
  shows "rebuilt crc view healthy st0 U rest ls stamp ov"
  using assms unfolding rebuilt_def by metis

text \<open>
  The state in which the separator \<open>sep\<close> has to be inserted above the subtree \<open>t1\<close>, to point to its
  new right sibling \<open>t2\<close>: the pages of the context still have the single child \<open>t1\<close>.
\<close>

definition pending ::
  "(bytes \<Rightarrow> u32) \<Rightarrow> ('f \<Rightarrow> bytes) \<Rightarrow> ('f \<Rightarrow> bool) \<Rightarrow> ('f, 'w) base \<Rightarrow> page_heap \<Rightarrow> page_id list
     \<Rightarrow> frame list \<Rightarrow> bytes \<Rightarrow> gtree \<Rightarrow> gtree \<Rightarrow> page_id list \<Rightarrow> ('f, 'w) overlay \<Rightarrow> bool"
where
  "pending crc view healthy st0 V rest ctx sep t1 t2 fs ov \<longleftrightarrow>
     arena crc view healthy st0 V (ctx_inner ctx @ inner t1 @ inner t2 @ rest) fs ov \<and>
     ctx_heap V (root_id t1) ctx \<and> node_heap V t1 \<and> node_heap V t2 \<and>
     list_all frame_shape ctx \<and> ctx_ordered None None ctx \<and>
     ordered (ctx_lo None ctx) (Some sep) t1 \<and> ordered (Some sep) (ctx_hi None ctx) t2 \<and>
     above (ctx_lo None ctx) sep \<and> below sep (ctx_hi None ctx) \<and> sep_fits sep \<and>
     ov_root_page_id ov = ctx_root (root_id t1) ctx \<and> 2 \<le> root_id t1 \<and> 2 \<le> root_id t2"

text \<open>The parent page before the insertion, and its entries after it.\<close>

definition old_entries :: "gtree list \<Rightarrow> bytes list \<Rightarrow> gtree \<Rightarrow> bytes list \<Rightarrow> gtree list \<Rightarrow> internal_entry list" where
  "old_entries cs1 ks1 t1 ks2 cs2 = child_entries (ks1 @ ks2) (tl (map root_id cs1 @ root_id t1 # map root_id cs2))"

definition node_entries :: "gtree list \<Rightarrow> bytes list \<Rightarrow> internal_entry list" where
  "node_entries cs ks = child_entries ks (tl (map root_id cs))"

lemma pending_parent:
  assumes "pending crc view healthy st0 V rest ((p, cs1, ks1, ks2, cs2) # ctx) sep t1 t2 fs ov"
    and "cs = cs1 @ t1 # t2 # cs2" "ks = ks1 @ sep # ks2"
  shows "length cs = Suc (length ks)" "\<And>c. c \<in> set cs \<Longrightarrow> node_heap V c" "ctx_heap V p ctx"
    and "\<exists>lsn. V p = Some (InternalPage lsn (root_id (hd cs)) (old_entries cs1 ks1 t1 ks2 cs2))"
    and "ordered (ctx_lo None ctx) (ctx_hi None ctx) (GNode p cs ks)"
    and "p \<notin> set (ctx_inner ctx)" "p \<notin> set rest" "p \<notin> set (concat (map inner cs))" "2 \<le> p"
proof -
  have shape: "length cs1 = length ks1" "length cs2 = length ks2" using assms(1) by (simp_all add: pending_def)
  then show "length cs = Suc (length ks)" using assms(2,3) by simp
  have "hd (map root_id cs1 @ root_id t1 # map root_id cs2) = root_id (hd cs)" using assms(2) by (cases cs1) simp_all
  then show "\<exists>lsn. V p = Some (InternalPage lsn (root_id (hd cs)) (old_entries cs1 ks1 t1 ks2 cs2))"
    using assms(1) by (simp add: pending_def node_page_def old_entries_def)
  show "node_heap V c" if "c \<in> set cs" for c using that assms(1,2) by (auto simp: pending_def)
  show "ctx_heap V p ctx" using assms(1) by (simp add: pending_def)
  show "ordered (ctx_lo None ctx) (ctx_hi None ctx) (GNode p cs ks)"
    using node_insert_ordered [of p cs1 ks1 ks2 cs2 None None ctx sep t1 t2] assms by (simp add: pending_def)
  have ar: "arena crc view healthy st0 V (ctx_inner ((p, cs1, ks1, ks2, cs2) # ctx) @ inner t1 @ inner t2 @ rest) fs ov"
    using assms(1) by (simp add: pending_def)
  then have "distinct (ctx_inner ((p, cs1, ks1, ks2, cs2) # ctx) @ inner t1 @ inner t2 @ rest)" by (rule arena_distinct)
  moreover have "2 \<le> p" by (rule arena_range(1) [OF ar]) simp
  ultimately show "p \<notin> set (ctx_inner ctx)" "p \<notin> set rest" "p \<notin> set (concat (map inner cs))" "2 \<le> p"
    using assms(2) by auto
qed

lemma pending_entries:
  assumes "pending crc view healthy st0 V rest ((p, cs1, ks1, ks2, cs2) # ctx) sep t1 t2 fs ov"
    and "cs = cs1 @ t1 # t2 # cs2" "ks = ks1 @ sep # ks2" "old = old_entries cs1 ks1 t1 ks2 cs2"
    and "i = length (takeWhile (\<lambda>e. ie_key e < sep) old)"
  shows "take i old @ \<lparr>ie_key = sep, ie_right_child = root_id t2\<rparr> # drop i old = node_entries cs ks"
proof -
  have shape: "length cs1 = length ks1" "length cs2 = length ks2" using assms(1) by (simp_all add: pending_def)
  have "i = length (takeWhile (\<lambda>k. k < sep) (ks1 @ ks2))"
    using takeWhile_child_entries [of "tl (map root_id cs1 @ root_id t1 # map root_id cs2)" "ks1 @ ks2" "\<lambda>k. k < sep"] shape
    by (simp add: assms(4,5) old_entries_def)
  also have "\<dots> = length ks1"
    using separator_position(1) [of "ctx_lo None ctx" "ctx_hi None ctx" ks1 ks2 sep] assms(1) by (simp add: pending_def)
  finally show ?thesis
    using child_entries_insert [of "map root_id cs1" ks1 "map root_id cs2" ks2 "root_id t1" sep "root_id t2"] shape
    by (simp add: assms(2-4) old_entries_def node_entries_def)
qed

text \<open>The entries fit the parent: the tree is whole again.\<close>

lemma pending_fits:
  assumes "pending crc view healthy st0 V rest ((p, cs1, ks1, ks2, cs2) # ctx) sep t1 t2 fs ov"
    and "cs = cs1 @ t1 # t2 # cs2" "ks = ks1 @ sep # ks2" "internal_fits (root_id (hd cs)) (node_entries cs ks)"
    and "arena crc view healthy st0 (V(p \<mapsto> InternalPage lsn (root_id (hd cs)) (node_entries cs ks)))
      (ctx_inner ((p, cs1, ks1, ks2, cs2) # ctx) @ inner t1 @ inner t2 @ rest) fs ov'" "ov_core ov' = ov_core ov"
  shows "rebuilt crc view healthy st0 V rest
    (ctx_left ((p, cs1, ks1, ks2, cs2) # ctx) @ leaves t1 @ leaves t2 @ ctx_right ((p, cs1, ks1, ks2, cs2) # ctx))
    (ov_stamp ov) ov'"
proof (rule rebuiltI)
  let ?V = "V(p \<mapsto> InternalPage lsn (root_id (hd cs)) (node_entries cs ks))"
  let ?t = "plug ctx (GNode p cs ks)"
  note parent = pending_parent [OF assms(1-3)]
  have "mset (ctx_inner ((p, cs1, ks1, ks2, cs2) # ctx) @ inner t1 @ inner t2 @ rest) = mset (inner ?t @ rest)"
    by (simp add: mset_inner_plug assms(2))
  then show "arena crc view healthy st0 ?V (inner ?t @ rest) fs ov'" using arena_perm assms(5) by blast
  have kid: "node_heap ?V c" if "c \<in> set cs" for c
    using node_heap_upd [of p c V] parent(2,8) that by auto
  have cs: "cs \<noteq> []" using parent(1) by auto
  have "ctx_heap ?V p ctx" using ctx_heap_upd [of p ctx V] parent(3,6) by simp
  moreover have "node_page ?V p (map root_id cs) ks"
    using parent(1) assms(4) cs by (auto simp: node_page_def node_entries_def hd_map)
  ultimately show "node_heap ?V ?t" using kid by (simp add: node_heap_plug)
  show "ordered None None ?t"
    using parent(5) assms(1) by (simp add: ordered_plug pending_def del: ordered.simps)
  show "ov_root_page_id ov' = root_id ?t" using ov_coreD(1) [OF assms(6)] assms(1) by (simp add: pending_def)
  show "?V q = V q" if "q \<in> set rest" for q using that parent(7) by auto
  show "ov_stamp ov' = ov_stamp ov" by (rule ov_coreD(2) [OF assms(6)])
qed (simp add: assms(2))

text \<open>The two pages of a split inner page, in the heap that holds both.\<close>

lemma split_nodes_heap:
  assumes "\<And>c. c \<in> set cs \<Longrightarrow> node_heap V c" "length cs = Suc (length ks)" "s < length ks"
    and "internal_fits (hd (map root_id cs)) (take s (child_entries ks (tl (map root_id cs))))"
    and "internal_fits (hd (drop (Suc s) (map root_id cs))) (drop (s + 1) (child_entries ks (tl (map root_id cs))))"
    and "p \<notin> set (concat (map inner cs))" "q \<notin> set (concat (map inner cs))" "p \<noteq> q"
    and "V' = V(p \<mapsto> InternalPage lsn (hd (map root_id cs)) (take s (child_entries ks (tl (map root_id cs)))),
                q \<mapsto> InternalPage lsn (hd (drop (Suc s) (map root_id cs))) (drop (s + 1) (child_entries ks (tl (map root_id cs)))))"
  shows "node_heap V' (GNode p (take (Suc s) cs) (take s ks))" "node_heap V' (GNode q (drop (Suc s) cs) (drop (Suc s) ks))"
proof -
  let ?ids = "map root_id cs"
  have len: "length ?ids = Suc (length ks)" using assms(2) by simp
  note e = node_split_entries [OF len assms(3)]
  have kid: "node_heap V' c" if "c \<in> set cs" for c
  proof -
    have "node_heap V' c = node_heap V c"
      using that assms(6,7) unfolding assms(9) by (intro node_heap_cong) auto
    then show ?thesis using assms(1) that by simp
  qed
  have "node_page V' p (take (Suc s) ?ids) (take s ks)"
    using assms(4,8,9) e len assms(3) unfolding node_page_def by simp
  then show "node_heap V' (GNode p (take (Suc s) cs) (take s ks))"
    using kid by (auto simp: take_map dest: in_set_takeD)
  have "node_page V' q (drop (Suc s) ?ids) (drop (Suc s) ks)"
    using assms(5,8,9) e len assms(3) unfolding node_page_def by simp
  then show "node_heap V' (GNode q (drop (Suc s) cs) (drop (Suc s) ks))"
    using kid by (auto simp: drop_map dest: in_set_dropD)
qed

text \<open>The entries do not fit: the parent is split, and its middle separator is pending above it.\<close>

lemma pending_sep_fits:
  assumes "pending crc view healthy st0 V rest ((p, cs1, ks1, ks2, cs2) # ctx) sep t1 t2 fs ov"
    and "k \<in> set (ks1 @ sep # ks2)"
  shows "sep_fits k"
proof (cases "k = sep")
  case False
  let ?ids = "map root_id cs1 @ root_id t1 # map root_id cs2"
  have page: "internal_fits (hd ?ids) (child_entries (ks1 @ ks2) (tl ?ids))" "length (tl ?ids) = length (ks1 @ ks2)"
    using assms(1) by (auto simp: pending_def node_page_def)
  have "k \<in> set (map ie_key (child_entries (ks1 @ ks2) (tl ?ids)))"
    using child_entries_keys [OF page(2)] assms(2) False by auto
  then show ?thesis using internal_fits_sep [OF page(1)] by auto
qed (use assms(1) in \<open>simp add: pending_def\<close>)

lemma pending_split:
  assumes "pending crc view healthy st0 V rest ((p, cs1, ks1, ks2, cs2) # ctx) sep t1 t2 fs ov"
    and "cs = cs1 @ t1 # t2 # cs2" "ks = ks1 @ sep # ks2" "s < length ks" "E = node_entries cs ks"
    and "internal_fits (root_id (hd cs)) (take s E)" "internal_fits (ie_right_child (E ! s)) (drop (s + 1) E)"
    and "V' = V(p \<mapsto> InternalPage lsn (root_id (hd cs)) (take s E),
                q \<mapsto> InternalPage lsn (ie_right_child (E ! s)) (drop (s + 1) E))"
    and "arena crc view healthy st0 V' (q # ctx_inner ((p, cs1, ks1, ks2, cs2) # ctx) @ inner t1 @ inner t2 @ rest) fs' ov'"
    and "ov_core ov' = ov_core ov"
  shows "pending crc view healthy st0 V' rest ctx (ks ! s) (GNode p (take (Suc s) cs) (take s ks))
    (GNode q (drop (Suc s) cs) (drop (Suc s) ks)) fs' ov'"
proof -
  let ?l = "GNode p (take (Suc s) cs) (take s ks)" and ?r = "GNode q (drop (Suc s) cs) (drop (Suc s) ks)"
  note parent = pending_parent [OF assms(1-3)]
  have hd: "root_id (hd cs) = hd (map root_id cs)" using parent(1) by (cases cs) simp_all
  have "mset (concat (map inner (take (Suc s) cs))) + mset (concat (map inner (drop (Suc s) cs))) = mset (concat (map inner cs))"
    by (simp flip: mset_append concat_append map_append)
  moreover have "mset (concat (map inner cs)) =
      mset (concat (map inner cs1)) + mset (concat (map inner cs2)) + mset (inner t1) + mset (inner t2)"
    by (simp add: assms(2))
  ultimately have "mset (q # ctx_inner ((p, cs1, ks1, ks2, cs2) # ctx) @ inner t1 @ inner t2 @ rest) =
      mset (ctx_inner ctx @ inner ?l @ inner ?r @ rest)"
    by (simp add: ac_simps)
  then have ar: "arena crc view healthy st0 V' (ctx_inner ctx @ inner ?l @ inner ?r @ rest) fs' ov'"
    using arena_perm assms(9) by blast
  have "distinct (q # ctx_inner ((p, cs1, ks1, ks2, cs2) # ctx) @ inner t1 @ inner t2 @ rest)"
    by (rule arena_distinct [OF assms(9)])
  then have q: "q \<noteq> p" "q \<notin> set (ctx_inner ctx)" "q \<notin> set (concat (map inner cs))" by (auto simp: assms(2))
  have range: "2 \<le> p" "2 \<le> q" using arena_range(1) [OF assms(9)] by auto
  have len: "length (map root_id cs) = Suc (length ks)" using parent(1) by simp
  have E: "E = child_entries ks (tl (map root_id cs))" by (simp add: assms(5) node_entries_def)
  have right: "ie_right_child (E ! s) = hd (drop (Suc s) (map root_id cs))"
    using node_split_entries(4) [OF len assms(4)] by (simp add: E)
  note heap = split_nodes_heap [OF parent(2,1) assms(4) assms(6,7) [unfolded right, unfolded hd E] parent(8) q(3)
      q(1) [symmetric] assms(8) [unfolded right, unfolded hd E]]
  have "ctx_heap V' p ctx"
    unfolding assms(8) using parent(3,6) q(2) by (simp add: ctx_heap_upd)
  then show ?thesis
    using ar heap node_split_ordered [OF parent(5) assms(4)] range assms(1) ov_coreD(1) [OF assms(10)]
      pending_sep_fits [OF assms(1), of "ks ! s"] nth_mem [OF assms(4)]
    by (simp add: pending_def assms(3) del: ordered.simps node_heap.simps inner.simps)
qed

context page_store
begin

abbreviation Rebuilt ::
  "('f, 'w) base \<Rightarrow> page_heap \<Rightarrow> page_id list \<Rightarrow> (page_id \<times> leaf_entry list) list
     \<Rightarrow> revision \<times> lsn option \<times> lsn \<times> u64 \<times> superblock \<times> superblock_slot \<Rightarrow> ('f, 'w) overlay \<Rightarrow> bool"
where
  "Rebuilt \<equiv> rebuilt crc view healthy"

lemma new_root_outcome:
  assumes "Arena st0 V (inner t1 @ inner t2 @ rest) fs ov" "node_heap V t1" "node_heap V t2"
    and "ordered None (Some sep) t1" "ordered (Some sep) None t2" "sep_fits sep"
    and "ov_root_page_id ov = root_id t1" "2 \<le> root_id t1" "2 \<le> root_id t2"
  shows "outcome (\<lambda>_. Rebuilt st0 V rest (leaves t1 @ leaves t2) (ov_stamp ov))
    (Fails st0 {InvalidInput, InternalInvariantViolation}) (insert_parent_loop crc ops [] sep (root_id t2) lsn ov)"
proof -
  let ?page = "InternalPage lsn (root_id t1) [\<lparr>ie_key = sep, ie_right_child = root_id t2\<rparr>]"
  have heap: "node_heap (V(q \<mapsto> ?page)) (GNode q [t1, t2] [sep])" if "q \<notin> set (inner t1 @ inner t2)" for q
  proof -
    have "node_heap (V(q \<mapsto> ?page)) t = node_heap V t" if "t \<in> {t1, t2}" for t
      using \<open>q \<notin> set (inner t1 @ inner t2)\<close> that by (intro node_heap_cong) auto
    then show ?thesis
      using assms(2,3) sep_fits_root [OF assms(6,8,9)] by (simp add: node_page_def child_entries_def)
  qed
  have built: "Rebuilt st0 V rest (leaves t1 @ leaves t2) (ov_stamp ov) (ov2\<lparr>ov_root_page_id := q\<rparr>)"
    if "Arena st0 (V(q \<mapsto> ?page)) (q # inner t1 @ inner t2 @ rest) fs1 ov2" "ov_core ov2 = ov_core ov" for q fs1 ov2
  proof (rule rebuiltI [where V' = "V(q \<mapsto> ?page)" and t = "GNode q [t1, t2] [sep]" and fs = fs1])
    have fresh: "q \<notin> set (inner t1 @ inner t2 @ rest)" using that(1) by (auto simp: arena_def)
    show "arena crc view healthy st0 (V(q \<mapsto> ?page)) (inner (GNode q [t1, t2] [sep]) @ rest) fs1 (ov2\<lparr>ov_root_page_id := q\<rparr>)"
      by (rule arena_cong [of _ _ _ _ _ _ _ ov2]) (use that(1) in simp_all)
    show "node_heap (V(q \<mapsto> ?page)) (GNode q [t1, t2] [sep])" using heap fresh by simp
    show "ordered None None (GNode q [t1, t2] [sep])"
      using assms(4,5) by (simp add: separators_def above_def below_def)
    show "(V(q \<mapsto> ?page)) p = V p" if "p \<in> set rest" for p using that fresh by auto
    show "ov_stamp (ov2\<lparr>ov_root_page_id := q\<rparr>) = ov_stamp ov"
      using ov_coreD(2) [OF that(2)] by (simp add: ov_stamp_def)
  qed simp_all
  show ?thesis
    unfolding insert_parent_loop.simps
    apply (rule outcome_bindS)
     apply (rule outcome_fails_mono [OF arena_allocate [OF assms(1)]], simp)
    apply (elim exE conjE)
    subgoal for q ov1 fs1
      apply (rule outcome_bindS)
       apply (rule arena_replace [of st0 V "q # inner t1 @ inner t2 @ rest" fs1 ov1 q], assumption, simp)
       apply (use assms(7) sep_fits_root [OF assms(6,8,9)] in \<open>simp add: page_sound_internal ov_core_def\<close>)
      using built [of q fs1] assms(7) by (simp add: ov_core_def)
    done
qed

lemma ov_internal_outcome:
  assumes "Arena st0 V owned fs ov" "V pid = Some (InternalPage lsn l es)"
  shows "outcome (\<lambda>r ov'. r = (l, es) \<and> Arena st0 V owned fs ov' \<and> ov_core ov' = ov_core ov) (Fails st0 {})
    (ov_internal crc ops pid ov)"
  unfolding ov_internal_def
  by (rule outcome_bindS, rule arena_page [OF assms], auto)

lemma ov_leaf_outcome:
  assumes "Arena st0 V owned fs ov" "V pid = Some (LeafPage lsn nxt es)"
  shows "outcome (\<lambda>r ov'. r = (nxt, es) \<and> Arena st0 V owned fs ov' \<and> ov_core ov' = ov_core ov) (Fails st0 {})
    (ov_leaf crc ops pid ov)"
  unfolding ov_leaf_def
  by (rule outcome_bindS, rule arena_page [OF assms], auto)

lemma insert_parent_loop_outcome:
  "pending crc view healthy st0 V rest ctx sep t1 t2 fs ov \<Longrightarrow>
   outcome (\<lambda>_. Rebuilt st0 V rest (ctx_left ctx @ leaves t1 @ leaves t2 @ ctx_right ctx) (ov_stamp ov))
    (Fails st0 {InvalidInput, InternalInvariantViolation})
    (insert_parent_loop crc ops (map fst ctx) sep (root_id t2) lsn ov)"
proof (induction ctx arbitrary: V t1 t2 sep fs ov)
  case Nil
  then show ?case using new_root_outcome [of st0 V t1 t2 rest fs ov sep lsn] by (simp add: pending_def)
next
  case (Cons f ctx)
  obtain p cs1 ks1 ks2 cs2 where f: "f = (p, cs1, ks1, ks2, cs2)" by (cases f) auto
  define cs where "cs = cs1 @ t1 # t2 # cs2"
  define ks where "ks = ks1 @ sep # ks2"
  let ?old = "old_entries cs1 ks1 t1 ks2 cs2" and ?E = "node_entries cs ks" and ?l = "root_id (hd cs)"
  let ?owned = "ctx_inner (f # ctx) @ inner t1 @ inner t2 @ rest"
  note pend = Cons.prems [unfolded f]
  note parent = pending_parent [OF pend cs_def ks_def]
  note entries = pending_entries [OF pend cs_def ks_def refl refl]
  obtain lsn0 where Vp: "V p = Some (InternalPage lsn0 ?l ?old)" using parent(4) by blast
  have ar: "Arena st0 V ?owned fs ov" using Cons.prems by (simp add: pending_def)
  have descend: "outcome (\<lambda>_. Rebuilt st0 V rest (ctx_left (f # ctx) @ leaves t1 @ leaves t2 @ ctx_right (f # ctx)) (ov_stamp ov))
      (Fails st0 {InvalidInput, InternalInvariantViolation})
      (insert_parent_loop crc ops (map fst ctx) (ie_key (?E ! s)) q lsn ov')"
    if "s < length ks" "internal_fits ?l (take s ?E)" "internal_fits (ie_right_child (?E ! s)) (drop (s + 1) ?E)"
      and V': "V' = V(p \<mapsto> InternalPage lsn ?l (take s ?E), q \<mapsto> InternalPage lsn (ie_right_child (?E ! s)) (drop (s + 1) ?E))"
      and "Arena st0 V' (q # ?owned) fs' ov'" "ov_core ov' = ov_core ov" for s q V' fs' ov'
  proof -
    let ?t2 = "GNode q (drop (Suc s) cs) (drop (Suc s) ks)"
    have "distinct (q # ?owned)" using that(5) by (rule arena_distinct)
    then have "V' x = V x" if "x \<in> set rest" for x using that V' f by auto
    note frame = rebuilt_frame [of crc view healthy st0 V' rest, OF _ this]
    have key: "ie_key (?E ! s) = ks ! s"
      using node_split_entries(3) [of "map root_id cs" ks s] parent(1) that(1) by (simp add: node_entries_def)
    have "concat (map leaves (take (Suc s) cs)) @ concat (map leaves (drop (Suc s) cs)) = concat (map leaves cs)"
      by (simp flip: concat_append map_append)
    then have lv: "concat (map leaves (take (Suc s) cs)) @ concat (map leaves (drop (Suc s) cs)) @ X =
        concat (map leaves cs1) @ leaves t1 @ leaves t2 @ concat (map leaves cs2) @ X" for X
      by (simp flip: append_assoc) (simp add: cs_def)
    show ?thesis
      using Cons.IH [OF pending_split [OF pend cs_def ks_def that(1) refl that(2,3) V' that(5) [unfolded f] that(6)]]
      unfolding root_id.simps leaves.simps lv key f ov_coreD(2) [OF that(6)]
      by (elim outcome_mono) (auto intro: frame)
  qed
  show ?case
    unfolding f list.map fst_conv insert_parent_loop.simps
    apply (rule outcome_bindS)
     apply (rule outcome_fails_mono [OF ov_internal_outcome [OF ar Vp]], simp)
    apply (elim conjE, hypsubst)
    apply (simp only: prod.case Let_def entries)
    subgoal for x ov1
    proof -
      assume ar1: "Arena st0 V ?owned fs ov1" and core1: "ov_core ov1 = ov_core ov"
      show ?thesis
      proof (cases "internal_fits ?l ?E")
        case True
        have "p \<in> set ?owned" by (simp add: f)
        from arena_replace [OF ar1 this page_sound_internal [THEN iffD2, OF True]] show ?thesis
          unfolding if_P [OF True]
          by (rule outcome_mono) (auto simp: f core1 intro: pending_fits [OF pend cs_def ks_def True, simplified])
      next
        case False
        show ?thesis
          apply (simp only: False if_False)
          apply (rule outcome_bindS [where R = "\<lambda>s ov'. choose_internal_split ?l ?E = Inr s \<and> ov' = ov1"])
           apply (use arena_committed [OF ar1] in \<open>auto simp: fails_def split: sum.splits dest: choose_internal_split_error\<close>)[1]
          apply (elim conjE, hypsubst)
          subgoal for s
          proof -
            assume "choose_internal_split ?l ?E = Inr s"
            note s = choose_internal_split_ok [OF this]
            have sl: "s < length ks" "s < length ?E" using s by (auto simp: node_entries_def)
            show ?thesis
              apply (rule outcome_bindS)
               apply (rule outcome_fails_mono [OF arena_allocate [OF ar1]], simp)
              apply (elim exE conjE)
              subgoal for q ov2 fs2
                apply (simp only: s simp_thms not_True_eq_False if_False)
                apply (rule outcome_bindS)
                 apply (rule arena_replace, assumption, simp add: f)
                 apply (use s in \<open>simp add: page_sound_internal\<close>)
                apply (rule outcome_bindS)
                 apply (elim conjE, rule arena_replace, assumption, simp)
                 apply (use s in \<open>simp add: page_sound_internal\<close>)
                apply (elim conjE)
                subgoal premises prems for u v ov4
                  using descend [OF sl(1) _ _ refl prems(5)] prems s core1 by (simp add: f)
                done
              done
          qed
          done
      qed
    qed
    done
qed

end

end
