(* ===== verification/Btree_Leaf.thy ===== *)
theory Btree_Leaf
  imports Btree_Insert
begin

text \<open>
  Writing the entries of a leaf back: \<open>insert_leaf_entries\<close> either replaces the leaf page or splits
  it and carries the separator up; the leaves stay linked and the whole tree stays ordered.
\<close>

section \<open>The state of a tree\<close>

definition tree_state ::
  "(bytes \<Rightarrow> u32) \<Rightarrow> ('f \<Rightarrow> bytes) \<Rightarrow> ('f \<Rightarrow> bool) \<Rightarrow> ('f, 'w) base \<Rightarrow> page_heap \<Rightarrow> gtree
     \<Rightarrow> page_id list \<Rightarrow> page_id list \<Rightarrow> ('f, 'w) overlay \<Rightarrow> bool"
where
  "tree_state crc view healthy st0 V t extra fs ov \<longleftrightarrow>
     arena crc view healthy st0 V (inner t @ map fst (leaves t) @ extra) fs ov \<and> node_heap V t \<and>
     leaf_links V (leaves t) None \<and> ordered None None t \<and> ov_root_page_id ov = root_id t"

lemma leaf_links_pages: "leaf_links V ls nxt \<Longrightarrow> (p, es) \<in> set ls \<Longrightarrow> (\<exists>lsn q. V p = Some (LeafPage lsn q es)) \<and> leaf_fits es"
  by (induction ls) auto

lemma tree_state_heap: "tree_state crc view healthy st0 V t extra fs ov \<Longrightarrow> tree_heap V t"
  using leaf_links_pages [of V "leaves t" None] by (auto simp: tree_state_def tree_heap_def arena_def)

lemma tree_state_arena:
  "tree_state crc view healthy st0 V t extra fs ov \<Longrightarrow>
    arena crc view healthy st0 V (inner t @ map fst (leaves t) @ extra) fs ov"
  by (simp add: tree_state_def)

text \<open>What an update of one leaf leaves behind: the entries of the leaves, and the pages \<open>extra\<close> as they were.\<close>

definition rewritten ::
  "(bytes \<Rightarrow> u32) \<Rightarrow> ('f \<Rightarrow> bytes) \<Rightarrow> ('f \<Rightarrow> bool) \<Rightarrow> ('f, 'w) base \<Rightarrow> page_heap \<Rightarrow> page_id list
     \<Rightarrow> leaf_entry list \<Rightarrow> revision \<times> lsn option \<times> lsn \<times> u64 \<times> superblock \<times> superblock_slot
     \<Rightarrow> ('f, 'w) overlay \<Rightarrow> bool"
where
  "rewritten crc view healthy st0 V extra es stamp ov \<longleftrightarrow>
     (\<exists>V' t fs. tree_state crc view healthy st0 V' t extra fs ov \<and> leaf_entries (leaves t) = es \<and>
        (\<forall>p \<in> set extra. V' p = V p) \<and> ov_stamp ov = stamp)"

lemma rewrittenI:
  assumes "tree_state crc view healthy st0 V' t extra fs ov" "leaf_entries (leaves t) = es"
    and "\<And>p. p \<in> set extra \<Longrightarrow> V' p = V p" "ov_stamp ov = stamp"
  shows "rewritten crc view healthy st0 V extra es stamp ov"
  using assms unfolding rewritten_def by blast

section \<open>Splitting a leaf\<close>

lemma leaf_split_ordered:
  assumes "ordered lo hi (GLeaf p es)" "1 \<le> s" "s < length es"
  shows "ordered lo (Some (le_key (es ! s))) (GLeaf p (take s es))"
    and "ordered (Some (le_key (es ! s))) hi (GLeaf q (drop s es))"
    and "above lo (le_key (es ! s))" "below (le_key (es ! s)) hi"
proof -
  let ?k = "le_key (es ! s)"
  have es: "es = take s es @ es ! s # drop (Suc s) es" using assms(3) by (rule id_take_nth_drop)
  have drop: "drop s es = es ! s # drop (Suc s) es" using assms(3) by (rule Cons_nth_drop_Suc [symmetric])
  have "sorted_wrt (<) (map le_key (take s es @ es ! s # drop (Suc s) es))" using assms(1) es by simp
  then have sorted: "sorted_wrt (<) (map le_key (take s es))" "sorted_wrt (<) (map le_key (drop s es))"
    and lt: "\<And>e. e \<in> set (take s es) \<Longrightarrow> le_key e < ?k" and gt: "\<And>e. e \<in> set (drop (Suc s) es) \<Longrightarrow> ?k < le_key e"
    by (auto simp: sorted_wrt_append drop)
  have within: "within lo hi (le_key e)" if "e \<in> set es" for e using assms(1) that by simp
  show "ordered lo (Some ?k) (GLeaf p (take s es))"
    using sorted(1) lt within by (auto simp: within_def below_def dest: in_set_takeD)
  show "ordered (Some ?k) hi (GLeaf q (drop s es))"
    using sorted(2) gt within nth_mem [OF assms(3)]
    by (auto simp: drop within_def at_least_def less_imp_le dest: in_set_dropD)
  have first: "take s es \<noteq> []" using assms(2,3) by auto
  then have "hd (take s es) \<in> set (take s es)" by (rule hd_in_set)
  then have "le_key (hd (take s es)) < ?k" "at_least lo (le_key (hd (take s es)))"
    using lt within in_set_takeD [of "hd (take s es)" s es] by (simp_all add: within_def)
  then show "above lo ?k" by (auto simp: at_least_def above_def split: option.splits)
  show "below ?k hi" using within assms(3) by (auto simp: within_def)
qed

lemma first_leaf_simps [simp]: "first_leaf [] nxt = nxt" "first_leaf ((p, es) # ls) nxt = Some p"
  by (simp_all add: first_leaf_def)

lemma leaf_links_middle:
  "leaf_links V (l @ (p, es) # r) None \<longleftrightarrow>
     leaf_links V l (Some p) \<and> (\<exists>lsn. V p = Some (LeafPage lsn (first_leaf r None) es)) \<and> leaf_fits es \<and> leaf_links V r None"
  by (simp only: leaf_links_append leaf_links_Cons first_leaf_simps)

lemma leaf_links_split:
  assumes "leaf_links V (l @ (p, es) # r) None" "distinct (map fst (l @ (p, es) # r))"
    and "q \<notin> fst ` set (l @ (p, es) # r)" "leaf_fits a" "leaf_fits b"
    and "V' = V(p \<mapsto> LeafPage lsn (Some q) a, q \<mapsto> LeafPage lsn (first_leaf r None) b)"
  shows "leaf_links V' (l @ (p, a) # (q, b) # r) None"
proof -
  have fresh: "p \<notin> fst ` set l" "p \<notin> fst ` set r" "q \<notin> fst ` set l" "q \<notin> fst ` set r" "q \<noteq> p" using assms(2,3) by auto
  have "leaf_links V l (Some p)" "leaf_links V r None" using assms(1) by (simp_all only: leaf_links_middle)
  then have "leaf_links V' l (Some p)" "leaf_links V' r None"
    using fresh by (simp_all add: assms(6) leaf_links_upd)
  moreover have "V' p = Some (LeafPage lsn (Some q) a)" "V' q = Some (LeafPage lsn (first_leaf r None) b)"
    using fresh by (simp_all add: assms(6))
  ultimately show ?thesis
    using assms(4,5) by (simp only: leaf_links_append leaf_links_Cons first_leaf_simps) blast
qed

lemma leaf_links_replace:
  assumes "leaf_links V (l @ (p, es) # r) None" "distinct (map fst (l @ (p, es) # r))" "leaf_fits a"
    and "V' = V(p \<mapsto> LeafPage lsn (first_leaf r None) a)"
  shows "leaf_links V' (l @ (p, a) # r) None"
proof -
  have fresh: "p \<notin> fst ` set l" "p \<notin> fst ` set r" using assms(2) by auto
  have "leaf_links V l (Some p)" "leaf_links V r None" using assms(1) by (simp_all only: leaf_links_middle)
  then have "leaf_links V' l (Some p)" "leaf_links V' r None" using fresh by (simp_all add: assms(4) leaf_links_upd)
  moreover have "V' p = Some (LeafPage lsn (first_leaf r None) a)" by (simp add: assms(4))
  ultimately show ?thesis using assms(3) by (simp only: leaf_links_middle) blast
qed

section \<open>Writing the entries back\<close>

lemma next_leaf_allocated:
  assumes "arena crc view healthy st0 V owned fs ov" "fst ` set ls \<subseteq> set owned"
  shows "ref_le (ov_high_water_page_id ov) (first_leaf ls None)"
  using assms arena_range(2) [OF assms(1)] by (cases ls) (auto simp: ref_le_def)

text \<open>The entries fit the leaf page.\<close>

lemma leaf_fits_rewritten:
  assumes "tree_state crc view healthy st0 V (plug ctx (GLeaf p es)) extra fs ov" "list_all frame_shape ctx"
    and "ordered (ctx_lo None ctx) (ctx_hi None ctx) (GLeaf p es')" "leaf_fits es'"
    and "V' = V(p \<mapsto> LeafPage lsn (first_leaf (ctx_right ctx) None) es')"
    and "arena crc view healthy st0 V' (inner (plug ctx (GLeaf p es)) @ map fst (leaves (plug ctx (GLeaf p es))) @ extra) fs ov'"
    and "ov_core ov' = ov_core ov"
  shows "rewritten crc view healthy st0 V extra
    (leaf_entries (ctx_left ctx) @ es' @ leaf_entries (ctx_right ctx)) (ov_stamp ov) ov'"
proof (rule rewrittenI)
  let ?t = "plug ctx (GLeaf p es')"
  have st: "node_heap V (plug ctx (GLeaf p es))" "leaf_links V (leaves (plug ctx (GLeaf p es))) None"
    "ordered None None (plug ctx (GLeaf p es))" "ov_root_page_id ov = root_id (plug ctx (GLeaf p es))"
    using assms(1) by (simp_all add: tree_state_def)
  have "distinct (inner (plug ctx (GLeaf p es)) @ map fst (leaves (plug ctx (GLeaf p es))) @ extra)"
    by (rule arena_distinct [OF assms(6)])
  then have p: "p \<notin> set (inner (plug ctx (GLeaf p es)))" "p \<notin> set extra"
    and d: "distinct (map fst (ctx_left ctx @ (p, es) # ctx_right ctx))" by auto
  have inner_eq: "mset (inner ?t) = mset (inner (plug ctx (GLeaf p es)))" by (simp add: mset_inner_plug)
  have "mset (inner ?t @ map fst (leaves ?t) @ extra) =
      mset (inner (plug ctx (GLeaf p es)) @ map fst (leaves (plug ctx (GLeaf p es))) @ extra)"
    using inner_eq by simp
  then have "arena crc view healthy st0 V' (inner ?t @ map fst (leaves ?t) @ extra) fs ov'"
    using arena_perm assms(6) by blast
  moreover have "p \<notin> set (ctx_inner ctx)" using p(1) mset_inner_plug [of ctx "GLeaf p es"] by (metis add_0_right inner.simps(1) mset.simps(1) set_mset_mset)
  then have "node_heap V' ?t" using st(1) by (simp add: node_heap_plug assms(5) ctx_heap_upd)
  moreover have "leaf_links V' (leaves ?t) None"
    using leaf_links_replace [OF _ d assms(4,5)] st(2) by simp
  moreover have "ordered None None ?t"
    using assms(3) st(3) ordered_plug [OF assms(2)] by (simp del: ordered.simps)
  moreover have "ov_root_page_id ov' = root_id ?t" using st(4) ov_coreD(1) [OF assms(7)] by simp
  ultimately show "tree_state crc view healthy st0 V' ?t extra fs ov'" by (simp add: tree_state_def)
  show "V' q = V q" if "q \<in> set extra" for q using that p(2) by (auto simp: assms(5))
  show "ov_stamp ov' = ov_stamp ov" by (rule ov_coreD(2) [OF assms(7)])
qed simp

text \<open>The leaf is split in two.\<close>

lemma leaf_split_pending:
  assumes "tree_state crc view healthy st0 V (plug ctx (GLeaf p es)) extra fs ov" "list_all frame_shape ctx"
    and "ordered (ctx_lo None ctx) (ctx_hi None ctx) (GLeaf p es')" "1 \<le> s" "s < length es'"
    and "leaf_fits (take s es')" "leaf_fits (drop s es')"
    and "V' = V(p \<mapsto> LeafPage lsn (Some q) (take s es'), q \<mapsto> LeafPage lsn (first_leaf (ctx_right ctx) None) (drop s es'))"
    and "arena crc view healthy st0 V' (q # inner (plug ctx (GLeaf p es)) @ map fst (leaves (plug ctx (GLeaf p es))) @ extra) fs' ov'"
    and "ov_core ov' = ov_core ov"
    and "rest = map fst (ctx_left ctx) @ p # q # map fst (ctx_right ctx) @ extra"
  shows "pending crc view healthy st0 V' rest ctx (le_key (es' ! s)) (GLeaf p (take s es')) (GLeaf q (drop s es')) fs' ov'"
    and "leaf_links V' (ctx_left ctx @ (p, take s es') # (q, drop s es') # ctx_right ctx) None"
    and "\<And>x. x \<in> set extra \<Longrightarrow> V' x = V x"
proof -
  let ?t = "plug ctx (GLeaf p es)"
  have st: "node_heap V ?t" "leaf_links V (leaves ?t) None" "ordered None None ?t" "ov_root_page_id ov = root_id ?t"
    using assms(1) by (simp_all add: tree_state_def)
  have perm: "mset (q # inner ?t @ map fst (leaves ?t) @ extra) = mset (ctx_inner ctx @ rest)"
    by (simp add: mset_inner_plug assms(11))
  then have ar: "arena crc view healthy st0 V' (ctx_inner ctx @ rest) fs' ov'" using arena_perm assms(9) by blast
  have "distinct (ctx_inner ctx @ rest)" by (rule arena_distinct [OF ar])
  then have fresh: "p \<notin> set (ctx_inner ctx)" "q \<notin> set (ctx_inner ctx)" "p \<notin> set extra" "q \<notin> set extra"
    and d: "distinct (map fst (ctx_left ctx @ (p, es) # ctx_right ctx))"
    and q: "q \<notin> fst ` set (ctx_left ctx @ (p, es) # ctx_right ctx)"
    by (auto simp: assms(11))
  show "leaf_links V' (ctx_left ctx @ (p, take s es') # (q, drop s es') # ctx_right ctx) None"
    using leaf_links_split [OF _ d q assms(6-8)] st(2) by simp
  show "V' x = V x" if "x \<in> set extra" for x using that fresh by (auto simp: assms(8))
  have "2 \<le> p" "2 \<le> q" using arena_range(1) [OF ar] by (auto simp: assms(11))
  moreover have "ctx_heap V' p ctx" using st(1) fresh by (simp add: node_heap_plug assms(8) ctx_heap_upd)
  moreover have "es' ! s \<in> set (drop s es')" using assms(5) by (simp flip: Cons_nth_drop_Suc)
  ultimately show "pending crc view healthy st0 V' rest ctx (le_key (es' ! s)) (GLeaf p (take s es')) (GLeaf q (drop s es')) fs' ov'"
    using ar leaf_split_ordered [OF assms(3-5)] st(3,4) ordered_plug [OF assms(2)] assms(2) ov_coreD(1) [OF assms(10)]
      leaf_fits_sep [OF assms(7)]
    by (simp add: pending_def del: ordered.simps)
qed

context page_store
begin

abbreviation Tree ::
  "('f, 'w) base \<Rightarrow> page_heap \<Rightarrow> gtree \<Rightarrow> page_id list \<Rightarrow> page_id list \<Rightarrow> ('f, 'w) overlay \<Rightarrow> bool"
where
  "Tree \<equiv> tree_state crc view healthy"

abbreviation Rewritten ::
  "('f, 'w) base \<Rightarrow> page_heap \<Rightarrow> page_id list \<Rightarrow> leaf_entry list
     \<Rightarrow> revision \<times> lsn option \<times> lsn \<times> u64 \<times> superblock \<times> superblock_slot \<Rightarrow> ('f, 'w) overlay \<Rightarrow> bool"
where
  "Rewritten \<equiv> rewritten crc view healthy"

lemma split_leaf_outcome:
  assumes "Tree st0 V (plug ctx (GLeaf p es)) extra fs ov" "list_all frame_shape ctx"
    and "ordered (ctx_lo None ctx) (ctx_hi None ctx) (GLeaf p es')" "1 \<le> s" "s < length es'"
    and "leaf_fits (take s es')" "leaf_fits (drop s es')"
    and "V' = V(p \<mapsto> LeafPage lsn (Some q) (take s es'), q \<mapsto> LeafPage lsn (first_leaf (ctx_right ctx) None) (drop s es'))"
    and "Arena st0 V' (q # inner (plug ctx (GLeaf p es)) @ map fst (leaves (plug ctx (GLeaf p es))) @ extra) fs' ov'"
    and "ov_core ov' = ov_core ov"
  shows "outcome (\<lambda>_. Rewritten st0 V extra (leaf_entries (ctx_left ctx) @ es' @ leaf_entries (ctx_right ctx)) (ov_stamp ov))
    (Fails st0 {InvalidInput, InternalInvariantViolation})
    (insert_parent_separator crc ops (rev (map fst ctx) @ [p]) (le_key (es' ! s)) q lsn ov')"
proof -
  let ?rest = "map fst (ctx_left ctx) @ p # q # map fst (ctx_right ctx) @ extra"
  let ?ls = "ctx_left ctx @ (p, take s es') # (q, drop s es') # ctx_right ctx"
  note pend = leaf_split_pending [OF assms refl]
  have "Rewritten st0 V extra (leaf_entries (ctx_left ctx) @ es' @ leaf_entries (ctx_right ctx)) (ov_stamp ov) ov2"
    if built: "Rebuilt st0 V' ?rest ?ls (ov_stamp ov') ov2" for ov2
  proof -
    obtain U t fs2 where t: "Arena st0 U (inner t @ ?rest) fs2 ov2" "node_heap U t" "leaves t = ?ls" "ordered None None t"
      "ov_root_page_id ov2 = root_id t" "\<And>x. x \<in> set ?rest \<Longrightarrow> U x = V' x" "ov_stamp ov2 = ov_stamp ov'"
      using built unfolding rebuilt_def by blast
    have "leaf_links U ?ls None = leaf_links V' ?ls None" using t(6) by (intro leaf_links_cong) auto
    then have "Tree st0 U t extra fs2 ov2" using t pend(2) by (simp add: tree_state_def)
    then show ?thesis
    proof (rule rewrittenI)
      show "leaf_entries (leaves t) = leaf_entries (ctx_left ctx) @ es' @ leaf_entries (ctx_right ctx)" by (simp add: t(3))
      show "U x = V x" if "x \<in> set extra" for x using that t(6) pend(3) by simp
      show "ov_stamp ov2 = ov_stamp ov" using t(7) ov_coreD(2) [OF assms(10)] by simp
    qed
  qed
  then show ?thesis
    using insert_parent_loop_outcome [OF pend(1), of lsn]
    by (auto simp: insert_parent_separator_def butlast_append elim!: outcome_mono)
qed

lemma insert_leaf_entries_outcome:
  assumes "Tree st0 V (plug ctx (GLeaf p es)) extra fs ov" "list_all frame_shape ctx"
    and "ordered (ctx_lo None ctx) (ctx_hi None ctx) (GLeaf p es')"
    and "\<And>e. e \<in> set es' \<Longrightarrow> entry_le (ov_high_water_page_id ov) e"
  shows "outcome (\<lambda>_. Rewritten st0 V extra (leaf_entries (ctx_left ctx) @ es' @ leaf_entries (ctx_right ctx)) (ov_stamp ov))
    (Fails st0 {InvalidInput, InternalInvariantViolation})
    (insert_leaf_entries crc ops p (rev (map fst ctx) @ [p]) (first_leaf (ctx_right ctx) None) es' lsn ov)"
proof -
  let ?owned = "inner (plug ctx (GLeaf p es)) @ map fst (leaves (plug ctx (GLeaf p es))) @ extra"
  let ?nxt = "first_leaf (ctx_right ctx) None"
  note ar = tree_state_arena [OF assms(1)]
  have p: "p \<in> set ?owned" by simp
  have nxt: "ref_le (ov_high_water_page_id ov) ?nxt" by (rule next_leaf_allocated [OF ar]) auto
  have sound: "page_sound hw (LeafPage lsn r es1)"
    if "leaf_fits es1" "set es1 \<subseteq> set es'" "ref_le hw r" "ov_high_water_page_id ov \<le> hw" for hw r es1
    using that assms(4) by (auto simp: page_sound_leaf intro: entry_le_mono)
  show ?thesis
  proof (cases "leaf_fits es'")
    case True
    from arena_replace [OF ar p sound [OF True _ nxt]] show ?thesis
      unfolding insert_leaf_entries_def if_P [OF True]
      by (rule outcome_mono) (use leaf_fits_rewritten [OF assms(1-3) True refl] in auto)
  next
    case False
    show ?thesis
      unfolding insert_leaf_entries_def if_not_P [OF False]
      apply (rule outcome_bindS [where R = "\<lambda>s ov'. choose_leaf_split es' = Inr s \<and> ov' = ov"])
       apply (use arena_committed [OF ar] in \<open>auto simp: fails_def split: sum.splits dest: choose_leaf_split_error\<close>)[1]
      apply (elim conjE, hypsubst)
      subgoal for s
      proof -
        assume "choose_leaf_split es' = Inr s"
        then have s: "1 \<le> s" "s < length es'" "leaf_fits (take s es')" "leaf_fits (drop s es')"
          using choose_leaf_split_ok by auto
        have drop: "drop s es' = es' ! s # drop (Suc s) es'" using s(2) by (rule Cons_nth_drop_Suc [symmetric])
        show ?thesis
          apply (rule outcome_bindS)
           apply (rule outcome_fails_mono [OF arena_allocate [OF ar]], simp)
          apply (elim exE conjE, simp only: Let_def)
          subgoal for q ov2 fs2
            apply (simp only: drop list.case)
            apply (rule outcome_bindS)
             apply (rule arena_replace, assumption, simp)
             apply (rule sound [OF s(3)], simp add: set_take_subset, simp add: ref_le_def arena_range(2), assumption)
            apply (rule outcome_bindS)
             apply (elim conjE, rule arena_replace, assumption, simp)
             apply (rule sound [OF s(4) [unfolded drop]])
               apply (simp add: drop [symmetric] set_drop_subset)
              apply (use nxt in \<open>simp add: ref_le_mono\<close>)
             apply simp
            apply (elim conjE)
            subgoal premises prems
              using split_leaf_outcome [OF assms(1-3) s refl prems(5) [folded drop]] prems by simp
            done
          done
      qed
      done
  qed
qed

end

end
