(* ===== verification/Btree_Values.thy ===== *)
theory Btree_Values
  imports Btree_Heap
begin

text \<open>
  Values in a heap of pages. A value is inline in its entry or a chain of overflow pages; the
  theory shows that \<open>make_value\<close> writes a chain that \<open>read_value\<close> reads back, and that
  \<open>free_value\<close> returns exactly the pages of the chain to the free list.
\<close>

section \<open>Chains\<close>

fun chain :: "page_heap \<Rightarrow> u64 \<Rightarrow> page_id option \<Rightarrow> page_id list \<Rightarrow> bytes \<Rightarrow> bool" where
  "chain V len None [] bs \<longleftrightarrow> bs = []"
| "chain V len (Some p) (q # ps) bs \<longleftrightarrow> p = q \<and>
     (\<exists>lsn nxt chunk rest. V p = Some (OverflowPage lsn nxt len chunk) \<and> bs = chunk @ rest \<and> chain V len nxt ps rest)"
| "chain V len _ _ bs \<longleftrightarrow> False"

definition holds_value :: "page_heap \<Rightarrow> value_ref \<Rightarrow> page_id list \<Rightarrow> bytes \<Rightarrow> bool" where
  "holds_value V vref ps val =
     (case vref of
        Inline bs \<Rightarrow> ps = [] \<and> val = bs
      | Overflow head len \<Rightarrow>
          chain V len (Some head) ps val \<and> len = word_of_nat (length val) \<and> 0 < length val \<and>
          length val \<le> MAX_VALUE_SIZE \<and> length ps \<le> MAX_OVERFLOW_PAGES)"

lemma chain_cong: "(\<And>p. p \<in> set ps \<Longrightarrow> V' p = V p) \<Longrightarrow> chain V' len h ps bs = chain V len h ps bs"
  by (induction V len h ps bs rule: chain.induct) auto

lemma holds_value_cong:
  "(\<And>p. p \<in> set ps \<Longrightarrow> V' p = V p) \<Longrightarrow> holds_value V' vref ps val = holds_value V vref ps val"
  using chain_cong [of ps V' V] by (simp add: holds_value_def split: value_ref.splits)

lemma concat_chunks: "0 < n \<Longrightarrow> concat (chunks n xs) = xs"
  by (induction n xs rule: chunks.induct) (subst chunks.simps, auto)

lemma chunks_bounds: "c \<in> set (chunks n xs) \<Longrightarrow> c \<noteq> [] \<and> length c \<le> n"
  by (induction n xs rule: chunks.induct) (subst (asm) (2) chunks.simps, auto split: if_splits)

lemma length_chunks: "0 < n \<Longrightarrow> length (chunks n xs) = (length xs + n - 1) div n"
proof (induction n xs rule: chunks.induct)
  case (1 n xs)
  show ?case
  proof (cases "xs = []")
    case True
    then show ?thesis using 1(2) by (subst chunks.simps) simp
  next
    case False
    have "length (chunks n xs) = Suc (length (chunks n (drop n xs)))"
      using False 1(2) by (subst chunks.simps) simp
    also have "\<dots> = Suc ((length xs - n + n - 1) div n)" using 1 False by simp
    also have "\<dots> = (length xs + n - 1) div n"
    proof (cases "n \<le> length xs")
      case True
      then have "length xs + n - 1 = (length xs - 1) + n" "length xs - n + n - 1 = length xs - 1" using 1(2) by simp_all
      then show ?thesis using 1(2) by (simp only: div_add_self2 Suc_eq_plus1)
    next
      case less: False
      have "(length xs + n - 1) div n = 1" by (rule div_nat_eqI) (use 1(2) False less in \<open>cases xs; simp\<close>)+
      then show ?thesis using 1(2) less by simp
    qed
    finally show ?thesis .
  qed
qed

context page_store
begin

section \<open>Writing a chain\<close>

lemma allocate_pages_outcome:
  assumes "Arena st0 V owned fs ov"
  shows "outcome (\<lambda>ids ov'. \<exists>new fs'. ids = acc @ new \<and> length new = n \<and> Arena st0 V (new @ owned) fs' ov' \<and>
      ov_core ov' = ov_core ov \<and> ov_high_water_page_id ov \<le> ov_high_water_page_id ov')
    (Fails st0 {InternalInvariantViolation}) (allocate_pages crc ops n acc ov)"
  using assms
proof (induction n arbitrary: acc owned fs ov)
  case 0
  then show ?case by auto
next
  case (Suc n)
  show ?case
    unfolding allocate_pages.simps
    apply (rule outcome_bindS, rule arena_allocate [OF Suc.prems])
    apply (elim exE conjE)
    subgoal for pid ov1 fs1
      apply (rule outcome_mono [OF Suc.IH [of "pid # owned" fs1 ov1 "acc @ [pid]"]], assumption)
       apply (elim exE conjE)
      subgoal for ids ov2 new fs2
        using arena_perm [of "new @ pid # owned" "(pid # new) @ owned" crc view healthy st0 V fs2 ov2]
        by (rule_tac x = "pid # new" in exI, rule_tac x = fs2 in exI) (auto intro: order_trans)
      by simp
    done
qed

lemma write_overflow_pages_outcome:
  assumes "Arena st0 V owned fs ov" "length pids = length cs" "distinct pids" "set pids \<subseteq> set owned"
    and "len \<noteq> 0" "unat len \<le> MAX_VALUE_SIZE" "\<And>c. c \<in> set cs \<Longrightarrow> c \<noteq> [] \<and> length c \<le> OVERFLOW_DATA_SIZE"
  shows "outcome (\<lambda>_ ov'. \<exists>V'. Arena st0 V' owned fs ov' \<and> (\<forall>p. p \<notin> set pids \<longrightarrow> V' p = V p) \<and>
      chain V' len (case pids of [] \<Rightarrow> None | p # _ \<Rightarrow> Some p) pids (concat cs) \<and> ov_core ov' = ov_core ov \<and>
      ov_high_water_page_id ov' = ov_high_water_page_id ov)
    E (write_overflow_pages lsn len pids cs ov)"
  using assms
proof (induction pids arbitrary: V cs ov)
  case Nil
  then show ?case by auto
next
  case (Cons p pids)
  obtain c cs' where cs: "cs = c # cs'" using Cons.prems(2) by (cases cs) auto
  let ?nxt = "case pids of [] \<Rightarrow> None | nxt # _ \<Rightarrow> Some nxt"
  let ?page = "OverflowPage lsn ?nxt len c"
  have "ref_le (ov_high_water_page_id ov) ?nxt"
    using arena_range(2) [OF Cons.prems(1)] Cons.prems(4) by (cases pids) (auto simp: ref_le_def)
  then have sound: "page_sound (ov_high_water_page_id ov) ?page"
    using Cons.prems(5-7) cs by (auto simp: page_sound_overflow)
  let ?V = "V(p \<mapsto> ?page)"
  have fin: "(\<forall>x. x \<notin> set (p # pids) \<longrightarrow> V' x = V x) \<and> chain V' len (Some p) (p # pids) (c @ concat cs')"
    if "\<forall>x. x \<notin> set pids \<longrightarrow> V' x = ?V x" "chain V' len ?nxt pids (concat cs')" for V'
  proof -
    have "V' p = Some ?page" using that(1) Cons.prems(3) by simp
    then show ?thesis using that by auto
  qed
  have ih: "outcome (\<lambda>_ ov'. \<exists>V'. Arena st0 V' owned fs ov' \<and> (\<forall>x. x \<notin> set pids \<longrightarrow> V' x = ?V x) \<and>
      chain V' len ?nxt pids (concat cs') \<and> ov_core ov' = ov_core ov1 \<and>
      ov_high_water_page_id ov' = ov_high_water_page_id ov1) E (write_overflow_pages lsn len pids cs' ov1)"
    if "Arena st0 ?V owned fs ov1" for ov1
    by (rule Cons.IH [OF that]) (use Cons.prems cs in auto)
  show ?case
    unfolding cs write_overflow_pages.simps
    apply (rule outcome_bindS, rule arena_replace [OF Cons.prems(1) _ sound])
    using Cons.prems(4) apply simp
    apply (elim conjE, rule outcome_mono, erule ih)
    subgoal for u ov1 v ov2
      using fin by (elim exE conjE, rule_tac x = V' in exI) (simp del: fun_upd_apply)
    by assumption
qed

lemma write_chain_outcome:
  assumes "Arena st0 V (ids @ owned) fs ov" "length ids = length (chunks OVERFLOW_DATA_SIZE val)"
    and "0 < length val" "length val \<le> MAX_VALUE_SIZE" "length ids \<le> MAX_OVERFLOW_PAGES"
  shows "outcome (\<lambda>_ ov'. \<exists>V'. Arena st0 V' (ids @ owned) fs ov' \<and> (\<forall>p \<in> set owned. V' p = V p) \<and>
      holds_value V' (Overflow (hd ids) (word_of_nat (length val))) ids val \<and> ov_core ov' = ov_core ov \<and>
      ov_high_water_page_id ov' = ov_high_water_page_id ov)
    E (write_overflow_pages lsn (word_of_nat (length val)) ids (chunks OVERFLOW_DATA_SIZE val) ov)"
proof -
  let ?len = "word_of_nat (length val) :: u64"
  have len: "unat ?len = length val" using assms(4) by (simp add: unat_of_nat)
  then have nz: "?len \<noteq> 0" using assms(3) by (metis less_irrefl unat_0)
  have d: "distinct (ids @ owned)" by (rule arena_distinct [OF assms(1)])
  have "chunks OVERFLOW_DATA_SIZE val \<noteq> []" using assms(3) by (subst chunks.simps) simp
  then have ids: "ids \<noteq> []" using assms(2) by auto
  then have hd: "(case ids of [] \<Rightarrow> None | p # _ \<Rightarrow> Some p) = Some (hd ids)" by (cases ids) simp_all
  have con: "concat (chunks OVERFLOW_DATA_SIZE val) = val" by (rule concat_chunks) simp
  have wrote: "outcome (\<lambda>_ ov'. \<exists>V'. Arena st0 V' (ids @ owned) fs ov' \<and> (\<forall>p. p \<notin> set ids \<longrightarrow> V' p = V p) \<and>
      chain V' ?len (Some (hd ids)) ids val \<and> ov_core ov' = ov_core ov \<and>
      ov_high_water_page_id ov' = ov_high_water_page_id ov)
    E (write_overflow_pages lsn ?len ids (chunks OVERFLOW_DATA_SIZE val) ov)"
    using write_overflow_pages_outcome [OF assms(1,2) _ _ nz _ chunks_bounds, where E = E] d len assms(4)
    by (simp add: hd con)
  have "\<forall>p \<in> set owned. p \<notin> set ids" using d by auto
  then show ?thesis
    by (intro outcome_mono [OF wrote]) (use assms(3-5) in \<open>auto simp: holds_value_def\<close>)
qed

lemma make_value_outcome:
  assumes "Arena st0 V owned fs ov" "length val \<le> MAX_VALUE_SIZE"
  shows "outcome (\<lambda>vref ov'. \<exists>V' ps fs'. Arena st0 V' (ps @ owned) fs' ov' \<and> (\<forall>p \<in> set owned. V' p = V p) \<and>
      holds_value V' vref ps val \<and> ov_core ov' = ov_core ov \<and> ov_high_water_page_id ov \<le> ov_high_water_page_id ov')
    (Fails st0 {InvalidInput, InternalInvariantViolation}) (make_value crc ops val lsn ov)"
proof (cases "length val \<le> limit_inline_value (cfg_limits (st_config (ov_store ov))) \<and> length val \<le> INLINE_VALUE_LIMIT")
  case True
  then show ?thesis
    using assms(1) by (auto simp: make_value_def holds_value_def)
next
  case False
  let ?ids = "(length val + OVERFLOW_DATA_SIZE - 1) div OVERFLOW_DATA_SIZE"
  have pos: "0 < length val" using False by (cases val) auto
  have chunks: "length (chunks OVERFLOW_DATA_SIZE val) = ?ids" by (simp add: length_chunks)
  show ?thesis
  proof (cases "?ids > MAX_OVERFLOW_PAGES")
    case True
    show ?thesis
      unfolding make_value_def if_not_P [OF False] Let_def if_P [OF True]
      using arena_committed [OF assms(1)] by (simp add: fails_def)
  next
    case few: False
    have wrote: "outcome (\<lambda>_ ov'. \<exists>V'. Arena st0 V' (new @ owned) fs1 ov' \<and> (\<forall>p \<in> set owned. V' p = V p) \<and>
        holds_value V' (Overflow (hd new) (word_of_nat (length val))) new val \<and> ov_core ov' = ov_core ov1 \<and>
        ov_high_water_page_id ov' = ov_high_water_page_id ov1) E
      (write_overflow_pages lsn (word_of_nat (length val)) new (chunks OVERFLOW_DATA_SIZE val) ov1)"
      if "Arena st0 V (new @ owned) fs1 ov1" "length new = ?ids" for new fs1 ov1 E
      using write_chain_outcome [OF that(1)] that(2) chunks pos assms(2) few by simp
    have "outcome (\<lambda>vref ov'. \<exists>V' ps fs'. Arena st0 V' (ps @ owned) fs' ov' \<and> (\<forall>p \<in> set owned. V' p = V p) \<and>
        holds_value V' vref ps val \<and> ov_core ov' = ov_core ov \<and> ov_high_water_page_id ov \<le> ov_high_water_page_id ov')
      (Fails st0 {InvalidInput, InternalInvariantViolation})
      (bindS (allocate_pages crc ops ?ids []) (\<lambda>page_ids.
        bindS (write_overflow_pages lsn (word_of_nat (length val)) page_ids (chunks OVERFLOW_DATA_SIZE val)) (\<lambda>_.
          returnS (Overflow (hd page_ids) (word_of_nat (length val))))) ov)"
      apply (rule outcome_bindS, rule outcome_fails_mono, rule allocate_pages_outcome [OF assms(1)], simp)
      apply (elim exE conjE)
      subgoal for ids ov1 new fs1
        apply (simp only: append_Nil)
        apply (rule outcome_bindS, erule (1) wrote)
        by (simp only: outcome_returnS) metis
      done
    then show ?thesis unfolding make_value_def if_not_P [OF False] Let_def if_not_P [OF few] .
  qed
qed

section \<open>Reading and freeing a chain\<close>

lemma read_chain_outcome:
  assumes "Arena st0 V owned fs ov" "chain V len h ps bs" "distinct ps" "set ps \<inter> visited = {}"
    and "n + length ps \<le> MAX_OVERFLOW_PAGES"
  shows "outcome (\<lambda>out' ov'. out' = out @ bs \<and> Arena st0 V owned fs ov' \<and> ov_core ov' = ov_core ov \<and>
      ov_high_water_page_id ov' = ov_high_water_page_id ov)
    (Fails st0 {}) (read_chain crc ops len h visited out n ov)"
  using assms
proof (induction ps arbitrary: h visited out n bs ov)
  case Nil
  then show ?case by (cases h) simp_all
next
  case (Cons p ps)
  obtain lsn nxt chunk rest where h: "h = Some p" and V: "V p = Some (OverflowPage lsn nxt len chunk)"
    and bs: "bs = chunk @ rest" and tl: "chain V len nxt ps rest"
    using Cons.prems(2) by (cases h) auto
  have ok: "\<not> (p \<in> visited \<or> MAX_OVERFLOW_PAGES \<le> n)" using Cons.prems(4,5) by auto
  have ih: "outcome (\<lambda>out' ov'. out' = (out @ chunk) @ rest \<and> Arena st0 V owned fs ov' \<and> ov_core ov' = ov_core ov1 \<and>
      ov_high_water_page_id ov' = ov_high_water_page_id ov1)
    (Fails st0 {}) (read_chain crc ops len nxt (insert p visited) (out @ chunk) (n + 1) ov1)"
    if "Arena st0 V owned fs ov1" for ov1
    by (rule Cons.IH [OF that tl]) (use Cons.prems(3-5) in auto)
  show ?case
    unfolding h read_chain.simps if_not_P [OF ok]
    apply (rule outcome_case [OF arena_page [OF Cons.prems(1) V]])
     apply (elim conjE, simp only: page_data.case simp_thms if_False)
     apply (rule outcome_mono, erule ih)
    by (auto simp: bs)
qed

lemma read_value_outcome:
  assumes "Arena st0 V owned fs ov" "holds_value V vref ps val" "distinct ps"
  shows "outcome (\<lambda>out ov'. out = val \<and> Arena st0 V owned fs ov' \<and> ov_core ov' = ov_core ov \<and>
      ov_high_water_page_id ov' = ov_high_water_page_id ov) (Fails st0 {}) (read_value crc ops vref ov)"
proof (cases vref)
  case (Inline bs)
  then show ?thesis using assms(1,2) by (simp add: holds_value_def)
next
  case (Overflow head len)
  have val: "chain V len (Some head) ps val" "len = word_of_nat (length val)" "length ps \<le> MAX_OVERFLOW_PAGES"
    using assms(2) unfolding Overflow holds_value_def value_ref.case by blast+
  have run: "outcome (\<lambda>out' ov'. out' = [] @ val \<and> Arena st0 V owned fs ov' \<and> ov_core ov' = ov_core ov \<and>
      ov_high_water_page_id ov' = ov_high_water_page_id ov)
    (Fails st0 {}) (read_chain crc ops len (Some head) {} [] 0 ov)"
    by (rule read_chain_outcome [OF assms(1) val(1) assms(3)]) (use val(3) in auto)
  show ?thesis
    unfolding Overflow read_value.simps by (rule outcome_bindS, rule run) (auto simp: val(2))
qed

lemma arena_free_snd:
  assumes "Arena st0 V (pid # owned) fs ov"
  shows "\<exists>page. Arena st0 (V(pid \<mapsto> page)) owned (pid # fs) (snd (free_page pid lsn ov)) \<and>
    ov_core (snd (free_page pid lsn ov)) = ov_core ov \<and>
    ov_high_water_page_id (snd (free_page pid lsn ov)) = ov_high_water_page_id ov"
proof -
  obtain r ov' where run: "free_page pid lsn ov = (r, ov')" by (cases "free_page pid lsn ov") blast
  show ?thesis using arena_free [OF assms, of "\<lambda>_ _. False" lsn] run by (cases r) auto
qed

lemma free_chain_outcome:
  assumes "Arena st0 V (ps @ owned) fs ov" "chain V len h ps bs" "distinct ps" "set ps \<inter> visited = {}"
    and "n + length ps \<le> MAX_OVERFLOW_PAGES" "unat acc + length bs < 2 ^ 64"
  shows "outcome (\<lambda>acc' ov'. acc' = acc + word_of_nat (length bs) \<and>
      (\<exists>V' fs'. Arena st0 V' owned fs' ov' \<and> (\<forall>p \<in> set owned. V' p = V p)) \<and> ov_core ov' = ov_core ov \<and>
      ov_high_water_page_id ov' = ov_high_water_page_id ov)
    (Fails st0 {}) (free_chain crc ops len lsn h visited acc n ov)"
  using assms
proof (induction ps arbitrary: V fs h visited acc n bs ov)
  case Nil
  then show ?case by (cases h) auto
next
  case (Cons p ps)
  obtain lsn0 nxt chunk rest where h: "h = Some p" and V: "V p = Some (OverflowPage lsn0 nxt len chunk)"
    and bs: "bs = chunk @ rest" and tl: "chain V len nxt ps rest"
    using Cons.prems(2) by (cases h) auto
  have ok: "\<not> (p \<in> visited \<or> MAX_OVERFLOW_PAGES \<le> n)" using Cons.prems(4,5) by auto
  let ?acc = "acc + word_of_nat (length chunk)"
  have c: "unat (word_of_nat (length chunk) :: u64) = length chunk"
    using Cons.prems(6) bs by (simp add: unat_of_nat)
  have acc: "checked_add_u64 acc (word_of_nat (length chunk)) = Some ?acc" "unat ?acc = unat acc + length chunk"
    using Cons.prems(6) bs c by (simp_all add: checked_add_u64_def unat_word_ariths)
  have p: "p \<notin> set ps" "p \<notin> set owned" using arena_distinct [OF Cons.prems(1)] by auto
  have ih: "outcome (\<lambda>acc' ov'. acc' = ?acc + word_of_nat (length rest) \<and>
      (\<exists>V' fs'. Arena st0 V' owned fs' ov' \<and> (\<forall>q \<in> set owned. V' q = V q)) \<and> ov_core ov' = ov_core ov1 \<and>
      ov_high_water_page_id ov' = ov_high_water_page_id ov1)
    (Fails st0 {}) (free_chain crc ops len lsn nxt (insert p visited) ?acc (n + 1) (snd (free_page p lsn ov1)))"
    if ar: "Arena st0 V ((p # ps) @ owned) fs ov1" for ov1
  proof -
    obtain page where free: "Arena st0 (V(p \<mapsto> page)) (ps @ owned) (p # fs) (snd (free_page p lsn ov1))"
      "ov_core (snd (free_page p lsn ov1)) = ov_core ov1"
      "ov_high_water_page_id (snd (free_page p lsn ov1)) = ov_high_water_page_id ov1"
      using arena_free_snd [of st0 V p "ps @ owned" fs ov1 lsn] ar by auto
    have "chain (V(p \<mapsto> page)) len nxt ps rest = chain V len nxt ps rest" by (rule chain_cong) (use p in auto)
    then have "chain (V(p \<mapsto> page)) len nxt ps rest" using tl by simp
    from Cons.IH [OF free(1) this] show ?thesis
      by (rule outcome_mono) (use Cons.prems(3-6) acc(2) bs free(2,3) p in auto)
  qed
  show ?case
    unfolding h free_chain.simps if_not_P [OF ok]
    apply (rule outcome_case [OF arena_page [OF Cons.prems(1) V]])
     apply (elim conjE, simp only: page_data.case simp_thms if_False acc(1) option.case)
     apply (rule outcome_mono, erule ih)
    by (auto simp: bs)
qed

lemma free_value_outcome:
  assumes "Arena st0 V (ps @ owned) fs ov" "case vo of None \<Rightarrow> ps = [] | Some vref \<Rightarrow> holds_value V vref ps val"
  shows "outcome (\<lambda>_ ov'. (\<exists>V' fs'. Arena st0 V' owned fs' ov' \<and> (\<forall>p \<in> set owned. V' p = V p)) \<and> ov_core ov' = ov_core ov \<and>
      ov_high_water_page_id ov' = ov_high_water_page_id ov) (Fails st0 {}) (free_value crc ops vo lsn ov)"
proof (cases "\<exists>head len. vo = Some (Overflow head len)")
  case False
  then have "ps = []" using assms(2) by (auto simp: holds_value_def split: option.splits value_ref.splits)
  moreover have "free_value crc ops vo lsn ov = (Inr (), ov)"
    using False by (auto simp: free_value_def returnS_def split: option.splits value_ref.splits)
  ultimately show ?thesis using assms(1) by auto
next
  case True
  then obtain head len where vo: "vo = Some (Overflow head len)" by blast
  have val: "chain V len (Some head) ps val" "len = word_of_nat (length val)" "0 < length val"
    "length val \<le> MAX_VALUE_SIZE" "length ps \<le> MAX_OVERFLOW_PAGES"
    using assms(2) unfolding vo option.case holds_value_def value_ref.case by blast+
  have "unat len = length val" using val(2,4) by (simp add: unat_of_nat)
  then have len: "len \<noteq> 0" using val(3) by auto
  have d: "distinct ps" using arena_distinct [OF assms(1)] by auto
  have run: "outcome (\<lambda>acc' ov'. acc' = 0 + word_of_nat (length val) \<and>
      (\<exists>V' fs'. Arena st0 V' owned fs' ov' \<and> (\<forall>p \<in> set owned. V' p = V p)) \<and> ov_core ov' = ov_core ov \<and>
      ov_high_water_page_id ov' = ov_high_water_page_id ov)
    (Fails st0 {}) (free_chain crc ops len lsn (Some head) {} 0 0 ov)"
    by (rule free_chain_outcome [OF assms(1) val(1) d]) (use val in auto)
  show ?thesis
    unfolding vo free_value_def option.case value_ref.case
    by (rule outcome_bindS, rule run) (use len val(2) in auto)
qed

end

end
