(* ===== verification/Btree_Point.thy ===== *)
theory Btree_Point
  imports Btree_Leaf Btree_Values
begin

text \<open>
  Point operations on an overlay: the overlay represents a sorted map from encoded keys to revision
  states; \<open>get_observed_state\<close> looks a key up in it, \<open>ov_put\<close> and \<open>ov_delete\<close> update it.
\<close>

section \<open>The map of an overlay\<close>

text \<open>A cell is what an entry stands for: the pages of its value and the state of its key.\<close>

definition cell_ok :: "page_heap \<Rightarrow> leaf_entry \<Rightarrow> page_id list \<times> revision_state \<Rightarrow> bool" where
  "cell_ok V e c =
     (case le_value e of
        None \<Rightarrow> fst c = [] \<and> snd c = Missing (le_revision e)
      | Some vref \<Rightarrow> (\<exists>val. holds_value V vref (fst c) val \<and> snd c = Present val (le_revision e)))"

abbreviation cells_ok :: "page_heap \<Rightarrow> leaf_entry list \<Rightarrow> (page_id list \<times> revision_state) list \<Rightarrow> bool" where
  "cells_ok V \<equiv> list_all2 (cell_ok V)"

abbreviation cell_pages :: "(page_id list \<times> revision_state) list \<Rightarrow> page_id list" where
  "cell_pages cells \<equiv> concat (map fst cells)"

definition cell_map :: "leaf_entry list \<Rightarrow> (page_id list \<times> revision_state) list \<Rightarrow> (bytes, revision_state) bmap" where
  "cell_map es cells = zip (map le_key es) (map snd cells)"

definition represents ::
  "(bytes \<Rightarrow> u32) \<Rightarrow> ('f \<Rightarrow> bytes) \<Rightarrow> ('f \<Rightarrow> bool) \<Rightarrow> ('f, 'w) base \<Rightarrow> (bytes, revision_state) bmap \<Rightarrow> ('f, 'w) overlay \<Rightarrow> bool"
where
  "represents crc view healthy st0 db ov \<longleftrightarrow>
     (\<exists>V t cells fs. tree_state crc view healthy st0 V t (cell_pages cells) fs ov \<and>
        cells_ok V (leaf_entries (leaves t)) cells \<and> db = cell_map (leaf_entries (leaves t)) cells)"

lemma cell_ok_cong: "(\<And>p. p \<in> set (fst c) \<Longrightarrow> V' p = V p) \<Longrightarrow> cell_ok V' e c = cell_ok V e c"
  using holds_value_cong [of "fst c" V' V] by (simp add: cell_ok_def split: option.splits)

lemma cells_ok_cong:
  assumes "\<And>p. p \<in> set (cell_pages cells) \<Longrightarrow> V' p = V p"
  shows "cells_ok V' es cells = cells_ok V es cells"
  by (rule list.rel_cong [OF refl refl], rule cell_ok_cong) (use assms in auto)

lemma cell_map_append:
  "length es = length cells \<Longrightarrow> cell_map (es @ es') (cells @ cells') = cell_map es cells @ cell_map es' cells'"
  by (simp add: cell_map_def)

lemma cell_map_simps [simp]: "cell_map [] cells = []"
  "cell_map (e # es) (c # cells) = (le_key e, snd c) # cell_map es cells"
  by (simp_all add: cell_map_def)

lemma fst_set_cell_map: "fst ` set (cell_map es cells) \<subseteq> le_key ` set es"
  by (auto simp: cell_map_def set_zip)

lemma represents_wf:
  assumes "represents crc view healthy st0 db ov"
  shows "bm_wf db"
proof -
  obtain V t cells fs where st: "tree_state crc view healthy st0 V t (cell_pages cells) fs ov"
    and cells: "cells_ok V (leaf_entries (leaves t)) cells" and db: "db = cell_map (leaf_entries (leaves t)) cells"
    using assms by (auto simp: represents_def)
  have "map fst db = map le_key (leaf_entries (leaves t))"
    using list_all2_lengthD [OF cells] by (simp add: db cell_map_def)
  then show ?thesis using st ordered_entries(1) [of None None t] by (simp add: bm_wf_def tree_state_def)
qed

section \<open>Sorted insertion\<close>

lemma bm_insert_after: "(\<And>x. x \<in> fst ` set a \<Longrightarrow> x < k) \<Longrightarrow> bm_insert k v (a @ b) = a @ bm_insert k v b"
proof (induction a)
  case (Cons kv a)
  then have "fst kv < k" by auto
  then have "\<not> k < fst kv" "k \<noteq> fst kv" by auto
  then show ?case using Cons by (cases kv) auto
qed simp

lemma leaf_search_Inr:
  assumes "leaf_search key es = Inr i"
  shows "i < length es" "le_key (es ! i) = key" "e \<in> set (take i es) \<Longrightarrow> le_key e < key"
proof -
  have i: "i = length (takeWhile (\<lambda>e. le_key e < key) es)" "i < length es" "le_key (es ! i) = key"
    using assms by (auto simp: leaf_search_def Let_def split: if_splits)
  then show "i < length es" "le_key (es ! i) = key" by simp_all
  show "le_key e < key" if "e \<in> set (take i es)"
    using that takeWhile_eq_take [of "\<lambda>e. le_key e < key" es] i(1) by (metis set_takeWhileD)
qed

lemma leaf_search_Inl:
  assumes "leaf_search key es = Inl i"
  shows "i \<le> length es" "e \<in> set (take i es) \<Longrightarrow> le_key e < key" "drop i es = [] \<or> key < le_key (hd (drop i es))"
proof -
  have i: "i = length (takeWhile (\<lambda>e. le_key e < key) es)"
    using assms by (auto simp: leaf_search_def Let_def split: if_splits)
  then show "i \<le> length es" using length_takeWhile_le by simp
  show "le_key e < key" if "e \<in> set (take i es)"
    using that takeWhile_eq_take [of "\<lambda>e. le_key e < key" es] i by (metis set_takeWhileD)
  show "drop i es = [] \<or> key < le_key (hd (drop i es))"
  proof (cases "i < length es")
    case True
    then have "le_key (es ! i) \<noteq> key" "\<not> le_key (es ! i) < key"
      using assms i nth_length_takeWhile [of "\<lambda>e. le_key e < key" es] by (auto simp: leaf_search_def Let_def split: if_splits)
    then show ?thesis using True by (simp add: hd_drop_conv_nth)
  qed simp
qed

lemma cell_map_keys_less:
  "(\<And>e. e \<in> set es \<Longrightarrow> le_key e < k) \<Longrightarrow> x \<in> fst ` set (cell_map es cells) \<Longrightarrow> x < k"
  using fst_set_cell_map [of es cells] by auto

lemma take_drop_append: "take i xs @ drop i xs @ ys = xs @ ys"
  by (simp flip: append_assoc)

text \<open>Replacing the cell of a key that has one, and inserting one for a key that has none.\<close>

lemma cell_map_replace:
  assumes "length (l @ es @ r) = length (cl @ c @ cr)" "length l = length cl" "length es = length c"
    and "\<And>e. e \<in> set l \<Longrightarrow> le_key e < key" "leaf_search key es = Inr i" "le_key entry = key"
  shows "cell_map (l @ es[i := entry] @ r) (cl @ c[i := cell] @ cr) = bm_insert key (snd cell) (cell_map (l @ es @ r) (cl @ c @ cr))"
proof -
  note i = leaf_search_Inr [OF assms(5)]
  have es: "es = take i es @ es ! i # drop (Suc i) es" using i(1) by (rule id_take_nth_drop)
  have "i < length c" using i(1) assms(3) by simp
  then have c: "c = take i c @ c ! i # drop (Suc i) c" by (rule id_take_nth_drop)
  let ?a = "cell_map (l @ take i es) (cl @ take i c)"
  have "le_key e < key" if "e \<in> set (l @ take i es)" for e using that assms(4) i(3) by auto
  then have ins: "bm_insert key v (?a @ b) = ?a @ bm_insert key v b" for v b
    by (intro bm_insert_after) (rule cell_map_keys_less)
  have len: "length (l @ take i es) = length (cl @ take i c)" using assms(2,3) by simp
  have "cell_map (l @ (take i es @ es ! i # drop (Suc i) es) @ r) (cl @ (take i c @ c ! i # drop (Suc i) c) @ cr) =
      ?a @ (key, snd (c ! i)) # cell_map (drop (Suc i) es @ r) (drop (Suc i) c @ cr)"
    using cell_map_append [OF len, of "es ! i # drop (Suc i) es @ r" "c ! i # drop (Suc i) c @ cr"] i(2) by simp
  then have "cell_map (l @ es @ r) (cl @ c @ cr) = ?a @ (key, snd (c ! i)) # cell_map (drop (Suc i) es @ r) (drop (Suc i) c @ cr)"
    unfolding es [symmetric] c [symmetric] .
  moreover have "cell_map (l @ es[i := entry] @ r) (cl @ c[i := cell] @ cr) =
      ?a @ (key, snd cell) # cell_map (drop (Suc i) es @ r) (drop (Suc i) c @ cr)"
    using cell_map_append [OF len, of "entry # drop (Suc i) es @ r" "cell # drop (Suc i) c @ cr"] i(1) assms(3,6)
    by (simp add: upd_conv_take_nth_drop)
  ultimately show ?thesis by (simp add: ins)
qed

lemma cell_map_insert:
  assumes "length (l @ es @ r) = length (cl @ c @ cr)" "length l = length cl" "length es = length c"
    and "\<And>e. e \<in> set l \<Longrightarrow> le_key e < key" "\<And>e. e \<in> set r \<Longrightarrow> key < le_key e"
    and "leaf_search key es = Inl i" "le_key entry = key"
  shows "cell_map (l @ (take i es @ entry # drop i es) @ r) (cl @ (take i c @ cell # drop i c) @ cr) =
    bm_insert key (snd cell) (cell_map (l @ es @ r) (cl @ c @ cr))"
proof -
  note i = leaf_search_Inl [OF assms(6)]
  let ?a = "cell_map (l @ take i es) (cl @ take i c)" and ?b = "cell_map (drop i es @ r) (drop i c @ cr)"
  have "le_key e < key" if "e \<in> set (l @ take i es)" for e using that assms(4) i(2) by auto
  then have ins: "bm_insert key v (?a @ b) = ?a @ bm_insert key v b" for v b
    by (intro bm_insert_after) (rule cell_map_keys_less)
  have len: "length (l @ take i es) = length (cl @ take i c)" using assms(2,3) by simp
  have head: "?b = [] \<or> key < fst (hd ?b)"
  proof (cases "drop i es @ r")
    case (Cons e es')
    then have "key < le_key e" using i(3) assms(5) by (cases "drop i es") auto
    moreover obtain c0 c' where "drop i c @ cr = c0 # c'" using Cons assms(1-3) by (cases "drop i c @ cr") auto
    ultimately show ?thesis using Cons by simp
  qed simp
  have whole: "cell_map (l @ es @ r) (cl @ c @ cr) = ?a @ ?b"
    using cell_map_append [OF len, of "drop i es @ r" "drop i c @ cr"] by (simp add: take_drop_append)
  have "bm_insert key (snd cell) ?b = (key, snd cell) # ?b"
    using head by (cases ?b) auto
  then show ?thesis
    using cell_map_append [OF len, of "entry # drop i es @ r" "cell # drop i c @ cr"] assms(7)
    by (simp add: whole ins)
qed

section \<open>Looking a key up\<close>

definition db_get :: "(bytes, revision_state) bmap \<Rightarrow> bytes \<Rightarrow> revision_state" where
  "db_get db k = (case map_of db k of None \<Rightarrow> Missing 0 | Some s \<Rightarrow> s)"

lemma find_cell:
  "cells_ok V es cells \<Longrightarrow>
    (case find (\<lambda>e. le_key e = k) es of
       None \<Rightarrow> map_of (cell_map es cells) k = None
     | Some e \<Rightarrow> (\<exists>c \<in> set cells. cell_ok V e c \<and> map_of (cell_map es cells) k = Some (snd c)))"
  by (induction rule: list_all2_induct) (auto split: option.splits)

lemma find_append_None: "(\<And>x. x \<in> set xs \<Longrightarrow> \<not> P x) \<Longrightarrow> find P (xs @ ys) = find P ys"
  by (induction xs) auto

lemma find_middle:
  assumes "\<And>e. e \<in> set l \<Longrightarrow> le_key e < k" "\<And>e. e \<in> set r \<Longrightarrow> k < le_key e"
  shows "find (\<lambda>e. le_key e = k) (l @ es @ r) = find (\<lambda>e. le_key e = k) es"
proof -
  have "find (\<lambda>e. le_key e = k) (es @ r) = find (\<lambda>e. le_key e = k) es"
    using assms(2) by (induction es) (auto simp: find_None_iff)
  then show ?thesis using find_append_None [of l "\<lambda>e. le_key e = k" "es @ r"] assms(1) by auto
qed

lemma tree_state_leaf:
  assumes "tree_state crc view healthy st0 V (plug ctx (GLeaf p es)) extra fs ov"
  shows "\<exists>lsn. V p = Some (LeafPage lsn (first_leaf (ctx_right ctx) None) es)"
  using assms by (simp add: tree_state_def leaf_links_middle del: leaf_links.simps)

lemma tree_state_position:
  assumes "tree_state crc view healthy st0 V (plug ctx (GLeaf p es)) extra fs ov" "list_all frame_shape ctx"
    and "within (ctx_lo None ctx) (ctx_hi None ctx) key"
  shows "\<And>e. e \<in> set (leaf_entries (ctx_left ctx)) \<Longrightarrow> le_key e < key"
    and "\<And>e. e \<in> set (leaf_entries (ctx_right ctx)) \<Longrightarrow> key < le_key e"
    and "ordered (ctx_lo None ctx) (ctx_hi None ctx) (GLeaf p es)"
proof -
  have "ctx_ordered None None ctx \<and> ordered (ctx_lo None ctx) (ctx_hi None ctx) (GLeaf p es)"
    using assms(1) ordered_plug [OF assms(2)] by (simp add: tree_state_def)
  then show "\<And>e. e \<in> set (leaf_entries (ctx_left ctx)) \<Longrightarrow> le_key e < key"
    "\<And>e. e \<in> set (leaf_entries (ctx_right ctx)) \<Longrightarrow> key < le_key e"
    "ordered (ctx_lo None ctx) (ctx_hi None ctx) (GLeaf p es)"
    using ctx_position [OF assms(2) _ assms(3)] by auto
qed

lemma tree_state_same:
  assumes "tree_state crc view healthy st0 V t extra fs ov"
    and "arena crc view healthy st0 V (inner t @ map fst (leaves t) @ extra) fs ov'" "ov_core ov' = ov_core ov"
  shows "tree_state crc view healthy st0 V t extra fs ov'"
  using assms ov_coreD(1) [OF assms(3)] by (simp add: tree_state_def)

lemma representsI:
  assumes "tree_state crc view healthy st0 V t (cell_pages cells) fs ov" "cells_ok V (leaf_entries (leaves t)) cells"
    and "db = cell_map (leaf_entries (leaves t)) cells"
  shows "represents crc view healthy st0 db ov"
  using assms unfolding represents_def by blast

context page_store
begin

abbreviation Represents ::
  "('f, 'w) base \<Rightarrow> (bytes, revision_state) bmap \<Rightarrow> ('f, 'w) overlay \<Rightarrow> bool"
where
  "Represents \<equiv> represents crc view healthy"

lemma find_leaf_tree:
  assumes "Tree st0 V t extra fs ov"
  shows "outcome (\<lambda>(leaf_id, route) ov'. \<exists>ctx es. t = plug ctx (GLeaf leaf_id es) \<and>
      route = rev (map fst ctx) @ [leaf_id] \<and> list_all frame_shape ctx \<and>
      within (ctx_lo None ctx) (ctx_hi None ctx) key \<and> Tree st0 V t extra fs ov' \<and> ov_core ov' = ov_core ov)
    (Fails st0 {}) (find_leaf crc ops key ov)"
  by (rule outcome_mono [OF find_leaf_outcome [OF tree_state_arena [OF assms] tree_state_heap [OF assms]]])
    (use assms tree_state_same [OF assms] in \<open>auto simp: tree_state_def\<close>)

lemma ov_leaf_tree:
  assumes "Tree st0 V (plug ctx (GLeaf p es)) extra fs ov"
  shows "outcome (\<lambda>r ov'. r = (first_leaf (ctx_right ctx) None, es) \<and> Tree st0 V (plug ctx (GLeaf p es)) extra fs ov' \<and>
      ov_core ov' = ov_core ov) (Fails st0 {}) (ov_leaf crc ops p ov)"
proof -
  obtain lsn where V: "V p = Some (LeafPage lsn (first_leaf (ctx_right ctx) None) es)"
    using tree_state_leaf [OF assms] by blast
  show ?thesis
    by (rule outcome_mono [OF ov_leaf_outcome [OF tree_state_arena [OF assms] V]])
      (use tree_state_same [OF assms] in auto)
qed

lemma get_observed_state_outcome:
  assumes "Represents st0 db ov" "length (document_key_encode key) \<le> MAX_ENCODED_KEY_SIZE"
  shows "outcome (\<lambda>r ov'. r = observed (db_get db (document_key_encode key)) \<and> Represents st0 db ov' \<and>
      ov_core ov' = ov_core ov) (Fails st0 {}) (get_observed_state crc ops key ov)"
proof -
  obtain V t cells fs where st: "Tree st0 V t (cell_pages cells) fs ov"
    and cells: "cells_ok V (leaf_entries (leaves t)) cells" and db: "db = cell_map (leaf_entries (leaves t)) cells"
    using assms(1) by (auto simp: represents_def)
  let ?k = "document_key_encode key"
  have valid: "validate_encoded_key ?k = Inr ()" using assms(2) by (simp add: validate_encoded_key_def)
  have lookup: "(case find (\<lambda>e. le_key e = ?k) es of None \<Rightarrow> returnS (ObservedMissing 0)
      | Some e \<Rightarrow> if le_value e \<noteq> None then returnS (ObservedPresent (le_revision e))
          else returnS (ObservedMissing (le_revision e))) ov' = (Inr (observed (db_get db ?k)), ov')"
    if t: "t = plug ctx (GLeaf p es)" "list_all frame_shape ctx" "within (ctx_lo None ctx) (ctx_hi None ctx) ?k"
    for ctx p es and ov' :: "('f, 'a) overlay"
  proof -
    have "find (\<lambda>e. le_key e = ?k) (leaf_entries (leaves t)) = find (\<lambda>e. le_key e = ?k) es"
      using find_middle [OF tree_state_position(1,2) [OF st [unfolded t(1)] t(2,3)]] by (simp add: t(1))
    then show ?thesis
      using find_cell [OF cells, of ?k]
      by (auto simp: db db_get_def cell_ok_def returnS_def split: option.splits)
  qed
  show ?thesis
    unfolding get_observed_state_def Let_def
    apply (rule outcome_bindS [where R = "\<lambda>_ ov'. ov' = ov"], simp add: valid)
    apply (hypsubst, rule outcome_bindS, rule find_leaf_tree [OF st])
    subgoal premises prems for u s1 r ov1
    proof -
      obtain leaf_id route where r: "r = (leaf_id, route)" by force
      obtain ctx es where t: "t = plug ctx (GLeaf leaf_id es)" and shape: "list_all frame_shape ctx"
        and key: "within (ctx_lo None ctx) (ctx_hi None ctx) ?k" and st1: "Tree st0 V t (cell_pages cells) fs ov1"
        and core: "ov_core ov1 = ov_core ov"
        using prems r by auto
      show ?thesis
        unfolding r prod.case
        apply (rule outcome_bindS, rule ov_leaf_tree [OF st1 [unfolded t]])
        apply (elim conjE, simp only: prod.case lookup [OF t shape key] outcome_simps)
        using representsI [OF _ cells db] core by (simp add: t)
    qed
    done
qed

end

end
