(* ===== verification/Btree_Update.thy ===== *)
theory Btree_Update
  imports Btree_Point
begin

text \<open>
  \<open>ov_put\<close> and \<open>ov_delete\<close> update the map an overlay represents, whether the key had an entry or
  not, whether its leaf has to be split or not, and however its old and new values are stored.
\<close>

section \<open>Framing\<close>

lemma bindS_assoc: "bindS (bindS m f) g = bindS m (\<lambda>x. bindS (f x) g)"
  by (auto simp: bindS_def fun_eq_iff split: prod.splits sum.splits)

lemma rewritten_stamp: "rewritten crc view healthy st0 V extra es stamp ov \<Longrightarrow> ov_stamp ov = stamp"
  by (auto simp: rewritten_def)

lemma tree_state_perm:
  assumes "mset extra = mset extra'"
  shows "tree_state crc view healthy st0 V t extra fs ov = tree_state crc view healthy st0 V t extra' fs ov"
  using arena_perm [of "inner t @ map fst (leaves t) @ extra" "inner t @ map fst (leaves t) @ extra'"
      crc view healthy st0 V fs ov] assms
  by (simp add: tree_state_def)

lemma tree_state_frame:
  assumes "tree_state crc view healthy st0 V t extra fs ov"
    and "arena crc view healthy st0 V' (inner t @ map fst (leaves t) @ extra') fs' ov'" "ov_core ov' = ov_core ov"
    and "\<And>p. p \<in> set (inner t @ map fst (leaves t)) \<Longrightarrow> V' p = V p"
  shows "tree_state crc view healthy st0 V' t extra' fs' ov'"
proof -
  have "node_heap V' t = node_heap V t" by (rule node_heap_cong) (use assms(4) in simp)
  moreover have "leaf_links V' (leaves t) None = leaf_links V (leaves t) None"
    by (rule leaf_links_cong) (use assms(4) in auto)
  ultimately show ?thesis using assms(1,2) ov_coreD(1) [OF assms(3)] by (simp add: tree_state_def)
qed

lemma chain_head: "chain V len (Some head) ps bs \<Longrightarrow> head \<in> set ps"
  by (cases ps) auto

lemma entry_le_cell:
  assumes "cell_ok V e (ps, s)" "arena crc view healthy st0 V owned fs ov" "set ps \<subseteq> set owned"
  shows "entry_le (ov_high_water_page_id ov) e"
proof (cases "\<exists>head len. le_value e = Some (Overflow head len)")
  case True
  then obtain head len where e: "le_value e = Some (Overflow head len)" by blast
  then obtain val where val: "chain V len (Some head) ps val" "len = word_of_nat (length val)" "0 < length val"
    "length val \<le> MAX_VALUE_SIZE"
    using assms(1) by (auto simp: cell_ok_def holds_value_def)
  have "unat len = length val" using val(2,4) by (simp add: unat_of_nat)
  moreover have "head \<le> ov_high_water_page_id ov"
    by (rule arena_range(2) [OF assms(2)]) (use chain_head [OF val(1)] assms(3) in auto)
  ultimately show ?thesis using e val(3,4) by (cases "len = 0") (auto simp: entry_le_def word_gt_0)
next
  case False
  then show ?thesis by (auto simp: entry_le_def split: option.splits value_ref.splits)
qed

lemma entries_le:
  assumes "cells_ok V es cells" "arena crc view healthy st0 V owned fs ov" "set (cell_pages cells) \<subseteq> set owned"
    and "e \<in> set es"
  shows "entry_le (ov_high_water_page_id ov) e"
proof -
  obtain i where "i < length es" "e = es ! i" using assms(4) by (auto simp: in_set_conv_nth)
  moreover define c where "c = cells ! i"
  ultimately have "c \<in> set cells" "cell_ok V e c" using assms(1) by (auto simp: list_all2_conv_all_nth)
  then show ?thesis using entry_le_cell [OF _ assms(2), of e "fst c" "snd c"] assms(3) by auto
qed

lemma cells_split:
  assumes "cells_ok V (l @ es @ r) cells"
  obtains cl c cr where "cells = cl @ c @ cr" "cells_ok V l cl" "cells_ok V es c" "cells_ok V r cr"
  using assms by (auto simp: list_all2_append1)

context page_store
begin

lemma make_value_tree:
  assumes "Tree st0 V t extra fs ov" "length val \<le> MAX_VALUE_SIZE"
  shows "outcome (\<lambda>vref ov'. \<exists>V' ps fs'. Tree st0 V' t (ps @ extra) fs' ov' \<and> (\<forall>p \<in> set extra. V' p = V p) \<and>
      holds_value V' vref ps val \<and> ov_core ov' = ov_core ov)
    (Fails st0 {InvalidInput, InternalInvariantViolation}) (make_value crc ops val lsn ov)"
proof -
  have "Tree st0 V' t (ps @ extra) fs' ov'"
    if "Arena st0 V' (ps @ inner t @ map fst (leaves t) @ extra) fs' ov'" "ov_core ov' = ov_core ov"
      and "\<forall>p \<in> set (inner t @ map fst (leaves t) @ extra). V' p = V p" for V' ps fs' ov'
  proof (rule tree_state_frame [OF assms(1) _ that(2)])
    have "mset (ps @ inner t @ map fst (leaves t) @ extra) = mset (inner t @ map fst (leaves t) @ ps @ extra)" by simp
    then show "Arena st0 V' (inner t @ map fst (leaves t) @ ps @ extra) fs' ov'" using arena_perm that(1) by blast
  qed (use that(3) in auto)
  then show ?thesis
    by (intro outcome_mono [OF make_value_outcome [OF tree_state_arena [OF assms(1)] assms(2)]])
      (simp_all, meson UnCI)
qed

lemma free_value_tree:
  assumes "Tree st0 V t (ps @ extra) fs ov" "case vo of None \<Rightarrow> ps = [] | Some vref \<Rightarrow> holds_value V vref ps val"
  shows "outcome (\<lambda>_ ov'. \<exists>V' fs'. Tree st0 V' t extra fs' ov' \<and> (\<forall>p \<in> set extra. V' p = V p) \<and> ov_core ov' = ov_core ov)
    (Fails st0 {}) (free_value crc ops vo lsn ov)"
proof -
  have "mset (inner t @ map fst (leaves t) @ ps @ extra) = mset (ps @ inner t @ map fst (leaves t) @ extra)" by simp
  then have "Arena st0 V (ps @ inner t @ map fst (leaves t) @ extra) fs ov"
    using arena_perm tree_state_arena [OF assms(1)] by blast
  note run = free_value_outcome [OF this assms(2), of lsn]
  have "Tree st0 V' t extra fs' ov'"
    if "Arena st0 V' (inner t @ map fst (leaves t) @ extra) fs' ov'" "ov_core ov' = ov_core ov"
      and "\<forall>p \<in> set (inner t @ map fst (leaves t) @ extra). V' p = V p" for V' fs' ov'
    by (rule tree_state_frame [OF assms(1) that(1,2)]) (use that(3) in auto)
  then show ?thesis by (intro outcome_mono [OF run]) (simp_all, meson UnCI)
qed

end

section \<open>A new cell\<close>

text \<open>The state in which a cell \<open>(ps, s)\<close> has been made for a key and its leaf found.\<close>

definition staged ::
  "(bytes \<Rightarrow> u32) \<Rightarrow> ('f \<Rightarrow> bytes) \<Rightarrow> ('f \<Rightarrow> bool) \<Rightarrow> ('f, 'w) base \<Rightarrow> page_heap \<Rightarrow> frame list \<Rightarrow> page_id
     \<Rightarrow> leaf_entry list \<Rightarrow> (page_id list \<times> revision_state) list \<Rightarrow> leaf_entry \<Rightarrow> page_id list \<times> revision_state
     \<Rightarrow> page_id list \<Rightarrow> ('f, 'w) overlay \<Rightarrow> bool"
where
  "staged crc view healthy st0 V ctx p es cells entry cell fs ov \<longleftrightarrow>
     tree_state crc view healthy st0 V (plug ctx (GLeaf p es)) (fst cell @ cell_pages cells) fs ov \<and>
     list_all frame_shape ctx \<and> within (ctx_lo None ctx) (ctx_hi None ctx) (le_key entry) \<and>
     cells_ok V (leaf_entries (ctx_left ctx) @ es @ leaf_entries (ctx_right ctx)) cells \<and> cell_ok V entry cell"

lemma staged_le:
  assumes "staged crc view healthy st0 V ctx p es cells entry cell fs ov" "e \<in> insert entry (set es)"
  shows "entry_le (ov_high_water_page_id ov) e"
proof -
  let ?es = "leaf_entries (ctx_left ctx) @ es @ leaf_entries (ctx_right ctx)"
  have "cells_ok V (entry # ?es) (cell # cells)" using assms(1) by (simp add: staged_def)
  moreover have "arena crc view healthy st0 V
      (inner (plug ctx (GLeaf p es)) @ map fst (leaves (plug ctx (GLeaf p es))) @ fst cell @ cell_pages cells) fs ov"
    using assms(1) by (simp add: staged_def tree_state_def)
  ultimately show ?thesis by (rule entries_le) (use assms(2) in auto)
qed

lemma stagedD:
  assumes "staged crc view healthy st0 V ctx p es cells entry cell fs ov"
  shows "tree_state crc view healthy st0 V (plug ctx (GLeaf p es)) (fst cell @ cell_pages cells) fs ov"
    and "list_all frame_shape ctx" "within (ctx_lo None ctx) (ctx_hi None ctx) (le_key entry)"
    and "cells_ok V (leaf_entries (ctx_left ctx) @ es @ leaf_entries (ctx_right ctx)) cells" "cell_ok V entry cell"
    and "ordered (ctx_lo None ctx) (ctx_hi None ctx) (GLeaf p es)"
    and "\<And>e. e \<in> set (leaf_entries (ctx_left ctx)) \<Longrightarrow> le_key e < le_key entry"
    and "\<And>e. e \<in> set (leaf_entries (ctx_right ctx)) \<Longrightarrow> le_key entry < le_key e"
proof -
  show st: "tree_state crc view healthy st0 V (plug ctx (GLeaf p es)) (fst cell @ cell_pages cells) fs ov"
    and sh: "list_all frame_shape ctx" and wi: "within (ctx_lo None ctx) (ctx_hi None ctx) (le_key entry)"
    and "cells_ok V (leaf_entries (ctx_left ctx) @ es @ leaf_entries (ctx_right ctx)) cells" "cell_ok V entry cell"
    using assms by (simp_all add: staged_def)
  note pos = tree_state_position [OF st sh wi]
  show "ordered (ctx_lo None ctx) (ctx_hi None ctx) (GLeaf p es)" by (rule pos(3))
  show "\<And>e. e \<in> set (leaf_entries (ctx_left ctx)) \<Longrightarrow> le_key e < le_key entry"
    "\<And>e. e \<in> set (leaf_entries (ctx_right ctx)) \<Longrightarrow> le_key entry < le_key e"
    by (fact pos(1), fact pos(2))
qed

lemma staged_replace_ordered:
  assumes "staged crc view healthy st0 V ctx p es cells entry cell fs ov" "leaf_search (le_key entry) es = Inr i"
  shows "ordered (ctx_lo None ctx) (ctx_hi None ctx) (GLeaf p (es[i := entry]))"
proof -
  note i = leaf_search_Inr [OF assms(2)]
  note ord = stagedD(6) [OF assms(1)] and key = stagedD(3) [OF assms(1)]
  have "map le_key (es[i := entry]) = map le_key es" using i by (simp add: map_update list_update_same_conv)
  then show ?thesis using ord key set_update_subset_insert [of es i entry] by auto
qed

lemma staged_insert_ordered:
  assumes "staged crc view healthy st0 V ctx p es cells entry cell fs ov" "leaf_search (le_key entry) es = Inl i"
  shows "ordered (ctx_lo None ctx) (ctx_hi None ctx) (GLeaf p (take i es @ entry # drop i es))"
proof -
  note i = leaf_search_Inl [OF assms(2)]
  note ord = stagedD(6) [OF assms(1)] and key = stagedD(3) [OF assms(1)]
  have "sorted_wrt (<) (map le_key (take i es @ drop i es))" using ord by simp
  then have sorted: "sorted_wrt (<) (map le_key (take i es))" "sorted_wrt (<) (map le_key (drop i es))"
    "\<And>x y. x \<in> set (take i es) \<Longrightarrow> y \<in> set (drop i es) \<Longrightarrow> le_key x < le_key y"
    unfolding map_append sorted_wrt_append by auto
  have "le_key entry < le_key e" if e: "e \<in> set (drop i es)" for e
  proof -
    obtain d ds where d: "drop i es = d # ds" using e by (cases "drop i es") auto
    then show ?thesis using e i(3) sorted(2) by (auto intro: less_trans)
  qed
  then show ?thesis
    using ord key sorted i(2) by (auto simp: sorted_wrt_append intro: less_trans dest: in_set_takeD in_set_dropD)
qed

context page_store
begin

abbreviation Staged ::
  "('f, 'w) base \<Rightarrow> page_heap \<Rightarrow> frame list \<Rightarrow> page_id \<Rightarrow> leaf_entry list \<Rightarrow> (page_id list \<times> revision_state) list
     \<Rightarrow> leaf_entry \<Rightarrow> page_id list \<times> revision_state \<Rightarrow> page_id list \<Rightarrow> ('f, 'w) overlay \<Rightarrow> bool"
where
  "Staged \<equiv> staged crc view healthy"

lemma insert_cell_outcome:
  assumes "Staged st0 V ctx p es cells entry cell fs ov" "leaf_search (le_key entry) es = Inl i"
    and "db = cell_map (leaf_entries (ctx_left ctx) @ es @ leaf_entries (ctx_right ctx)) cells"
  shows "outcome (\<lambda>_ ov'. Represents st0 (bm_insert (le_key entry) (snd cell) db) ov' \<and> ov_stamp ov' = ov_stamp ov)
    (Fails st0 {InvalidInput, InternalInvariantViolation})
    (insert_leaf_entries crc ops p (rev (map fst ctx) @ [p]) (first_leaf (ctx_right ctx) None) (take i es @ entry # drop i es) lsn ov)"
proof -
  let ?l = "leaf_entries (ctx_left ctx)" and ?r = "leaf_entries (ctx_right ctx)"
  note st = stagedD [OF assms(1)]
  obtain cl c cr where cells: "cells = cl @ c @ cr" "cells_ok V ?l cl" "cells_ok V es c" "cells_ok V ?r cr"
    using cells_split [OF st(4)] .
  note len = list_all2_lengthD [OF cells(2)] list_all2_lengthD [OF cells(3)] list_all2_lengthD [OF cells(4)]
  let ?cells = "cl @ (take i c @ cell # drop i c) @ cr" and ?es = "?l @ (take i es @ entry # drop i es) @ ?r"
  have db: "cell_map ?es ?cells = bm_insert (le_key entry) (snd cell) db"
    unfolding assms(3) cells(1) by (rule cell_map_insert) (use len st(7,8) assms(2) in simp_all)
  have ok: "cells_ok V ?es ?cells"
    using cells st(5) by (auto intro!: list_all2_appendI list_all2_takeI list_all2_dropI)
  have perm: "mset (fst cell @ cell_pages cells) = mset (cell_pages ?cells)"
  proof -
    have "mset (cell_pages c) = mset (cell_pages (take i c)) + mset (cell_pages (drop i c))"
      by (simp flip: mset_append concat_append map_append)
    then show ?thesis by (simp add: cells(1))
  qed
  have le: "entry_le (ov_high_water_page_id ov) e" if "e \<in> set (take i es @ entry # drop i es)" for e
    using staged_le [OF assms(1)] that by (auto dest: in_set_takeD in_set_dropD)
  have fin: "Represents st0 (bm_insert (le_key entry) (snd cell) db) ov'"
    if new: "Rewritten st0 V (fst cell @ cell_pages cells) ?es (ov_stamp ov) ov'" for ov'
  proof -
    obtain V' t fs' where t: "Tree st0 V' t (fst cell @ cell_pages cells) fs' ov'" "leaf_entries (leaves t) = ?es"
      "\<forall>q \<in> set (fst cell @ cell_pages cells). V' q = V q"
      using new unfolding rewritten_def by blast
    have "Tree st0 V' t (cell_pages ?cells) fs' ov'" using t(1) tree_state_perm [OF perm] by blast
    moreover have "cells_ok V' ?es ?cells"
      using cells_ok_cong [of ?cells V' V ?es] ok t(3) mset_eq_setD [OF perm] by blast
    ultimately show ?thesis using representsI [of crc view healthy st0 V' t ?cells] db t(2) by simp
  qed
  show ?thesis
    by (rule outcome_mono [OF insert_leaf_entries_outcome [OF st(1,2) staged_insert_ordered [OF assms(1,2)]]])
      (blast intro: fin le rewritten_stamp)+
qed

lemma replace_cell_outcome:
  assumes "Staged st0 V ctx p es cells entry cell fs ov" "leaf_search (le_key entry) es = Inr i"
    and "db = cell_map (leaf_entries (ctx_left ctx) @ es @ leaf_entries (ctx_right ctx)) cells"
  shows "outcome (\<lambda>_ ov'. Represents st0 (bm_insert (le_key entry) (snd cell) db) ov' \<and> ov_stamp ov' = ov_stamp ov)
    (Fails st0 {InvalidInput, InternalInvariantViolation})
    (bindS (insert_leaf_entries crc ops p (rev (map fst ctx) @ [p]) (first_leaf (ctx_right ctx) None) (es[i := entry]) lsn)
      (\<lambda>_. free_value crc ops (le_value (es ! i)) lsn) ov)"
proof -
  let ?l = "leaf_entries (ctx_left ctx)" and ?r = "leaf_entries (ctx_right ctx)"
  note st = stagedD [OF assms(1)]
  note i = leaf_search_Inr [OF assms(2)]
  obtain cl c cr where cells: "cells = cl @ c @ cr" "cells_ok V ?l cl" "cells_ok V es c" "cells_ok V ?r cr"
    using cells_split [OF st(4)] .
  note len = list_all2_lengthD [OF cells(2)] list_all2_lengthD [OF cells(3)] list_all2_lengthD [OF cells(4)]
  let ?cells = "cl @ c[i := cell] @ cr" and ?es = "?l @ es[i := entry] @ ?r" and ?old = "fst (c ! i)"
  have ic: "i < length c" using i(1) len(2) by simp
  have db: "cell_map ?es ?cells = bm_insert (le_key entry) (snd cell) db"
    unfolding assms(3) cells(1) by (rule cell_map_replace) (use len st(7) assms(2) in simp_all)
  have ok: "cells_ok V ?es ?cells"
    using cells st(5) by (auto intro!: list_all2_appendI list_all2_update_cong)
  have perm: "mset (fst cell @ cell_pages cells) = mset (?old @ cell_pages ?cells)"
  proof -
    have "c = take i c @ c ! i # drop (Suc i) c" using ic by (rule id_take_nth_drop)
    then have "mset (cell_pages c) = mset (cell_pages (take i c @ c ! i # drop (Suc i) c))" by simp
    then show ?thesis using ic by (simp add: cells(1) upd_conv_take_nth_drop)
  qed
  have old: "case le_value (es ! i) of None \<Rightarrow> ?old = [] | Some vref \<Rightarrow> \<exists>val. holds_value V vref ?old val"
    using list_all2_nthD [OF cells(3) i(1)] by (auto simp: cell_ok_def split: option.splits)
  have le: "entry_le (ov_high_water_page_id ov) e" if "e \<in> set (es[i := entry])" for e
    using staged_le [OF assms(1)] that set_update_subset_insert [of es i entry] by auto
  have fin: "outcome (\<lambda>_ ov'. Represents st0 (bm_insert (le_key entry) (snd cell) db) ov' \<and> ov_stamp ov' = ov_stamp ov)
      (Fails st0 {InvalidInput, InternalInvariantViolation}) (free_value crc ops (le_value (es ! i)) lsn ov1)"
    if new: "Rewritten st0 V (fst cell @ cell_pages cells) ?es (ov_stamp ov) ov1" for ov1
  proof -
    obtain V' t fs' where t: "Tree st0 V' t (fst cell @ cell_pages cells) fs' ov1" "leaf_entries (leaves t) = ?es"
      "\<forall>q \<in> set (fst cell @ cell_pages cells). V' q = V q"
      using new unfolding rewritten_def by blast
    have t1: "Tree st0 V' t (?old @ cell_pages ?cells) fs' ov1" using t(1) tree_state_perm [OF perm] by blast
    have frame: "V' q = V q" if "q \<in> set (?old @ cell_pages ?cells)" for q
      using t(3) that mset_eq_setD [OF perm] by blast
    have "\<exists>val. case le_value (es ! i) of None \<Rightarrow> ?old = [] | Some vref \<Rightarrow> holds_value V' vref ?old val"
      using old holds_value_cong [of ?old V' V] frame by (auto split: option.splits)
    then obtain val where "case le_value (es ! i) of None \<Rightarrow> ?old = [] | Some vref \<Rightarrow> holds_value V' vref ?old val" by blast
    note run = free_value_tree [OF t1 this]
    have "Represents st0 (bm_insert (le_key entry) (snd cell) db) ov2"
      if t2: "Tree st0 U t (cell_pages ?cells) fs2 ov2" "\<forall>q \<in> set (cell_pages ?cells). U q = V' q" for U fs2 ov2
    proof -
      have "cells_ok U ?es ?cells" using cells_ok_cong [of ?cells U V ?es] ok t2(2) frame by simp
      then show ?thesis using representsI [OF t2(1)] db t(2) by simp
    qed
    then show ?thesis
      by (intro outcome_fails_mono [OF outcome_mono [OF run]])
        (use rewritten_stamp [OF new] in \<open>auto dest: ov_coreD(2)\<close>)
  qed
  show ?thesis
    by (rule outcome_bindS, rule insert_leaf_entries_outcome [OF st(1,2) staged_replace_ordered [OF assms(1,2)]])
      (blast intro: fin le)+
qed


text \<open>The two branches of a write: the key has an entry, whose value is freed, or it has none.\<close>

lemma write_cell_outcome:
  assumes "Staged st0 V ctx p es cells entry cell fs ov"
    and "db = cell_map (leaf_entries (ctx_left ctx) @ es @ leaf_entries (ctx_right ctx)) cells"
  shows "outcome (\<lambda>r ov'. r = res \<and> Represents st0 (bm_insert (le_key entry) (snd cell) db) ov' \<and> ov_stamp ov' = ov_stamp ov)
    (Fails st0 {InvalidInput, InternalInvariantViolation})
    ((case leaf_search (le_key entry) es of
        Inr i \<Rightarrow> bindS (insert_leaf_entries crc ops p (rev (map fst ctx) @ [p]) (first_leaf (ctx_right ctx) None) (es[i := entry]) lsn)
          (\<lambda>_. bindS (free_value crc ops (le_value (es ! i)) lsn) (\<lambda>_. returnS res))
      | Inl i \<Rightarrow> bindS (insert_leaf_entries crc ops p (rev (map fst ctx) @ [p]) (first_leaf (ctx_right ctx) None)
          (take i es @ entry # drop i es) lsn) (\<lambda>_. returnS res)) ov)"
proof (cases "leaf_search (le_key entry) es")
  case (Inl i)
  show ?thesis unfolding Inl sum.case
    by (rule outcome_bindS, rule insert_cell_outcome [OF assms(1) Inl assms(2)]) simp
next
  case (Inr i)
  show ?thesis unfolding Inr sum.case bindS_assoc [symmetric]
    by (rule outcome_bindS, rule replace_cell_outcome [OF assms(1) Inr assms(2)]) simp
qed

end

lemma windows_ascending_map: "windows_ascending key es = windows_ascending id (map key es)"
  by (induction key es rule: windows_ascending.induct) auto

lemma leaf_fits_tombstone:
  assumes "leaf_fits es" "i < length es" "le_key e = le_key (es ! i)" "le_value e = None"
  shows "leaf_fits (es[i := e])"
proof -
  have keys: "map le_key (es[i := e]) = map le_key es"
    using assms(2,3) by (simp add: map_update list_update_same_conv)
  have win: "windows_ascending le_key (es[i := e]) = windows_ascending le_key es"
    using keys by (simp add: windows_ascending_map [of le_key])
  have "leaf_record_length e \<le> leaf_record_length (es ! i)"
    using assms(3,4) by (simp add: leaf_record_length_def)
  then have "(\<Sum>e\<leftarrow>es[i := e]. SLOT_SIZE + leaf_record_length e) \<le> (\<Sum>e\<leftarrow>es. SLOT_SIZE + leaf_record_length e)"
    using assms(2) by (subst (2) id_take_nth_drop [OF assms(2)]) (simp add: upd_conv_take_nth_drop)
  moreover have "key_ok (le_key x)" if "x \<in> set (es[i := e])" for x
    using that assms(1-3) set_update_subset_insert [of es i e] nth_mem [OF assms(2)] by (auto simp: leaf_fits_iff)
  ultimately show ?thesis using assms(1) win by (auto simp: leaf_fits_iff)
qed

section \<open>Put and delete\<close>

definition write_revision :: "('f, 'w) overlay \<Rightarrow> revision" where
  "write_revision ov = (case ov_last_lsn ov of Some lsn \<Rightarrow> lsn | None \<Rightarrow> ov_next_revision ov)"

lemma tree_state_last_lsn:
  assumes "tree_state crc view healthy st0 V t extra fs ov"
  shows "tree_state crc view healthy st0 V t extra fs (ov\<lparr>ov_last_lsn := x\<rparr>)"
  using assms arena_cong [of crc view healthy st0 V "inner t @ map fst (leaves t) @ extra" fs ov "ov\<lparr>ov_last_lsn := x\<rparr>"]
  by (simp add: tree_state_def)

lemma allocate_revision_run: "allocate_revision ov = (Inr (write_revision ov), ov\<lparr>ov_last_lsn := Some (write_revision ov)\<rparr>)"
  by (simp add: allocate_revision_def write_revision_def Let_def)

definition value_allowed :: "database_config \<Rightarrow> bytes \<Rightarrow> bool" where
  "value_allowed cfg val \<longleftrightarrow> length val \<le> limit_max_value (cfg_limits cfg) \<and> length val \<le> MAX_VALUE_SIZE"

lemma validate_value_run:
  "validate_value val ov = (if value_allowed (st_config (ov_store ov)) val then Inr () else Inl InvalidInput, ov)"
  by (auto simp: validate_value_def value_allowed_def)

context page_store
begin

lemma ov_put_outcome:
  assumes "Represents st0 db ov" "value_allowed (st_config (ov_store ov)) val" "length (document_key_encode key) \<le> MAX_ENCODED_KEY_SIZE"
  shows "outcome (\<lambda>r ov'. r = write_revision ov \<and> Represents st0 (bm_insert (document_key_encode key) (Present val r) db) ov' \<and>
      ov_stamp ov' = ov_stamp (ov\<lparr>ov_last_lsn := Some r\<rparr>))
    (Fails st0 {InvalidInput, InternalInvariantViolation}) (ov_put crc ops key val ov)"
proof -
  obtain V t cells fs where st: "Tree st0 V t (cell_pages cells) fs ov"
    and cells: "cells_ok V (leaf_entries (leaves t)) cells" and db: "db = cell_map (leaf_entries (leaves t)) cells"
    using assms(1) by (auto simp: represents_def)
  let ?k = "document_key_encode key" and ?r = "write_revision ov"
  let ?ov = "ov\<lparr>ov_last_lsn := Some ?r\<rparr>"
  have valid: "validate_encoded_key ?k = Inr ()" using assms(3) by (simp add: validate_encoded_key_def)
  have size: "length val \<le> MAX_VALUE_SIZE" using assms(2) by (simp add: value_allowed_def)
  show ?thesis
    unfolding ov_put_def Let_def
    apply (rule outcome_bindS [where R = "\<lambda>_ ov'. ov' = ov"], simp add: validate_value_run assms(2))
    apply (hypsubst, rule outcome_bindS [where R = "\<lambda>_ ov'. ov' = ov"], simp add: valid)
    apply (hypsubst, rule outcome_bindS [where R = "\<lambda>r ov'. r = ?r \<and> ov' = ?ov"], simp add: allocate_revision_run)
    apply (elim conjE, hypsubst, rule outcome_bindS,
        rule outcome_fails_mono [OF find_leaf_tree [OF tree_state_last_lsn [OF st]]], simp)
    subgoal premises prems for u s1 u2 s2 u3 s3 r ov1
    proof -
      obtain leaf_id route where r: "r = (leaf_id, route)" by force
      obtain ctx es where t: "t = plug ctx (GLeaf leaf_id es)" and shape: "list_all frame_shape ctx"
        and route: "route = rev (map fst ctx) @ [leaf_id]"
        and key: "within (ctx_lo None ctx) (ctx_hi None ctx) ?k" and st1: "Tree st0 V t (cell_pages cells) fs ov1"
        and core: "ov_core ov1 = ov_core ?ov"
        using prems r by auto
      have staging: "outcome (\<lambda>r ov'. r = ?r \<and> Represents st0 (bm_insert ?k (Present val ?r) db) ov' \<and> ov_stamp ov' = ov_stamp ov3)
        (Fails st0 {InvalidInput, InternalInvariantViolation})
        ((case leaf_search ?k es of
            Inr i \<Rightarrow> bindS (insert_leaf_entries crc ops leaf_id route (first_leaf (ctx_right ctx) None)
                (es[i := \<lparr>le_key = ?k, le_revision = ?r, le_value = Some vref\<rparr>]) ?r)
              (\<lambda>_. bindS (free_value crc ops (le_value (es ! i)) ?r) (\<lambda>_. returnS ?r))
          | Inl i \<Rightarrow> bindS (insert_leaf_entries crc ops leaf_id route (first_leaf (ctx_right ctx) None)
              (take i es @ \<lparr>le_key = ?k, le_revision = ?r, le_value = Some vref\<rparr> # drop i es) ?r) (\<lambda>_. returnS ?r)) ov3)"
        if "Tree st0 V' t (ps @ cell_pages cells) fs' ov3" "\<forall>p \<in> set (cell_pages cells). V' p = V p"
          and "holds_value V' vref ps val" for V' ps fs' ov3 vref
      proof -
        let ?entry = "\<lparr>le_key = ?k, le_revision = ?r, le_value = Some vref\<rparr>" and ?cell = "(ps, Present val ?r)"
        have "cells_ok V' (leaf_entries (leaves t)) cells"
          using cells cells_ok_cong [of cells V' V] that(2) by blast
        then have "Staged st0 V' ctx leaf_id es cells ?entry ?cell fs' ov3"
          using that(1,3) shape key by (auto simp: staged_def t cell_ok_def)
        from write_cell_outcome [OF this, of db ?r ?r] show ?thesis unfolding route using db by (simp add: t)
      qed
      show ?thesis
        unfolding r prod.case
        apply (rule outcome_bindS, rule outcome_fails_mono [OF ov_leaf_tree [OF st1 [unfolded t]]], simp)
        apply (elim conjE, simp only: prod.case)
        apply (rule outcome_bindS, rule make_value_tree [OF _ size], assumption)
        apply (elim exE conjE, rule outcome_mono, rule staging)
        using core by (auto simp: t dest: ov_coreD(2))
    qed
    done
qed

text \<open>A deletion leaves a tombstone, which never takes more room than the entry it replaces.\<close>

lemma ov_delete_outcome:
  assumes "Represents st0 db ov" "length (document_key_encode key) \<le> MAX_ENCODED_KEY_SIZE"
  shows "outcome (\<lambda>r ov'. r = write_revision ov \<and> Represents st0 (bm_insert (document_key_encode key) (Missing r) db) ov' \<and>
      ov_stamp ov' = ov_stamp (ov\<lparr>ov_last_lsn := Some r\<rparr>))
    (Fails st0 {InvalidInput, InternalInvariantViolation}) (ov_delete crc ops key ov)"
proof -
  obtain V t cells fs where st: "Tree st0 V t (cell_pages cells) fs ov"
    and cells: "cells_ok V (leaf_entries (leaves t)) cells" and db: "db = cell_map (leaf_entries (leaves t)) cells"
    using assms(1) by (auto simp: represents_def)
  let ?k = "document_key_encode key" and ?r = "write_revision ov"
  let ?ov = "ov\<lparr>ov_last_lsn := Some ?r\<rparr>" and ?entry = "\<lparr>le_key = ?k, le_revision = ?r, le_value = None\<rparr>"
  have valid: "validate_encoded_key ?k = Inr ()" using assms(2) by (simp add: validate_encoded_key_def)
  show ?thesis
    unfolding ov_delete_def Let_def
    apply (rule outcome_bindS [where R = "\<lambda>_ ov'. ov' = ov"], simp add: valid)
    apply (hypsubst, rule outcome_bindS [where R = "\<lambda>r ov'. r = ?r \<and> ov' = ?ov"], simp add: allocate_revision_run)
    apply (elim conjE, hypsubst, rule outcome_bindS,
        rule outcome_fails_mono [OF find_leaf_tree [OF tree_state_last_lsn [OF st]]], simp)
    subgoal premises prems for u2 s2 u3 s3 r ov1
    proof -
      obtain leaf_id route where r: "r = (leaf_id, route)" by force
      obtain ctx es where t: "t = plug ctx (GLeaf leaf_id es)" and shape: "list_all frame_shape ctx"
        and route: "route = rev (map fst ctx) @ [leaf_id]"
        and key: "within (ctx_lo None ctx) (ctx_hi None ctx) ?k" and st1: "Tree st0 V t (cell_pages cells) fs ov1"
        and core: "ov_core ov1 = ov_core ?ov"
        using prems r by auto
      have "leaf_fits es"
        using leaf_links_pages [of V "leaves t" None leaf_id es] st by (simp add: t tree_state_def del: leaf_links.simps)
      then have fits: "leaf_fits (es[i := ?entry])" if "leaf_search ?k es = Inr i" for i
        using leaf_fits_tombstone leaf_search_Inr [OF that] by simp
      have staging: "outcome (\<lambda>r ov'. r = ?r \<and> Represents st0 (bm_insert ?k (Missing ?r) db) ov' \<and> ov_stamp ov' = ov_stamp ov3)
        (Fails st0 {InvalidInput, InternalInvariantViolation})
        ((case leaf_search ?k es of
            Inr i \<Rightarrow> bindS (replace_page leaf_id (LeafPage ?r (first_leaf (ctx_right ctx) None) (es[i := ?entry])))
              (\<lambda>_. bindS (free_value crc ops (le_value (es ! i)) ?r) (\<lambda>_. returnS ?r))
          | Inl i \<Rightarrow> bindS (insert_leaf_entries crc ops leaf_id route (first_leaf (ctx_right ctx) None)
              (take i es @ ?entry # drop i es) ?r) (\<lambda>_. returnS ?r)) ov3)"
        if "Tree st0 V t (cell_pages cells) fs ov3" for ov3
      proof -
        have "Staged st0 V ctx leaf_id es cells ?entry ([], Missing ?r) fs ov3"
          using that shape key cells by (auto simp: staged_def t cell_ok_def)
        from write_cell_outcome [OF this, of db ?r ?r] show ?thesis
          unfolding route using db fits by (cases "leaf_search ?k es") (simp_all add: t insert_leaf_entries_def)
      qed
      show ?thesis
        unfolding r prod.case
        apply (rule outcome_bindS, rule outcome_fails_mono [OF ov_leaf_tree [OF st1 [unfolded t]]], simp)
        apply (elim conjE, simp only: prod.case)
        apply (rule outcome_mono, rule staging)
        using core by (auto simp: t dest: ov_coreD(2))
    qed
    done
qed

end

end
