(* ===== verification/Btree_Apply.thy ===== *)
theory Btree_Apply
  imports Btree_Update Btree_Transaction Reference_Db
begin

text \<open>
  The stages of a transaction before it is finished, against the reference database: the
  conditions are checked as the reference checks them, and the mutations update the map the
  overlay represents as the reference updates its states, under the provisional revision.
\<close>

section \<open>The reference database over encoded keys\<close>

definition encoded :: "(document_key, revision_state) bmap \<Rightarrow> (bytes, revision_state) bmap" where
  "encoded m = map (\<lambda>(k, s). (document_key_encode k, s)) m"

lemma inj_document_key_encode: "document_key_encode k = document_key_encode k' \<longleftrightarrow> k = k'"
  by (metis document_key_decode_encode sum.inject(2))

lemma map_of_encoded [simp]: "map_of (encoded m) (document_key_encode k) = map_of m k"
  by (induction m) (auto simp: encoded_def inj_document_key_encode)

lemma encoded_bm_insert: "bm_insert (document_key_encode k) s (encoded m) = encoded (bm_insert k s m)"
  by (induction m) (auto simp: encoded_def inj_document_key_encode document_key.encode_less_iff)

lemma db_get_encoded [simp]: "db_get (encoded (states db)) (document_key_encode k) = ref_get db k"
  by (simp add: db_get_def ref_get_def)

section \<open>Conditions\<close>

abbreviation key_fits :: "document_key \<Rightarrow> bool" where
  "key_fits k \<equiv> length (document_key_encode k) \<le> MAX_ENCODED_KEY_SIZE"

context page_store
begin

text \<open>A rejected transaction leaves the overlay as it was; other errors come from the file.\<close>

abbreviation Rejects ::
  "('f, 'w) base \<Rightarrow> (bytes, revision_state) bmap \<Rightarrow> ('f, 'w) overlay \<Rightarrow> (error \<Rightarrow> bool) \<Rightarrow> error \<Rightarrow> ('f, 'w) overlay \<Rightarrow> bool"
where
  "Rejects st0 db ov P e ov' \<equiv> Fails st0 {} e ov' \<or> P e \<and> Represents st0 db ov' \<and> ov_core ov' = ov_core ov"

lemma get_observed_state_long_key:
  "\<not> key_fits key \<Longrightarrow> get_observed_state crc ops key ov = (Inl InvalidInput, ov)"
  by (simp add: get_observed_state_def validate_encoded_key_def Let_def bindS_def liftR_def)

lemma check_conditions_outcome:
  assumes "Represents st0 (encoded (states db)) ov"
  shows "outcome (\<lambda>_ ov'. ref_check_conditions db cs = Inr () \<and> list_all (\<lambda>c. key_fits (condition_key c)) cs \<and>
        Represents st0 (encoded (states db)) ov' \<and> ov_core ov' = ov_core ov)
      (Rejects st0 (encoded (states db)) ov (\<lambda>e. ref_check_conditions db cs = Inl e \<or>
        e = InvalidInput \<and> \<not> list_all (\<lambda>c. key_fits (condition_key c)) cs))
      (check_conditions crc ops cs ov)"
  using assms
proof (induction cs arbitrary: ov)
  case (Cons c cs)
  let ?a = "observed (ref_get db (condition_key c))"
  show ?case
  proof (cases "key_fits (condition_key c)")
    case False
    then show ?thesis using Cons.prems by (simp add: get_observed_state_long_key bindS_def)
  next
    case True
    note run = get_observed_state_outcome [OF Cons.prems True]
    show ?thesis
      unfolding check_conditions.simps
      apply (rule outcome_bindS, rule outcome_mono [OF run], assumption, simp)
      apply (elim conjE)
      subgoal for r ov1
        using Cons.IH [of ov1] True
        by (cases "condition_satisfied c ?a") (auto simp: Let_def elim!: outcome_mono)
      done
  qed
qed simp

end

section \<open>Mutations\<close>

fun mutation_fits :: "database_config \<Rightarrow> transaction_mutation \<Rightarrow> bool" where
  "mutation_fits cfg (MutPut k v) \<longleftrightarrow> value_allowed cfg v \<and> key_fits k"
| "mutation_fits cfg (MutDelete k) \<longleftrightarrow> key_fits k"

lemma validate_mutations_run:
  "validate_mutations ms ov =
     (if list_all (mutation_fits (st_config (ov_store ov))) ms then Inr () else Inl InvalidInput, ov)"
proof (induction ms)
  case (Cons m ms)
  then show ?case
    by (cases m) (simp_all add: validate_transaction_mutation_def validate_value_run validate_encoded_key_def bindS_def liftR_def)
qed (simp add: returnS_def)

lemma represents_config:
  assumes "represents crc view healthy st0 db ov"
  shows "st_config (ov_store ov) = st_config (fst st0)"
proof -
  have "(ov_store ov)\<lparr>st_file := st_file (fst st0), st_cache := st_cache (fst st0)\<rparr> = fst st0"
    using assms by (auto simp: represents_def tree_state_def same_committed_def dest: arena_committed)
  from arg_cong [OF this, of st_config] show ?thesis by simp
qed

lemma write_revision_stamp:
  assumes "ov_stamp ov' = ov_stamp (ov\<lparr>ov_last_lsn := Some r\<rparr>)"
  shows "write_revision ov' = r" "ov_stamp (ov'\<lparr>ov_last_lsn := Some r\<rparr>) = ov_stamp (ov\<lparr>ov_last_lsn := Some r\<rparr>)"
  using assms by (auto simp: ov_stamp_def write_revision_def)

context page_store
begin

lemma apply_mutation_outcome:
  assumes "Represents st0 (encoded m) ov" "mutation_fits (st_config (fst st0)) mu"
  shows "outcome (\<lambda>r ov'. Represents st0 (encoded (ref_apply (write_revision ov) [mu] m)) ov' \<and>
      ov_stamp ov' = ov_stamp (ov\<lparr>ov_last_lsn := Some (write_revision ov)\<rparr>))
    (Fails st0 {InvalidInput, InternalInvariantViolation})
    ((case mu of MutPut k v \<Rightarrow> ov_put crc ops k v | MutDelete k \<Rightarrow> ov_delete crc ops k) ov)"
proof (cases mu)
  case (MutPut k v)
  then have "value_allowed (st_config (ov_store ov)) v" "key_fits k"
    using assms(2) represents_config [OF assms(1)] by simp_all
  from outcome_mono [OF ov_put_outcome [OF assms(1) this]] show ?thesis
    unfolding MutPut by (simp add: encoded_bm_insert)
next
  case (MutDelete k)
  then have "key_fits k" using assms(2) by simp
  from outcome_mono [OF ov_delete_outcome [OF assms(1) this]] show ?thesis
    unfolding MutDelete by (simp add: encoded_bm_insert)
qed

lemma apply_mutations_outcome:
  assumes "Represents st0 (encoded m) ov" "list_all (mutation_fits (st_config (fst st0))) ms"
  shows "outcome (\<lambda>r ov'. Represents st0 (encoded (ref_apply (write_revision ov) ms m)) ov' \<and>
      ov_stamp ov' = ov_stamp (if ms = [] then ov else ov\<lparr>ov_last_lsn := Some (write_revision ov)\<rparr>))
    (Fails st0 {InvalidInput, InternalInvariantViolation}) (apply_mutations crc ops ms ov)"
  using assms
proof (induction ms arbitrary: m ov)
  case (Cons mu ms)
  let ?r = "write_revision ov"
  have fits: "mutation_fits (st_config (fst st0)) mu" "list_all (mutation_fits (st_config (fst st0))) ms"
    using Cons.prems(2) by simp_all
  show ?case
    unfolding apply_mutations.simps
    apply (rule outcome_bindS, rule apply_mutation_outcome [OF Cons.prems(1) fits(1)])
    apply (elim conjE)
    subgoal for r ov1
      using Cons.IH [OF _ fits(2), of "ref_apply ?r [mu] m" ov1] write_revision_stamp [of ov1 ?r ov]
      by (auto elim!: outcome_mono)
    done
qed simp

end

end
