(* ===== verification/Btree_Restamp.thy ===== *)
theory Btree_Restamp
  imports Btree_Apply
begin

text \<open>
  Restamping the dirty pages of an overlay: writes are staged under a provisional revision, which
  the commit replaces by the LSN of the commit record. A heap whose pages are relabelled this way
  holds the same tree with restamped entries.
\<close>

section \<open>Relabelled pages\<close>

fun relabel :: "lsn \<Rightarrow> (leaf_entry \<Rightarrow> leaf_entry) \<Rightarrow> page_data \<Rightarrow> page_data" where
  "relabel lsn f (LeafPage l nxt es) = LeafPage lsn nxt (map f es)"
| "relabel lsn f (InternalPage l c es) = InternalPage lsn c es"
| "relabel lsn f (OverflowPage l nxt len chunk) = OverflowPage lsn nxt len chunk"
| "relabel lsn f (FreePage l nxt) = FreePage lsn nxt"

fun page_entries :: "page_data \<Rightarrow> leaf_entry list" where
  "page_entries (LeafPage lsn nxt es) = es"
| "page_entries _ = []"

lemma restamp_relabel: "restamp prov com page = relabel com (restamp_entry prov com) page"
  by (cases page) auto

lemma relabel_same: "(\<And>e. e \<in> set (page_entries page) \<Longrightarrow> f e = e) \<Longrightarrow> relabel (page_data_lsn page) f page = page"
  by (cases page) (auto intro: map_idI)

lemma page_entries_relabel [simp]: "page_entries (relabel lsn f page) = map f (page_entries page)"
  by (cases page) auto

fun tree_map :: "(leaf_entry \<Rightarrow> leaf_entry) \<Rightarrow> gtree \<Rightarrow> gtree" where
  "tree_map f (GLeaf p es) = GLeaf p (map f es)"
| "tree_map f (GNode p cs ks) = GNode p (map (tree_map f) cs) ks"

definition keeps_cell :: "(leaf_entry \<Rightarrow> leaf_entry) \<Rightarrow> bool" where
  "keeps_cell f \<longleftrightarrow> (\<forall>e. le_key (f e) = le_key e \<and> le_value (f e) = le_value e)"

lemma keeps_cell_restamp: "keeps_cell (restamp_entry prov com)"
  by (simp add: keeps_cell_def restamp_entry_def)

lemma keeps_cell_keys: "keeps_cell f \<Longrightarrow> le_key \<circ> f = le_key"
  by (simp add: keeps_cell_def fun_eq_iff)

definition relabelled :: "(leaf_entry \<Rightarrow> leaf_entry) \<Rightarrow> page_heap \<Rightarrow> page_heap \<Rightarrow> bool" where
  "relabelled f V V' \<longleftrightarrow> (\<forall>p page. V p = Some page \<longrightarrow> (\<exists>lsn. V' p = Some (relabel lsn f page)))"

lemma relabelledD: "relabelled f V V' \<Longrightarrow> V p = Some page \<Longrightarrow> \<exists>lsn. V' p = Some (relabel lsn f page)"
  by (simp add: relabelled_def)

lemma root_id_tree_map [simp]: "root_id (tree_map f t) = root_id t"
  by (cases t) auto

lemma inner_tree_map [simp]: "inner (tree_map f t) = inner t"
  by (induction t rule: inner.induct) (auto cong: map_cong)

lemma leaves_tree_map [simp]: "leaves (tree_map f t) = map (apsnd (map f)) (leaves t)"
  by (induction t rule: leaves.induct) (auto simp: map_concat intro!: arg_cong [of _ _ concat])

lemma leaf_entries_map: "leaf_entries (map (apsnd (map f)) ls) = map f (leaf_entries ls)"
  by (induction ls) auto

lemma ordered_tree_map:
  assumes "keeps_cell f"
  shows "ordered lo hi (tree_map f t) = ordered lo hi t" "kids lo hi (map (tree_map f) cs) ks = kids lo hi cs ks"
proof (induction lo hi t and lo hi cs ks rule: ordered_kids.induct)
  case (1 lo hi p es)
  show ?case using assms keeps_cell_keys [OF assms] by (simp add: keeps_cell_def)
qed auto

lemma leaf_fits_map:
  assumes "keeps_cell f"
  shows "leaf_fits (map f es) = leaf_fits es"
proof -
  have "windows_ascending le_key (map f es) = windows_ascending le_key es"
    by (simp add: windows_ascending_map [of le_key] keeps_cell_keys [OF assms])
  moreover have "leaf_record_length (f e) = leaf_record_length e" for e
    using assms by (simp add: keeps_cell_def leaf_record_length_def)
  ultimately show ?thesis using assms by (simp add: leaf_fits_iff o_def keeps_cell_def)
qed

lemma page_sound_relabel:
  assumes "keeps_cell f"
  shows "page_sound hw (relabel lsn f page) = page_sound hw page"
proof (cases page)
  case (LeafPage l nxt es)
  have "entry_le hw (f e) = entry_le hw e" for e using assms by (simp add: keeps_cell_def entry_le_def)
  then show ?thesis using LeafPage assms by (simp add: page_sound_leaf leaf_fits_map)
qed (simp_all add: page_sound_internal page_sound_overflow page_sound_free)

section \<open>Relabelled heaps\<close>

lemma node_heap_relabelled:
  "relabelled f V V' \<Longrightarrow> node_heap V t \<Longrightarrow> node_heap V' (tree_map f t)"
  by (induction t rule: inner.induct) (auto simp: node_page_def o_def dest!: relabelledD)

lemma leaf_links_relabelled:
  assumes "relabelled f V V'" "keeps_cell f"
  shows "leaf_links V ls nxt \<Longrightarrow> leaf_links V' (map (apsnd (map f)) ls) nxt"
proof (induction ls)
  case (Cons l ls)
  obtain p es where l: "l = (p, es)" by force
  have "first_leaf (map (apsnd (map f)) ls) nxt = first_leaf ls nxt"
    by (cases ls) (auto simp: first_leaf_def)
  then show ?case
    using Cons assms by (auto simp: l leaf_links_Cons leaf_fits_map simp del: leaf_links.simps(2) dest!: relabelledD)
qed simp

lemma free_list_relabelled: "relabelled f V V' \<Longrightarrow> free_list V h fs \<Longrightarrow> free_list V' h fs"
  by (induction V h fs rule: free_list.induct) (auto dest!: relabelledD)

lemma chain_relabelled: "relabelled f V V' \<Longrightarrow> chain V len h ps bs \<Longrightarrow> chain V' len h ps bs"
  by (induction V len h ps bs rule: chain.induct) (auto dest!: relabelledD)

lemma holds_value_relabelled: "relabelled f V V' \<Longrightarrow> holds_value V vref ps val \<Longrightarrow> holds_value V' vref ps val"
  by (auto simp: holds_value_def chain_relabelled split: value_ref.splits)

lemma cell_ok_restamp:
  assumes "relabelled (restamp_entry prov com) V V'" "cell_ok V e c"
  shows "cell_ok V' (restamp_entry prov com e) (apsnd (restamp_state prov com) c)"
  using assms(2) holds_value_relabelled [OF assms(1)]
  by (auto simp: cell_ok_def restamp_entry_def split: option.splits)

lemma cells_ok_restamp:
  assumes "relabelled (restamp_entry prov com) V V'"
  shows "cells_ok V es cells \<Longrightarrow>
    cells_ok V' (map (restamp_entry prov com) es) (map (apsnd (restamp_state prov com)) cells)"
  by (induction rule: list_all2_induct) (simp_all add: cell_ok_restamp [OF assms])

lemma cell_map_restamp:
  "cell_map (map (restamp_entry prov com) es) (map (apsnd (restamp_state prov com)) cells) =
     map (apsnd (restamp_state prov com)) (cell_map es cells)"
  using keeps_cell_restamp by (simp add: cell_map_def zip_map_map o_def keeps_cell_def apsnd_def map_prod_def split_def)

end
