(* ===== verification/Btree_Finish.thy ===== *)
theory Btree_Finish
  imports Btree_Restamp
begin

text \<open>
  Finishing a staged transaction (\<open>finish_transaction\<close>): the dirty pages are restamped and encoded,
  the superblock of the next generation is made, and the overlay is ready for the next
  transaction of its group. The prepared candidate carries exactly the pages the transaction
  changed, and the overlay afterwards represents the map the reference database has after it.
\<close>

section \<open>The superblock of the next generation\<close>

definition superblock_ok :: "superblock \<Rightarrow> bool" where
  "superblock_ok sb \<longleftrightarrow> superblock_wf sb \<and> sb_format_version sb = SUPERBLOCK_FORMAT_VERSION \<and> sb_page_size sb = 4096"

definition not_null :: "page_id option \<Rightarrow> page_id option" where
  "not_null p = (if p = Some NULL_PAGE_ID then None else p)"

lemma not_null_simps [simp]: "encode_page_id (not_null p) = encode_page_id p" "not_null p \<noteq> Some NULL_PAGE_ID"
  "p \<noteq> Some NULL_PAGE_ID \<Longrightarrow> not_null p = p"
  by (auto simp: not_null_def encode_page_id_def)

lemma encode_superblock_cong:
  assumes "superblock_fields sb' = superblock_fields sb" "sb_format_version sb' = sb_format_version sb"
    and "sb_page_size sb' = sb_page_size sb"
  shows "encode_superblock crc sb' = encode_superblock crc sb"
  using assms by (simp add: encode_superblock_def Let_def)

lemma encode_superblock_decodes:
  assumes "superblock_ok cur" "sb_format_version sb = sb_format_version cur" "sb_page_size sb = sb_page_size cur"
    and "sb_database_uuid sb = sb_database_uuid cur"
  obtains bs sb' where "encode_superblock crc sb = Inr bs" "decode_superblock crc bs = Inr sb'"
    "encode_superblock crc sb' = Inr bs"
    "sb' = sb\<lparr>sb_root_page_id := not_null (sb_root_page_id sb), sb_free_list_head := not_null (sb_free_list_head sb),
       sb_high_water_page_id := not_null (sb_high_water_page_id sb), sb_checksum := sb_checksum sb'\<rparr>"
proof -
  let ?sb = "sb\<lparr>sb_root_page_id := not_null (sb_root_page_id sb), sb_free_list_head := not_null (sb_free_list_head sb),
       sb_high_water_page_id := not_null (sb_high_water_page_id sb)\<rparr>"
  have same: "encode_superblock crc (?sb\<lparr>sb_checksum := c\<rparr>) = encode_superblock crc sb" for c
    by (rule encode_superblock_cong) (simp_all add: superblock_fields_def)
  obtain bs where bs: "encode_superblock crc sb = Inr bs"
    using assms by (simp add: superblock_ok_def encode_superblock_ok)
  have wf: "superblock_wf ?sb" using assms by (simp add: superblock_ok_def superblock_wf_def)
  have "encode_superblock crc ?sb = encode_superblock crc sb"
    by (rule encode_superblock_cong) (simp_all add: superblock_fields_def)
  then have "encode_superblock crc ?sb = Inr bs" using bs by simp
  from decode_encode_superblock [OF this wf] have dec: "decode_superblock crc bs = Inr (?sb\<lparr>sb_checksum := superblock_checksum crc bs\<rparr>)" .
  show thesis
    by (rule that [OF bs dec]) (use bs same in \<open>simp_all\<close>)
qed

lemma next_superblock_cases:
  assumes "superblock_ok cur"
  shows "(case next_superblock crc cur root free_head hw of
      Inl e \<Rightarrow> e = InternalInvariantViolation
    | Inr sb \<Rightarrow> superblock_ok sb \<and> unat (sb_generation cur) + 1 < 2 ^ 64 \<and> sb_generation sb = sb_generation cur + 1 \<and>
        (\<exists>bs. encode_superblock crc sb = Inr bs \<and> decode_superblock crc bs = Inr sb) \<and>
        (root \<noteq> NULL_PAGE_ID \<longrightarrow> sb_root_page_id sb = Some root) \<and>
        (free_head \<noteq> Some NULL_PAGE_ID \<longrightarrow> sb_free_list_head sb = free_head) \<and>
        (hw \<noteq> NULL_PAGE_ID \<longrightarrow> sb_high_water_page_id sb = Some hw) \<and>
        sb_database_uuid sb = sb_database_uuid cur \<and> sb_checkpoint_lsn sb = sb_checkpoint_lsn cur)"
proof (cases "checked_add_u64 (sb_generation cur) 1")
  case None
  then show ?thesis by (simp add: next_superblock_def)
next
  case (Some g)
  let ?sb = "cur\<lparr>sb_generation := g, sb_root_page_id := Some root, sb_free_list_head := free_head,
    sb_high_water_page_id := Some hw\<rparr>"
  obtain bs sb where enc: "encode_superblock crc ?sb = Inr bs" and dec: "decode_superblock crc bs = Inr sb"
    and again: "encode_superblock crc sb = Inr bs"
    and eq: "sb = ?sb\<lparr>sb_root_page_id := not_null (Some root), sb_free_list_head := not_null free_head,
       sb_high_water_page_id := not_null (Some hw), sb_checksum := sb_checksum sb\<rparr>"
    using encode_superblock_decodes [OF assms, of ?sb crc] by auto
  have fields: "sb_format_version sb = sb_format_version cur" "sb_page_size sb = sb_page_size cur" "sb_generation sb = g"
    "sb_root_page_id sb = not_null (Some root)" "sb_free_list_head sb = not_null free_head"
    "sb_high_water_page_id sb = not_null (Some hw)" "sb_database_uuid sb = sb_database_uuid cur"
    "sb_checkpoint_lsn sb = sb_checkpoint_lsn cur"
    by (subst eq, simp)+
  have run: "next_superblock crc cur root free_head hw = Inr sb" using Some enc dec by (simp add: next_superblock_def)
  show ?thesis
    unfolding run using assms fields again dec decode_superblock_wf [OF dec] Some
    by (auto simp: superblock_ok_def checked_add_u64_def split: if_splits)
qed

lemma next_superblock_ok:
  assumes "superblock_ok cur" "next_superblock crc cur root free_head hw = Inr sb"
  shows "superblock_ok sb" "sb_generation sb = sb_generation cur + 1"
    and "\<exists>bs. encode_superblock crc sb = Inr bs \<and> decode_superblock crc bs = Inr sb"
  using next_superblock_cases [OF assms(1), of crc root free_head hw] unfolding assms(2) by simp_all

section \<open>The loops over the dirty pages\<close>

lemma restamp_idem [simp]: "restamp prov com (restamp prov com page) = restamp prov com page"
proof -
  have "restamp_entry prov com (restamp_entry prov com e) = restamp_entry prov com e" for e
    by (simp add: restamp_entry_def)
  then show ?thesis by (cases page) simp_all
qed

lemma restamp_dirty_run:
  assumes "set pids \<subseteq> dom (map_of (ov_pages ov))"
  shows "\<exists>pages. restamp_dirty prov com pids ov = (Inr (), ov\<lparr>ov_pages := pages\<rparr>) \<and>
    map_of pages = (\<lambda>p. if p \<in> set pids then map_option (restamp prov com) (map_of (ov_pages ov) p) else map_of (ov_pages ov) p)"
  using assms
proof (induction pids arbitrary: ov)
  case Nil
  show ?case by (rule exI [of _ "ov_pages ov"]) simp
next
  case (Cons pid pids)
  obtain page where page: "map_of (ov_pages ov) pid = Some page" using Cons.prems by auto
  let ?ov = "ov\<lparr>ov_pages := bm_insert pid (restamp prov com page) (ov_pages ov)\<rparr>"
  have "set pids \<subseteq> dom (map_of (ov_pages ?ov))" using Cons.prems by auto
  from Cons.IH [OF this] show ?case using page by (auto simp: fun_eq_iff)
qed

text \<open>What the candidate of a transaction carries: an image for each of its pages.\<close>

definition images_of :: "(bytes \<Rightarrow> u32) \<Rightarrow> (page_id, bytes) bmap \<Rightarrow> (page_id, page_data) bmap \<Rightarrow> bool" where
  "images_of crc changed decoded \<longleftrightarrow>
     bm_wf changed \<and> bm_wf decoded \<and>
     (\<forall>p. rel_option (\<lambda>bs page. page_data_encode crc p page = Inr bs) (map_of changed p) (map_of decoded p))"

lemma images_of_insert:
  assumes "images_of crc changed decoded" "page_data_encode crc p page = Inr bs"
  shows "images_of crc (bm_insert p bs changed) (bm_insert p page decoded)"
  using assms by (simp add: images_of_def)

lemma encode_changed_run:
  assumes "\<And>p. p \<in> set pids \<Longrightarrow> \<exists>page. map_of pages p = Some page \<and> is_ok (encode_body page)" "images_of crc changed0 decoded0"
  shows "\<exists>changed decoded. encode_changed crc pages pids changed0 decoded0 = Inr (changed, decoded) \<and> images_of crc changed decoded \<and>
    map_of decoded = (\<lambda>p. if p \<in> set pids then map_of pages p else map_of decoded0 p)"
  using assms
proof (induction pids arbitrary: changed0 decoded0)
  case Nil
  then show ?case by simp
next
  case (Cons pid pids)
  obtain page where page: "map_of pages pid = Some page" "is_ok (encode_body page)" using Cons.prems(1) by auto
  obtain bs where bs: "page_data_encode crc pid page = Inr bs"
    using page(2) encode_body_ok_page [of page _ crc pid] by (auto simp: is_ok_iff)
  from Cons.IH [OF _ images_of_insert [OF Cons.prems(2) bs]] Cons.prems(1) page(1) bs
  show ?case by (auto simp: fun_eq_iff)
qed

section \<open>The restamped overlay\<close>

definition revisions_below :: "revision \<Rightarrow> (page_id \<Rightarrow> page_data result) \<Rightarrow> bool" where
  "revisions_below r base \<longleftrightarrow> (\<forall>p page. base p = Inr page \<longrightarrow> (\<forall>e \<in> set (page_entries page). le_revision e < r))"

text \<open>The pages after a candidate is published over a base.\<close>

definition base_step :: "(page_id, page_data) bmap \<Rightarrow> (page_id \<Rightarrow> page_data result) \<Rightarrow> page_id \<Rightarrow> page_data result" where
  "base_step decoded base p = (case map_of decoded p of Some page \<Rightarrow> Inr page | None \<Rightarrow> base p)"

definition restamp_heap :: "revision \<Rightarrow> lsn \<Rightarrow> page_id list \<Rightarrow> page_heap \<Rightarrow> page_heap" where
  "restamp_heap prov com dirty V p = (if p \<in> set dirty then map_option (restamp prov com) (V p) else V p)"

lemma ov_holds_clean:
  assumes "ov_holds crc view healthy st0 V ov" "V p = Some page" "p \<notin> set (ov_dirty ov)"
  shows "snd st0 p = Inr page"
proof -
  have view: "ov_view crc view ov p = Inr page" and clean: "clean_pages crc view st0 ov"
    using assms by (auto simp: ov_holds_def)
  show ?thesis
    using view clean assms(3) ov_holds_stored [OF assms(1)]
    by (cases "map_of (ov_pages ov) p") (auto simp: ov_view_def clean_pages_def)
qed

lemma restamp_heap_relabelled:
  assumes "ov_holds crc view healthy st0 V ov" "revisions_below prov (snd st0)"
  shows "relabelled (restamp_entry prov com) V (restamp_heap prov com (ov_dirty ov) V)"
  unfolding relabelled_def
proof (intro allI impI)
  fix p page
  assume V: "V p = Some page"
  show "\<exists>lsn. restamp_heap prov com (ov_dirty ov) V p = Some (relabel lsn (restamp_entry prov com) page)"
  proof (cases "p \<in> set (ov_dirty ov)")
    case True
    then show ?thesis using V by (auto simp: restamp_heap_def restamp_relabel)
  next
    case False
    have "restamp_entry prov com e = e" if "e \<in> set (page_entries page)" for e
      using ov_holds_clean [OF assms(1) V False] assms(2) that
      by (auto simp: revisions_below_def restamp_entry_def)
    from relabel_same [of page, OF this] show ?thesis using V False by (simp add: restamp_heap_def) metis
  qed
qed

text \<open>The overlay once its dirty pages are restamped and handed over to a candidate.\<close>

definition handed_over ::
  "revision \<Rightarrow> lsn \<Rightarrow> (page_id, page_data) bmap \<Rightarrow> ('f, 'w) overlay \<Rightarrow> ('f, 'w) overlay \<Rightarrow> bool"
where
  "handed_over prov com decoded ov ov' \<longleftrightarrow>
     ov_store ov' = ov_store ov \<and> ov_dirty ov' = [] \<and> ov_read_pages ov' = [] \<and>
     ov_root_page_id ov' = ov_root_page_id ov \<and> ov_free_list_head ov' = ov_free_list_head ov \<and>
     ov_high_water_page_id ov' = ov_high_water_page_id ov \<and>
     map_of (ov_pages ov') = (\<lambda>p. if p \<in> set (ov_dirty ov) then map_option (restamp prov com) (map_of (ov_pages ov) p)
       else map_of (ov_pages ov) p) \<and>
     map_of decoded = (\<lambda>p. if p \<in> set (ov_dirty ov) then map_of (ov_pages ov') p else None)"

lemma handed_over_holds:
  assumes "ov_holds crc view healthy st0 V ov" "handed_over prov com decoded ov ov'"
  shows "ov_holds crc view healthy (fst st0, base_step decoded (snd st0)) (restamp_heap prov com (ov_dirty ov) V) ov'"
proof -
  note h = assms(2) [unfolded handed_over_def]
  have clean: "clean_pages crc view st0 ov" and com: "same_committed crc view healthy (fst st0) (ov_store ov)"
    using assms(1) by (simp_all add: ov_holds_def)
  have dirty: "\<exists>page. map_of (ov_pages ov) p = Some page" if "p \<in> set (ov_dirty ov)" for p
    using clean that by (auto simp: clean_pages_def)
  have "clean_pages crc view (fst st0, base_step decoded (snd st0)) ov'"
    using clean h dirty by (auto simp: clean_pages_def base_step_def split: if_splits option.splits)
  moreover have "2 \<le> p \<and> p \<le> ov_high_water_page_id ov' \<and> ov_view crc view ov' p = Inr page \<and>
      page_sound (ov_high_water_page_id ov') page"
    if V': "restamp_heap prov com (ov_dirty ov) V p = Some page" for p page
  proof -
    obtain page0 where V: "V p = Some page0"
      and page: "page = (if p \<in> set (ov_dirty ov) then restamp prov com page0 else page0)"
      using V' by (auto simp: restamp_heap_def split: if_splits)
    have old: "2 \<le> p" "p \<le> ov_high_water_page_id ov" "ov_view crc view ov p = Inr page0"
      "page_sound (ov_high_water_page_id ov) page0"
      using assms(1) V by (auto simp: ov_holds_def)
    have "page_sound (ov_high_water_page_id ov) page"
      using old(4) page_sound_relabel [OF keeps_cell_restamp] by (simp add: page restamp_relabel)
    moreover have "ov_view crc view ov' p = Inr page"
      using old(3) dirty [of p] h by (auto simp: ov_view_def page split: option.splits)
    ultimately show ?thesis using old h by simp
  qed
  ultimately show ?thesis using com h by (simp add: ov_holds_def)
qed

lemma handed_over_tree:
  assumes "tree_state crc view healthy st0 V t extra fs ov" "handed_over prov com decoded ov ov'"
    and "revisions_below prov (snd st0)"
  shows "tree_state crc view healthy (fst st0, base_step decoded (snd st0)) (restamp_heap prov com (ov_dirty ov) V)
    (tree_map (restamp_entry prov com) t) extra fs ov'"
proof -
  note ar = tree_state_arena [OF assms(1)]
  note rel = restamp_heap_relabelled [OF arena_holds [OF ar] assms(3), of com]
  have "arena crc view healthy (fst st0, base_step decoded (snd st0)) (restamp_heap prov com (ov_dirty ov) V)
      (inner t @ map fst (leaves t) @ extra) fs ov'"
    using ar handed_over_holds [OF arena_holds [OF ar] assms(2)] free_list_relabelled [OF rel] assms(2)
    by (simp add: arena_def handed_over_def)
  moreover have "map fst (leaves (tree_map (restamp_entry prov com) t)) = map fst (leaves t)" by simp
  ultimately show ?thesis
    using assms(1,2) node_heap_relabelled [OF rel] leaf_links_relabelled [OF rel keeps_cell_restamp]
      ordered_tree_map(1) [OF keeps_cell_restamp]
    by (simp add: tree_state_def handed_over_def)
qed

lemma handed_over_represents:
  assumes "represents crc view healthy st0 db ov" "handed_over prov com decoded ov ov'" "revisions_below prov (snd st0)"
  shows "represents crc view healthy (fst st0, base_step decoded (snd st0)) (map (apsnd (restamp_state prov com)) db) ov'"
proof -
  obtain V t cells fs where st: "tree_state crc view healthy st0 V t (cell_pages cells) fs ov"
    and cells: "cells_ok V (leaf_entries (leaves t)) cells" and db: "db = cell_map (leaf_entries (leaves t)) cells"
    using assms(1) by (auto simp: represents_def)
  note rel = restamp_heap_relabelled [OF arena_holds [OF tree_state_arena [OF st]] assms(3), of com]
  let ?cells = "map (apsnd (restamp_state prov com)) cells" and ?t = "tree_map (restamp_entry prov com) t"
  have "cell_pages ?cells = cell_pages cells" by (simp add: o_def)
  moreover have "leaf_entries (leaves ?t) = map (restamp_entry prov com) (leaf_entries (leaves t))"
    by (simp add: leaf_entries_map)
  ultimately show ?thesis
    using representsI [of crc view healthy _ _ ?t ?cells fs ov'] handed_over_tree [OF st assms(2,3)] cells_ok_restamp [OF rel cells]
    by (simp add: db cell_map_restamp)
qed

section \<open>Revisions\<close>

lemma node_heap_pages: "node_heap V t \<Longrightarrow> p \<in> set (inner t) \<Longrightarrow> \<exists>lsn c es. V p = Some (InternalPage lsn c es)"
  by (induction t rule: inner.induct) (auto simp: node_page_def)

lemma chain_pages: "chain V len h ps bs \<Longrightarrow> p \<in> set ps \<Longrightarrow> \<exists>lsn nxt chunk. V p = Some (OverflowPage lsn nxt len chunk)"
  by (induction V len h ps bs rule: chain.induct) auto

lemma free_list_pages: "free_list V h fs \<Longrightarrow> p \<in> set fs \<Longrightarrow> \<exists>lsn nxt. V p = Some (FreePage lsn nxt)"
  by (induction V h fs rule: free_list.induct) auto

lemma cell_pages_overflow:
  assumes "cells_ok V es cells" "p \<in> set (cell_pages cells)"
  shows "\<exists>lsn nxt len chunk. V p = Some (OverflowPage lsn nxt len chunk)"
proof -
  obtain c where c: "c \<in> set cells" "p \<in> set (fst c)" using assms(2) by auto
  then obtain e where "cell_ok V e c" using assms(1) by (metis in_set_conv_nth list_all2_conv_all_nth)
  then obtain len head bs where "chain V len (Some head) (fst c) bs"
    using c(2) by (cases "le_value e"; cases "the (le_value e)") (auto simp: cell_ok_def holds_value_def)
  then show ?thesis using chain_pages c(2) by blast
qed

lemma leaf_links_in: "leaf_links V ls nxt \<Longrightarrow> p \<in> fst ` set ls \<Longrightarrow> \<exists>lsn q es. V p = Some (LeafPage lsn q es) \<and> (p, es) \<in> set ls"
proof (induction ls)
  case (Cons l ls)
  obtain a b where l: "l = (a, b)" by force
  show ?case
  proof (cases "p = a")
    case True
    then show ?thesis using Cons.prems(1) by (auto simp: l)
  next
    case False
    then have "\<exists>lsn q es. V p = Some (LeafPage lsn q es) \<and> (p, es) \<in> set ls" using Cons by (auto simp: l)
    then show ?thesis by auto
  qed
qed simp

lemma leaf_entries_in: "(p, es) \<in> set ls \<Longrightarrow> set es \<subseteq> set (leaf_entries ls)"
  by (auto simp: leaf_entries_def)

lemma tree_page_entries:
  assumes "tree_state crc view healthy st0 V t (cell_pages cells) fs ov" "cells_ok V (leaf_entries (leaves t)) cells"
    and "p \<in> set (ov_dirty ov)" "V p = Some page"
  shows "set (page_entries page) \<subseteq> set (leaf_entries (leaves t))"
proof -
  have "p \<in> set (inner t @ map fst (leaves t) @ cell_pages cells @ fs)"
    using assms(1,3) by (auto simp: tree_state_def arena_def)
  then consider "p \<in> set (inner t)" | "p \<in> fst ` set (leaves t)" | "p \<in> set (cell_pages cells)" | "p \<in> set fs" by auto
  then show ?thesis
  proof cases
    case 1
    then show ?thesis using assms(1,4) node_heap_pages [of V t p] by (auto simp: tree_state_def)
  next
    case 2
    then obtain lsn q es where "V p = Some (LeafPage lsn q es)" "(p, es) \<in> set (leaves t)"
      using assms(1) leaf_links_in [of V "leaves t" None p] by (auto simp: tree_state_def)
    then show ?thesis using assms(4) leaf_entries_in by simp
  next
    case 3
    from cell_pages_overflow [OF assms(2) 3] show ?thesis using assms(4) by auto
  next
    case 4
    then show ?thesis
      using assms(1,4) free_list_pages [of V "ov_free_list_head ov" fs p] by (auto simp: tree_state_def arena_def)
  qed
qed

lemma cell_map_revision:
  assumes "cells_ok V es cells" "e \<in> set es"
  shows "\<exists>k s. (k, s) \<in> set (cell_map es cells) \<and> state_revision s = le_revision e"
proof -
  obtain i where i: "i < length es" "e = es ! i" using assms(2) by (auto simp: in_set_conv_nth)
  have len: "length es = length cells" using assms(1) by (rule list_all2_lengthD)
  have "(le_key e, snd (cells ! i)) \<in> set (cell_map es cells)"
    using i len unfolding cell_map_def set_zip by (intro CollectI exI [of _ i]) simp
  moreover have "state_revision (snd (cells ! i)) = le_revision e"
    using list_all2_nthD [OF assms(1) i(1)] i(2) by (auto simp: cell_ok_def split: option.splits)
  ultimately show ?thesis by blast
qed

lemma represents_below:
  assumes "represents crc view healthy st0 db ov" "ov_dirty ov = []" "revisions_below r (snd st0)" "(k, s) \<in> set db"
  shows "state_revision s < r"
proof -
  obtain V t cells fs where st: "tree_state crc view healthy st0 V t (cell_pages cells) fs ov"
    and cells: "cells_ok V (leaf_entries (leaves t)) cells" and db: "db = cell_map (leaf_entries (leaves t)) cells"
    using assms(1) by (auto simp: represents_def)
  let ?es = "leaf_entries (leaves t)"
  obtain i where i: "i < length ?es" "s = snd (cells ! i)"
    using assms(4) list_all2_lengthD [OF cells] by (auto simp: db cell_map_def set_zip)
  have rev: "state_revision s = le_revision (?es ! i)"
    using list_all2_nthD [OF cells i(1)] i(2) by (auto simp: cell_ok_def split: option.splits)
  have "?es ! i \<in> set ?es" using i(1) by simp
  then obtain p es where p: "(p, es) \<in> set (leaves t)" "?es ! i \<in> set es" by (auto simp: leaf_entries_def)
  then obtain lsn q where V: "V p = Some (LeafPage lsn q es)"
    using st leaf_links_pages [of V "leaves t" None p es] by (auto simp: tree_state_def)
  have "snd st0 p = Inr (LeafPage lsn q es)"
    by (rule ov_holds_clean [OF arena_holds [OF tree_state_arena [OF st]] V]) (simp add: assms(2))
  then show ?thesis using assms(3) p(2) rev by (fastforce simp: revisions_below_def)
qed

lemma handed_over_revisions:
  assumes "represents crc view healthy st0 db ov" "handed_over prov com decoded ov ov'" "revisions_below prov (snd st0)"
    and "\<And>k s. (k, s) \<in> set db \<Longrightarrow> state_revision s \<le> prov" "prov \<le> com" "com < com + 1"
  shows "revisions_below (com + 1) (base_step decoded (snd st0))"
  unfolding revisions_below_def
proof (intro allI impI ballI)
  fix p page e
  assume page: "base_step decoded (snd st0) p = Inr page" and e: "e \<in> set (page_entries page)"
  obtain V t cells fs where st: "tree_state crc view healthy st0 V t (cell_pages cells) fs ov"
    and cells: "cells_ok V (leaf_entries (leaves t)) cells" and db: "db = cell_map (leaf_entries (leaves t)) cells"
    using assms(1) by (auto simp: represents_def)
  have holds: "ov_holds crc view healthy st0 V ov" by (rule arena_holds [OF tree_state_arena [OF st]])
  have "le_revision e \<le> com"
  proof (cases "p \<in> set (ov_dirty ov)")
    case True
    then obtain page0 where V: "V p = Some page0" using holds by (auto simp: ov_holds_def)
    have "map_of (ov_pages ov) p = Some page0"
      using holds V True by (auto simp: ov_holds_def clean_pages_def ov_view_def split: option.splits)
    then have "page = restamp prov com page0"
      using page True assms(2) by (simp add: handed_over_def base_step_def)
    then obtain e0 where e0: "e0 \<in> set (page_entries page0)" "e = restamp_entry prov com e0"
      using e by (auto simp: restamp_relabel)
    then have "e0 \<in> set (leaf_entries (leaves t))" using tree_page_entries [OF st cells True V] by blast
    then have "le_revision e0 \<le> prov" using cell_map_revision [OF cells] assms(4) db by metis
    then show ?thesis using e0(2) assms(5) by (auto simp: restamp_entry_def)
  next
    case False
    then have "snd st0 p = Inr page" using page assms(2) by (simp add: handed_over_def base_step_def)
    then show ?thesis using assms(3,5) e by (fastforce simp: revisions_below_def)
  qed
  then show "le_revision e < com + 1" using assms(6) by (rule order.strict_trans1)
qed

section \<open>Finishing\<close>

text \<open>A candidate and the overlay it leaves, for a transaction that commits at \<open>com\<close>.\<close>

definition finished ::
  "(bytes \<Rightarrow> u32) \<Rightarrow> revision \<Rightarrow> ('f, 'w) overlay \<Rightarrow> lsn \<Rightarrow> prepared_batch \<Rightarrow> ('f, 'w) overlay \<Rightarrow> bool"
where
  "finished crc prov ov com c ov' \<longleftrightarrow>
     handed_over prov com (pb_changed_decoded c) ov ov' \<and> images_of crc (pb_changed_pages c) (pb_changed_decoded c) \<and>
     pb_read_pages c = ov_read_pages ov \<and> pb_commit_lsn c = Some com \<and> com < com + 1 \<and> pb_next_revision c = com + 1 \<and>
     prov \<le> com \<and> pb_batch_id c = ov_next_batch_id ov \<and> ov_next_batch_id ov < ov_next_batch_id ov + 1 \<and>
     pb_base_generation c = sb_generation (ov_current_superblock ov) \<and> pb_new_slot c = other_slot (ov_active_slot ov) \<and>
     next_superblock crc (ov_current_superblock ov) (ov_root_page_id ov) (ov_free_list_head ov) (ov_high_water_page_id ov) =
       Inr (pb_new_superblock c) \<and>
     pb_root_page_id c = ov_root_page_id ov \<and> pb_free_list_head c = ov_free_list_head ov \<and>
     pb_high_water_page_id c = ov_high_water_page_id ov \<and>
     ov_stamp ov' = (com + 1, None, com + 1, ov_next_batch_id ov + 1, pb_new_superblock c, pb_new_slot c) \<and>
     (st_wal (ov_store ov) \<noteq> None \<longrightarrow> unat com = unat (ov_next_lsn ov) + length (ov_dirty ov) + 1)"

lemma checked_add_one: "checked_add_u64 x 1 = Some y \<Longrightarrow> y = x + 1 \<and> x < x + 1"
  using checked_add_u64_less [of x 1 y] by (auto simp: checked_add_u64_def split: if_splits)

lemma wal_commit_lsn_ok:
  assumes "wal_commit_lsn n dirty = Inr com"
  shows "unat com = unat n + dirty + 1" "n \<le> com"
proof -
  show *: "unat com = unat n + dirty + 1"
    using assms by (auto simp: wal_commit_lsn_def checked_add_usize_def checked_add_u64_def unat_word_ariths unat_of_nat
        bindR_eq_Inr split: if_splits)
  show "n \<le> com" using * by (simp add: word_le_nat_alt)
qed

lemma wal_commit_lsn_error: "wal_commit_lsn n dirty = Inl e \<Longrightarrow> e = InternalInvariantViolation"
  by (auto simp: wal_commit_lsn_def bindR_eq_Inl)

context page_store
begin

lemma finish_transaction_outcome:
  assumes "Represents st0 db ov" "ov_last_lsn ov = Some prov" "superblock_ok (ov_current_superblock ov)"
    and "st_wal (ov_store ov) \<noteq> None \<Longrightarrow> prov \<le> ov_next_lsn ov"
  shows "outcome (\<lambda>c ov'. \<exists>com. finished crc prov ov com c ov') (Fails st0 {InternalInvariantViolation})
    (finish_transaction crc ov)"
proof -
  obtain V t cells fs where st: "Tree st0 V t (cell_pages cells) fs ov" using assms(1) by (auto simp: represents_def)
  note holds = arena_holds [OF tree_state_arena [OF st]]
  have com: "same_committed crc view healthy (fst st0) (ov_store ov)" using holds by (simp add: ov_holds_def)
  have fails: "Fails st0 {InternalInvariantViolation} InternalInvariantViolation ov'" if "ov_store ov' = ov_store ov" for ov'
    using com that by (simp add: fails_def)
  have dirty: "set (ov_dirty ov) \<subseteq> dom (map_of (ov_pages ov))" using holds by (auto simp: ov_holds_def clean_pages_def)
  have sound: "\<exists>page. map_of pages p = Some page \<and> is_ok (encode_body page)"
    if pages: "map_of pages = (\<lambda>p. if p \<in> set (ov_dirty ov) then map_option (restamp prov lsn) (map_of (ov_pages ov) p)
        else map_of (ov_pages ov) p)" and p: "p \<in> set (ov_dirty ov)" for pages p lsn
  proof -
    obtain page where V: "V p = Some page" using holds p by (auto simp: ov_holds_def)
    then have "ov_view crc view ov p = Inr page" and snd: "page_sound (ov_high_water_page_id ov) page"
      using holds by (auto simp: ov_holds_def)
    then have "map_of (ov_pages ov) p = Some page" using dirty p by (auto simp: ov_view_def split: option.splits)
    moreover have "page_sound (ov_high_water_page_id ov) (restamp prov lsn page)"
      using snd page_sound_relabel [OF keeps_cell_restamp] by (simp add: restamp_relabel)
    ultimately show ?thesis using pages p by (simp add: page_sound_def)
  qed
  show ?thesis
    unfolding finish_transaction_def
    apply (rule outcome_bindS [where R = "\<lambda>o' ov'. o' = ov \<and> ov' = ov"], simp add: ov_get_def)
    apply (elim conjE, hypsubst, rule outcome_bindS [where R = "\<lambda>r ov'. r = prov \<and> ov' = ov"], simp add: ok_orS_def assms(2))
    apply (elim conjE, hypsubst, rule outcome_bindS [where R = "\<lambda>lsn ov'. ov' = ov \<and> prov \<le> lsn \<and>
        (st_wal (ov_store ov) \<noteq> None \<longrightarrow> unat lsn = unat (ov_next_lsn ov) + length (ov_dirty ov) + 1)"])
    subgoal
      using assms(4) fails
      by (auto split: sum.splits dest: wal_commit_lsn_error wal_commit_lsn_ok intro: order_trans)
    subgoal premises prems for lsn0 ov0 prov0 ov1 lsn ov2
    proof -
      have lsn: "ov2 = ov" "prov \<le> lsn" "st_wal (ov_store ov) \<noteq> None \<longrightarrow> unat lsn = unat (ov_next_lsn ov) + length (ov_dirty ov) + 1"
        using prems by simp_all
      obtain pages where run: "restamp_dirty prov lsn (ov_dirty ov) ov = (Inr (), ov\<lparr>ov_pages := pages\<rparr>)"
        and pages: "map_of pages = (\<lambda>p. if p \<in> set (ov_dirty ov) then map_option (restamp prov lsn) (map_of (ov_pages ov) p)
          else map_of (ov_pages ov) p)"
        using restamp_dirty_run [OF dirty] by blast
      have empty: "images_of crc [] []" by (simp add: images_of_def)
      obtain changed decoded where enc: "encode_changed crc pages (ov_dirty ov) [] [] = Inr (changed, decoded)"
        "images_of crc changed decoded" "map_of decoded = (\<lambda>p. if p \<in> set (ov_dirty ov) then map_of pages p else None)"
        using encode_changed_run [OF sound [OF pages] empty, of "ov_dirty ov"] unfolding map_of.simps by blast
      have sb: "e = InternalInvariantViolation"
        if "next_superblock crc (ov_current_superblock ov) (ov_root_page_id ov) (ov_free_list_head ov) (ov_high_water_page_id ov) = Inl e" for e
        using next_superblock_cases [OF assms(3), of crc "ov_root_page_id ov" "ov_free_list_head ov" "ov_high_water_page_id ov"] that by simp
      show ?thesis
        unfolding lsn(1)
        apply (rule outcome_bindS [where R = "\<lambda>_ ov'. ov' = ov\<lparr>ov_pages := pages\<rparr>"], simp add: run)
        apply (hypsubst, rule outcome_bindS [where R = "\<lambda>new_sb ov'. ov' = ov\<lparr>ov_pages := pages\<rparr> \<and> next_superblock crc
          (ov_current_superblock ov) (ov_root_page_id ov) (ov_free_list_head ov) (ov_high_water_page_id ov) = Inr new_sb"])
        subgoal using fails sb by (auto split: sum.splits)
        apply (elim conjE, hypsubst, rule outcome_bindS [where R = "\<lambda>x ov'. x = pages \<and> ov' = ov\<lparr>ov_pages := pages\<rparr>"], simp add: ov_get_def)
        apply (elim conjE, hypsubst, rule outcome_bindS [where R = "\<lambda>x ov'. x = (changed, decoded) \<and> ov' = ov\<lparr>ov_pages := pages\<rparr>"],
            simp add: enc(1))
        apply (elim conjE, hypsubst, simp only: prod.case)
        apply (cases "checked_add_u64 lsn 1"; cases "checked_add_u64 (ov_next_batch_id ov) 1")
           apply (simp_all add: bindS_def ok_orS_def ov_modify_def Let_def liftR_def fails)
        using lsn(2,3) enc(2,3) pages
        by (auto simp: finished_def handed_over_def ov_stamp_def dest!: checked_add_one)
    qed
    done
qed

end

end
