(* ===== verification/Btree_Prepare.thy ===== *)
theory Btree_Prepare
  imports Btree_Finish
begin

text \<open>
  \<open>prepare_transaction\<close> implements one request of the reference database: it rejects what the
  reference rejects, and otherwise leaves an overlay that represents the reference's next state
  and a candidate carrying the changed pages, at a commit LSN the reference accepts.
\<close>

section \<open>Restamping is committing at the final LSN\<close>

lemma map_apsnd_bm_insert: "map (apsnd g) (bm_insert k s m) = bm_insert k (g s) (map (apsnd g) m)"
  by (induction m) auto

lemma restamp_mutation_state: "restamp_state prov com (mutation_state prov mu) = mutation_state com mu"
  by (cases mu) auto

lemma map_restamp_ref_apply:
  "map (apsnd (restamp_state prov com)) (ref_apply prov ms m) = ref_apply com ms (map (apsnd (restamp_state prov com)) m)"
  by (induction ms arbitrary: m) (simp_all add: map_apsnd_bm_insert restamp_mutation_state)

lemma map_apsnd_encoded: "map (apsnd g) (encoded m) = encoded (map (apsnd g) m)"
  by (induction m) (auto simp: encoded_def)

lemma restamp_ref_apply:
  assumes "\<And>k s. (k, s) \<in> set m \<Longrightarrow> state_revision s < prov"
  shows "map (apsnd (restamp_state prov com)) (encoded (ref_apply prov ms m)) = encoded (ref_apply com ms m)"
proof -
  have "restamp_state prov com s = s" if "(k, s) \<in> set m" for k s
    using assms [OF that] by (cases s) auto
  then have "map (apsnd (restamp_state prov com)) m = m" by (intro map_idI) (auto simp: apsnd_def map_prod_def)
  then show ?thesis by (simp add: map_apsnd_encoded map_restamp_ref_apply)
qed

lemma set_bm_insert: "set (bm_insert k v m) \<subseteq> insert (k, v) (set m)"
  by (induction m) (auto split: if_splits)

lemma ref_apply_revisions: "(k, s) \<in> set (ref_apply r ms m) \<Longrightarrow> (k, s) \<in> set m \<or> state_revision s = r"
proof (induction ms arbitrary: m)
  case (Cons mu ms)
  then show ?case using set_bm_insert [of "mutation_key mu" "mutation_state r mu" m] by fastforce
qed simp

lemma encoded_in: "(k, s) \<in> set (encoded m) \<longleftrightarrow> (\<exists>k'. k = document_key_encode k' \<and> (k', s) \<in> set m)"
  by (auto simp: encoded_def)

section \<open>An overlay between transactions\<close>

definition ov_ready ::
  "(bytes \<Rightarrow> u32) \<Rightarrow> ('f \<Rightarrow> bytes) \<Rightarrow> ('f \<Rightarrow> bool) \<Rightarrow> ('f, 'w) base \<Rightarrow> (document_key, revision_state) bmap
     \<Rightarrow> ('f, 'w) overlay \<Rightarrow> bool"
where
  "ov_ready crc view healthy st0 m ov \<longleftrightarrow>
     represents crc view healthy st0 (encoded m) ov \<and> ov_last_lsn ov = None \<and> 0 < ov_next_revision ov \<and>
     (\<forall>k s. (k, s) \<in> set m \<longrightarrow> state_revision s < ov_next_revision ov) \<and> revisions_below (ov_next_revision ov) (snd st0) \<and>
     superblock_ok (ov_current_superblock ov) \<and>
     (st_wal (fst st0) \<noteq> None \<longrightarrow> ov_next_revision ov \<le> ov_next_lsn ov)"

definition request_fits :: "database_config \<Rightarrow> transaction_request \<Rightarrow> bool" where
  "request_fits cfg req \<longleftrightarrow> list_all (mutation_fits cfg) (mutations req) \<and> list_all (\<lambda>c. key_fits (condition_key c)) (conditions req)"

lemma represents_wal:
  assumes "represents crc view healthy st0 db ov"
  shows "st_wal (ov_store ov) = st_wal (fst st0)"
proof -
  have "(ov_store ov)\<lparr>st_file := st_file (fst st0), st_cache := st_cache (fst st0)\<rparr> = fst st0"
    using assms by (auto simp: represents_def tree_state_def same_committed_def dest: arena_committed)
  from arg_cong [OF this, of st_wal] show ?thesis by simp
qed

lemma ov_ready_below: "ov_ready crc view healthy st0 m ov \<Longrightarrow> (k, s) \<in> set m \<Longrightarrow> state_revision s < ov_next_revision ov"
  by (auto simp: ov_ready_def)

text \<open>The stamps a finished transaction leaves are those of the next transaction.\<close>

lemma finished_ready:
  assumes "ov_ready crc view healthy st0 m ov"
    and "represents crc view healthy st0 (encoded (ref_apply (ov_next_revision ov) ms m)) ov1"
    and "ov_stamp ov1 = ov_stamp (ov\<lparr>ov_last_lsn := Some (ov_next_revision ov)\<rparr>)"
    and "finished crc (ov_next_revision ov) ov1 com c ov'"
  shows "ov_ready crc view healthy (fst st0, base_step (pb_changed_decoded c) (snd st0)) (ref_apply com ms m) ov'"
proof -
  let ?prov = "ov_next_revision ov"
  note ready = assms(1) [unfolded ov_ready_def]
  have fin: "handed_over ?prov com (pb_changed_decoded c) ov1 ov'" "com < com + 1" "?prov \<le> com"
    "next_superblock crc (ov_current_superblock ov1) (ov_root_page_id ov1) (ov_free_list_head ov1) (ov_high_water_page_id ov1) =
       Inr (pb_new_superblock c)"
    "ov_stamp ov' = (com + 1, None, com + 1, ov_next_batch_id ov1 + 1, pb_new_superblock c, pb_new_slot c)"
    using assms(4) by (simp_all add: finished_def)
  have below: "revisions_below ?prov (snd st0)" using ready by simp
  have "represents crc view healthy (fst st0, base_step (pb_changed_decoded c) (snd st0)) (encoded (ref_apply com ms m)) ov'"
    using handed_over_represents [OF assms(2) fin(1) below] restamp_ref_apply [OF ov_ready_below [OF assms(1)]] by simp
  moreover have "revisions_below (com + 1) (base_step (pb_changed_decoded c) (snd st0))"
  proof (rule handed_over_revisions [OF assms(2) fin(1) below _ fin(3,2)])
    fix k s
    assume "(k, s) \<in> set (encoded (ref_apply ?prov ms m))"
    then show "state_revision s \<le> ?prov"
      using ref_apply_revisions [of _ s ?prov ms m] ov_ready_below [OF assms(1)] by (fastforce simp: encoded_in)
  qed
  moreover have "superblock_ok (ov_current_superblock ov1)" using ready assms(3) by (simp add: ov_stamp_def)
  then have "superblock_ok (pb_new_superblock c)" using next_superblock_ok(1) fin(4) by blast
  moreover have "0 < com + 1" using fin(2) by (metis word_gt_0 word_not_simps(1))
  moreover have "state_revision s < com + 1" if "(k, s) \<in> set (ref_apply com ms m)" for k s
  proof -
    have "state_revision s \<le> com"
      using ref_apply_revisions [OF that] ov_ready_below [OF assms(1), of k s] fin(3) by auto
    then show ?thesis using fin(2) by (rule order.strict_trans1)
  qed
  ultimately show ?thesis using fin(5) by (simp add: ov_ready_def ov_stamp_def)
qed

section \<open>One transaction\<close>

lemma ref_transact_at_ok:
  assumes "validate_request req = Inr ()" "ref_check_conditions db (conditions req) = Inr ()" "mutations req \<noteq> []"
    and "0 < com" "com < com + 1"
  shows "\<exists>db'. ref_transact_at req com db = (Inr (Some com), db') \<and> states db' = ref_apply com (mutations req) (states db)"
proof -
  have "unat (com + 1) = unat com + 1" using assms(5) by (auto simp: word_less_nat_alt unat_word_ariths mod_less_divisor split: if_splits)
  then have "checked_add_u64 com 1 = Some (com + 1)" using unat_u64_less [of "com + 1"] by (simp add: checked_add_u64_def)
  then show ?thesis using assms by (simp add: ref_transact_at_def Let_def)
qed

lemma ov_ready_same:
  assumes "ov_ready crc view healthy st0 m ov" "represents crc view healthy st0 (encoded m) ov'" "ov_core ov' = ov_core ov"
  shows "ov_ready crc view healthy st0 m ov'"
  using assms by (simp add: ov_ready_def ov_core_def ov_stamp_def)

text \<open>
  What a transaction leaves: nothing when it only checks conditions; otherwise a candidate at an
  LSN at which the reference database accepts the request, with the reference's next state.
\<close>

definition prepared ::
  "(bytes \<Rightarrow> u32) \<Rightarrow> ('f \<Rightarrow> bytes) \<Rightarrow> ('f \<Rightarrow> bool) \<Rightarrow> ('f, 'w) base \<Rightarrow> reference_db \<Rightarrow> transaction_request
     \<Rightarrow> ('f, 'w) overlay \<Rightarrow> prepared_batch option \<Rightarrow> ('f, 'w) overlay \<Rightarrow> bool"
where
  "prepared crc view healthy st0 db req ov r ov' \<longleftrightarrow>
     (case r of
        None \<Rightarrow> ov_ready crc view healthy st0 (states db) ov' \<and> ov_core ov' = ov_core ov \<and>
          (\<forall>lsn. ref_transact_at req lsn db = (Inr None, db))
      | Some c \<Rightarrow> (\<exists>ov1 com db'.
          represents crc view healthy st0 (encoded (ref_apply (ov_next_revision ov) (mutations req) (states db))) ov1 \<and>
          ov_stamp ov1 = ov_stamp (ov\<lparr>ov_last_lsn := Some (ov_next_revision ov)\<rparr>) \<and>
          finished crc (ov_next_revision ov) ov1 com c ov' \<and>
          ref_transact_at req com db = (Inr (Some com), db') \<and>
          ov_ready crc view healthy (fst st0, base_step (pb_changed_decoded c) (snd st0)) (states db') ov'))"

definition rejected ::
  "(bytes \<Rightarrow> u32) \<Rightarrow> ('f \<Rightarrow> bytes) \<Rightarrow> ('f \<Rightarrow> bool) \<Rightarrow> ('f, 'w) base \<Rightarrow> reference_db \<Rightarrow> transaction_request
     \<Rightarrow> ('f, 'w) overlay \<Rightarrow> error \<Rightarrow> ('f, 'w) overlay \<Rightarrow> bool"
where
  "rejected crc view healthy st0 db req ov e ov' \<longleftrightarrow>
     ov_ready crc view healthy st0 (states db) ov' \<and> ov_core ov' = ov_core ov \<and>
     (e = InvalidInput \<and> \<not> request_fits (st_config (fst st0)) req \<or> (\<forall>lsn. ref_transact_at req lsn db = (Inl e, db)))"

text \<open>
  A request within the limits can still fail while its mutations are applied: no split of a leaf
  fits, or the page ids are exhausted.
\<close>

definition late_errors :: "database_config \<Rightarrow> transaction_request \<Rightarrow> error set" where
  "late_errors cfg req = (if request_fits cfg req \<and> mutations req \<noteq> [] then {InvalidInput, InternalInvariantViolation} else {})"

context page_store
begin

lemma prepare_transaction_outcome:
  assumes "ov_ready crc view healthy st0 (states db) ov"
  shows "outcome (prepared crc view healthy st0 db req ov)
    (\<lambda>e ov'. rejected crc view healthy st0 db req ov e ov' \<or> Fails st0 (late_errors (st_config (fst st0)) req) e ov')
    (prepare_transaction crc ops req ov)"
proof (cases "validate_request req")
  case (Inl e)
  then show ?thesis
    using assms by (simp add: prepare_transaction_def bindS_def liftR_def rejected_def ref_transact_at_def)
next
  case valid: (Inr u)
  have rep: "Represents st0 (encoded (states db)) ov" using assms by (simp add: ov_ready_def)
  let ?cfg = "st_config (fst st0)"
  show ?thesis
  proof (cases "list_all (mutation_fits ?cfg) (mutations req)")
    case False
    then show ?thesis
      using assms valid represents_config [OF rep]
      by (simp add: prepare_transaction_def bindS_def liftR_def validate_mutations_run rejected_def request_fits_def)
  next
    case fits: True
    have valid': "validate_request req = Inr ()" using valid by simp
    have final: "outcome (prepared crc view healthy st0 db req ov) (Fails st0 {InvalidInput, InternalInvariantViolation})
        (bindS (apply_mutations crc ops (mutations req)) (\<lambda>_. bindS (finish_transaction crc) (\<lambda>prepared. returnS (Some prepared))) ov1)"
      if "mutations req \<noteq> []" "Represents st0 (encoded (states db)) ov1" "ov_core ov1 = ov_core ov"
        and "ref_check_conditions db (conditions req) = Inr ()" for ov1
    proof -
      let ?nr = "ov_next_revision ov"
      have nr: "write_revision ov1 = ?nr" "ov_stamp (ov1\<lparr>ov_last_lsn := Some ?nr\<rparr>) = ov_stamp (ov\<lparr>ov_last_lsn := Some ?nr\<rparr>)"
        using assms ov_coreD(2) [OF that(3)] by (auto simp: ov_ready_def ov_stamp_def write_revision_def)
      have finish: "outcome (prepared crc view healthy st0 db req ov) (Fails st0 {InvalidInput, InternalInvariantViolation})
          (bindS (finish_transaction crc) (\<lambda>prepared. returnS (Some prepared)) ov2)"
        if rep2: "Represents st0 (encoded (ref_apply ?nr (mutations req) (states db))) ov2"
          and stamp: "ov_stamp ov2 = ov_stamp (ov\<lparr>ov_last_lsn := Some ?nr\<rparr>)" for ov2
      proof -
        have pre: "ov_last_lsn ov2 = Some ?nr" "superblock_ok (ov_current_superblock ov2)"
          "st_wal (ov_store ov2) \<noteq> None \<Longrightarrow> ?nr \<le> ov_next_lsn ov2"
          using stamp assms represents_wal [OF rep2] by (auto simp: ov_stamp_def ov_ready_def)
        have post: "prepared crc view healthy st0 db req ov (Some c) ov'" if fin: "finished crc ?nr ov2 com c ov'" for com c ov'
        proof -
          have "0 < com" "com < com + 1" using fin assms by (auto simp: finished_def ov_ready_def intro: order.strict_trans2)
          then obtain db' where "ref_transact_at req com db = (Inr (Some com), db')"
            "states db' = ref_apply com (mutations req) (states db)"
            using ref_transact_at_ok [OF valid' \<open>ref_check_conditions db (conditions req) = Inr ()\<close> \<open>mutations req \<noteq> []\<close>] by blast
          then show ?thesis
            using finished_ready [OF assms rep2 stamp fin] rep2 stamp fin unfolding prepared_def option.case by metis
        qed
        show ?thesis
          by (rule outcome_bindS, rule outcome_fails_mono [OF finish_transaction_outcome [OF rep2 pre]])
            (auto intro: post)
      qed
      show ?thesis
        apply (rule outcome_bindS, rule apply_mutations_outcome [OF that(2) fits])
        using finish nr that(1) by auto
    qed
    show ?thesis
      unfolding prepare_transaction_def
      apply (rule outcome_bindS [where R = "\<lambda>_ ov'. ov' = ov"], simp add: valid)
      apply (hypsubst, rule outcome_bindS [where R = "\<lambda>_ ov'. ov' = ov"],
          simp add: validate_mutations_run represents_config [OF rep] fits)
      apply (hypsubst, rule outcome_bindS, rule outcome_mono [OF check_conditions_outcome [OF rep]], assumption)
      subgoal for e ov1
        using valid fits
        by (auto simp: rejected_def request_fits_def ref_transact_at_def intro: fails_mono ov_ready_same [OF assms])
      apply (elim conjE)
      subgoal for u1 s1 u2 s2 u3 ov1
        using outcome_mono [OF final [of ov1]] ov_ready_same [OF assms, of ov1] valid fits
        by (auto simp: prepared_def ref_transact_at_def late_errors_def request_fits_def)
      done
  qed
qed

end

end
