(* ===== verification/Btree_Publish.thy ===== *)
theory Btree_Publish
  imports Btree_Prepare Btree_Store
begin

text \<open>
  Publishing prepared candidates into the store: the committed dirty pages and the page cache move
  on to the pages of the candidates, so that the next overlay reads what was committed.
\<close>

section \<open>The page cache under publication\<close>

lemma cache_insert_lookup:
  assumes "cache_lookup (cache_insert p page c) q = Some x" "0 < cache_capacity c"
  shows "if q = p then x = page else cache_lookup c q = Some x"
proof -
  let ?m = "bm_insert p \<lparr>cached_page = page, last_used = fst (next_clock c)\<rparr> (cache_pages c)"
  have eq: "cache_pages (cache_insert p page c) = evict (cache_capacity c) ?m"
    using assms(2) by (simp add: cache_insert_def next_clock_def Let_def)
  obtain e where e: "map_of (evict (cache_capacity c) ?m) q = Some e" "x = cached_page e"
    using assms(1) by (auto simp: cache_lookup_def eq)
  then have "map_of ?m q = Some e"
    using evict_submap [of "cache_capacity c" ?m] by (auto simp: map_le_def dom_def)
  then show ?thesis using e(2) by (auto simp: cache_lookup_def split: if_splits)
qed

lemma cache_insert_capacity [simp]: "cache_capacity (cache_insert p page c) = cache_capacity c"
  by (simp add: cache_insert_def next_clock_def Let_def)

lemma cache_insert_many_capacity [simp]: "cache_capacity (cache_insert_many kvs c) = cache_capacity c"
  by (induction kvs arbitrary: c) simp_all

lemma cache_insert_many_none: "cache_capacity c = 0 \<Longrightarrow> cache_insert_many kvs c = c"
  by (induction kvs) (simp_all add: cache_insert_def)

lemma cache_insert_many_lookup:
  assumes "cache_lookup (cache_insert_many kvs c) q = Some x" "0 < cache_capacity c" "bm_wf kvs"
  shows "case map_of kvs q of Some page \<Rightarrow> x = page | None \<Rightarrow> cache_lookup c q = Some x"
  using assms
proof (induction kvs arbitrary: c)
  case (Cons kv kvs)
  obtain k page where kv: "kv = (k, page)" by force
  have wf: "bm_wf kvs" and fresh: "map_of kvs k = None"
    using Cons.prems(3) by (auto simp: bm_wf_def kv map_of_eq_None_iff)
  have "case map_of kvs q of Some page \<Rightarrow> x = page | None \<Rightarrow> cache_lookup (cache_insert k page c) q = Some x"
    using Cons.IH [of "cache_insert k page c"] Cons.prems(1,2) wf by (simp add: kv)
  then show ?case
    using cache_insert_lookup [of k page c q x] Cons.prems(2) fresh
    by (auto simp: kv split: option.splits if_splits)
qed simp

section \<open>A store between transactions\<close>

definition store_ready ::
  "(bytes \<Rightarrow> u32) \<Rightarrow> ('f \<Rightarrow> bytes) \<Rightarrow> ('f \<Rightarrow> bool) \<Rightarrow> (document_key, revision_state) bmap \<Rightarrow> ('f, 'w) btree_store \<Rightarrow> bool"
where
  "store_ready crc view healthy m st \<longleftrightarrow>
     ov_ready crc view healthy (st, stored_page crc view st) m (overlay_new st)"

text \<open>An overlay started on a store that shows the pages of another overlay continues where that one is.\<close>

lemma tree_state_rebase:
  assumes "tree_state crc view healthy st0 V t extra fs ov"
    and "\<And>p page. V p = Some page \<Longrightarrow> stored_page crc view st p = Inr page"
    and "coherent crc view st" "length (view (st_file st)) < 2 ^ 64"
    and "st_root_page_id st = ov_root_page_id ov" "st_free_list_head st = ov_free_list_head ov"
    and "st_high_water_page_id st = ov_high_water_page_id ov"
  shows "tree_state crc view healthy (st, stored_page crc view st) V t extra fs (overlay_new st)"
proof -
  have "ov_holds crc view healthy (st, stored_page crc view st) V (overlay_new st)"
    using assms(1-4,7)
    by (auto simp: ov_holds_def same_committed_def clean_pages_def ov_view_def overlay_new_def tree_state_def arena_def)
  then show ?thesis using assms(1,5-7) by (auto simp: tree_state_def arena_def overlay_new_def)
qed

lemma ov_ready_rebase:
  assumes "ov_ready crc view healthy st0 m ov"
    and "\<And>p page. p \<notin> set (ov_dirty ov) \<Longrightarrow> snd st0 p = Inr page \<Longrightarrow> stored_page crc view st p = Inr page"
    and "ov_dirty ov = []" "revisions_below (ov_next_revision ov) (stored_page crc view st)"
    and "coherent crc view st" "length (view (st_file st)) < 2 ^ 64"
    and "st_root_page_id st = ov_root_page_id ov" "st_free_list_head st = ov_free_list_head ov"
    and "st_high_water_page_id st = ov_high_water_page_id ov" "st_next_revision st = ov_next_revision ov"
    and "st_next_lsn st = ov_next_lsn ov" "st_current_superblock st = ov_current_superblock ov"
    and "st_wal st = None \<longleftrightarrow> st_wal (fst st0) = None"
  shows "store_ready crc view healthy m st"
proof -
  obtain V t cells fs where st: "tree_state crc view healthy st0 V t (cell_pages cells) fs ov"
    and cells: "cells_ok V (leaf_entries (leaves t)) cells" and db: "encoded m = cell_map (leaf_entries (leaves t)) cells"
    using assms(1) by (auto simp: represents_def ov_ready_def)
  have "stored_page crc view st p = Inr page" if "V p = Some page" for p page
    using assms(2,3) ov_holds_clean [OF arena_holds [OF tree_state_arena [OF st]] that] by simp
  then have "tree_state crc view healthy (st, stored_page crc view st) V t (cell_pages cells) fs (overlay_new st)"
    by (rule tree_state_rebase [OF st _ assms(5-9)])
  from representsI [OF this cells db] show ?thesis
    using assms(1,4,10-13) by (simp add: store_ready_def ov_ready_def overlay_new_def)
qed

lemma same_committed_fields:
  assumes "same_committed crc view healthy st0 st"
  shows "st_root_page_id st = st_root_page_id st0" "st_free_list_head st = st_free_list_head st0"
    "st_high_water_page_id st = st_high_water_page_id st0" "st_next_revision st = st_next_revision st0"
    "st_next_lsn st = st_next_lsn st0" "st_next_batch_id st = st_next_batch_id st0"
    "st_current_superblock st = st_current_superblock st0" "st_active_slot st = st_active_slot st0"
    "st_wal st = st_wal st0" "st_config st = st_config st0" "st_broken st = st_broken st0"
    "st_fault_injector st = st_fault_injector st0"
proof -
  have eq: "st\<lparr>st_file := st_file st0, st_cache := st_cache st0\<rparr> = st0" using assms by (simp add: same_committed_def)
  show "st_root_page_id st = st_root_page_id st0" "st_free_list_head st = st_free_list_head st0"
    "st_high_water_page_id st = st_high_water_page_id st0" "st_next_revision st = st_next_revision st0"
    "st_next_lsn st = st_next_lsn st0" "st_next_batch_id st = st_next_batch_id st0"
    "st_current_superblock st = st_current_superblock st0" "st_active_slot st = st_active_slot st0"
    "st_wal st = st_wal st0" "st_config st = st_config st0" "st_broken st = st_broken st0"
    "st_fault_injector st = st_fault_injector st0"
    by (subst eq [symmetric], simp)+
qed

text \<open>What a store shows does not depend on its log, its fault injector or its health flag.\<close>

lemma store_ready_cong:
  assumes "store_ready crc view healthy m st0" "stored_page crc view st = stored_page crc view st0"
    and "coherent crc view st" "length (view (st_file st)) < 2 ^ 64"
    and "st_root_page_id st = st_root_page_id st0" "st_free_list_head st = st_free_list_head st0"
    and "st_high_water_page_id st = st_high_water_page_id st0" "st_next_revision st = st_next_revision st0"
    and "st_next_lsn st = st_next_lsn st0" "st_current_superblock st = st_current_superblock st0"
    and "st_wal st = None \<longleftrightarrow> st_wal st0 = None"
  shows "store_ready crc view healthy m st"
  using assms
  by (intro ov_ready_rebase [OF assms(1) [unfolded store_ready_def]])
    (simp_all add: overlay_new_def store_ready_def ov_ready_def)

lemma store_ready_same_committed:
  assumes "store_ready crc view healthy m st0" "same_committed crc view healthy st0 st"
  shows "store_ready crc view healthy m st"
  by (rule store_ready_cong [OF assms(1) same_committed_stored [OF assms(2)]])
    (use assms(2) in \<open>simp_all add: same_committed_fields [OF assms(2)]\<close>, simp_all add: same_committed_def)

lemma store_ready_committed:
  assumes "store_ready crc view healthy m st"
  shows "same_committed crc view healthy st st"
  using assms by (auto simp: store_ready_def ov_ready_def represents_def tree_state_def overlay_new_def dest!: arena_committed)

section \<open>Publishing a candidate\<close>

definition candidate_ok :: "(bytes \<Rightarrow> u32) \<Rightarrow> prepared_batch \<Rightarrow> bool" where
  "candidate_ok crc c \<longleftrightarrow>
     images_of crc (pb_changed_pages c) (pb_changed_decoded c) \<and> bm_wf (pb_read_pages c) \<and>
     (\<exists>com. pb_commit_lsn c = Some com \<and> com < com + 1 \<and> pb_next_revision c = com + 1) \<and>
     pb_batch_id c < pb_batch_id c + 1 \<and>
     (\<exists>bs. encode_superblock crc (pb_new_superblock c) = Inr bs \<and> decode_superblock crc bs = Inr (pb_new_superblock c))"

text \<open>Its images decode to its pages.\<close>

definition pages_wf :: "prepared_batch \<Rightarrow> bool" where
  "pages_wf c \<longleftrightarrow> (\<forall>p page. map_of (pb_changed_decoded c) p = Some page \<longrightarrow> page_data_wf page)"

lemma decode_page_data_encode:
  assumes "page_data_encode crc p page = Inr bs" "page_data_wf page"
  shows "decode_page_data crc p bs = Inr page"
proof -
  obtain body where body: "encode_body page = Inr body"
    and bs: "encode_page crc (page_header_new (page_data_type page) p (page_data_lsn page)) body = Inr bs"
    using assms(1) by (auto simp: page_data_encode_def)
  show ?thesis
    using decode_encode_page [OF bs, of "Some p"] length_encode_body [OF body] decode_encode_body [OF body assms(2)]
    by (simp add: decode_page_data_def page_header_new_def)
qed

lemma stored_page_publish:
  assumes "candidate_ok crc c" "pages_wf c" "view (st_file st') = view (st_file st)"
    and "st_dirty_pages st' = bm_extend (st_dirty_pages st) (pb_changed_pages c)"
  shows "stored_page crc view st' = base_step (pb_changed_decoded c) (stored_page crc view st)"
proof
  fix p
  have wf: "bm_wf (pb_changed_pages c)"
    and rel: "rel_option (\<lambda>bs page. page_data_encode crc p page = Inr bs)
      (map_of (pb_changed_pages c) p) (map_of (pb_changed_decoded c) p)"
    using assms(1) by (auto simp: candidate_ok_def images_of_def)
  have look: "map_of (st_dirty_pages st') p = (map_of (st_dirty_pages st) ++ map_of (pb_changed_pages c)) p"
    by (simp add: assms(4) map_of_bm_extend map_of_rev_wf [OF wf])
  show "stored_page crc view st' p = base_step (pb_changed_decoded c) (stored_page crc view st) p"
  proof (cases "map_of (pb_changed_decoded c) p")
    case None
    then show ?thesis using rel look assms(3) by (simp add: stored_page_def base_step_def map_add_def split: option.splits)
  next
    case (Some page)
    then obtain bs where bs: "map_of (pb_changed_pages c) p = Some bs" "page_data_encode crc p page = Inr bs"
      using rel by (auto elim: option.rel_cases)
    have "page_data_wf page" using assms(2) Some by (simp add: pages_wf_def)
    from decode_page_data_encode [OF bs(2) this] show ?thesis
      using Some bs(1) look by (simp add: stored_page_def base_step_def map_add_def)
  qed
qed

lemma coherent_publish:
  assumes "coherent crc view st" "bm_wf reads" "bm_wf decoded"
    and "\<And>p page. map_of reads p = Some page \<Longrightarrow> stored_page crc view st p = Inr page"
    and "stored_page crc view st' = base_step decoded (stored_page crc view st)"
    and "st_cache st' = cache_insert_many decoded (cache_insert_many reads (st_cache st))"
  shows "coherent crc view st'"
proof (cases "cache_capacity (st_cache st) = 0")
  case True
  then have "cache_pages (st_cache st') = []" "cache_capacity (st_cache st') = 0"
    using assms(1,6) by (auto simp: cache_insert_many_none coherent_def)
  then show ?thesis by (simp add: coherent_def cache_lookup_def)
next
  case False
  have "stored_page crc view st' p = Inr page" if look: "cache_lookup (st_cache st') p = Some page" for p page
  proof -
    have "case map_of decoded p of Some x \<Rightarrow> page = x
        | None \<Rightarrow> cache_lookup (cache_insert_many reads (st_cache st)) p = Some page"
      using cache_insert_many_lookup [OF _ _ assms(3), of "cache_insert_many reads (st_cache st)" p page] look False
      by (simp add: assms(6))
    moreover have "stored_page crc view st p = Inr page"
      if "cache_lookup (cache_insert_many reads (st_cache st)) p = Some page"
      using cache_insert_many_lookup [OF that _ assms(2)] False assms(1,4) by (auto simp: coherent_def split: option.splits)
    ultimately show ?thesis by (auto simp: assms(5) base_step_def split: option.splits)
  qed
  then show ?thesis using False by (simp add: coherent_def assms(6))
qed

lemma checked_add_one_Some: "(x :: u64) < x + 1 \<Longrightarrow> checked_add_u64 x 1 = Some (x + 1)"
proof -
  assume "x < x + 1"
  then have "unat (x + 1) = unat x + 1" by (auto simp: word_less_nat_alt unat_word_ariths mod_less_divisor split: if_splits)
  then show ?thesis using unat_u64_less [of "x + 1"] by (simp add: checked_add_u64_def)
qed

text \<open>What one publication does to the store.\<close>

definition published :: "prepared_batch \<Rightarrow> ('f, 'w) btree_store \<Rightarrow> ('f, 'w) btree_store \<Rightarrow> bool" where
  "published c st st' \<longleftrightarrow>
     st_file st' = st_file st \<and> st_wal st' = st_wal st \<and> st_config st' = st_config st \<and> st_broken st' = st_broken st \<and>
     st_fault_injector st' = st_fault_injector st \<and>
     st_dirty_pages st' = bm_extend (st_dirty_pages st) (pb_changed_pages c) \<and>
     st_cache st' = cache_insert_many (pb_changed_decoded c) (cache_insert_many (pb_read_pages c) (st_cache st)) \<and>
     st_current_superblock st' = pb_new_superblock c \<and> st_active_slot st' = pb_new_slot c \<and>
     st_root_page_id st' = pb_root_page_id c \<and> st_free_list_head st' = pb_free_list_head c \<and>
     st_high_water_page_id st' = pb_high_water_page_id c \<and> st_next_revision st' = pb_next_revision c \<and>
     st_next_lsn st' = pb_next_revision c \<and> st_next_batch_id st' = pb_batch_id c + 1"

lemma publish_candidate_run:
  assumes "candidate_ok crc c" "encode_superblock crc (pb_new_superblock c) = Inr bs"
  shows "\<exists>st'. publish_candidate crc c bs st = (Inr (), st') \<and> published c st st'"
proof -
  obtain com where com: "pb_commit_lsn c = Some com" "com < com + 1" "pb_next_revision c = com + 1"
    and batch: "pb_batch_id c < pb_batch_id c + 1" and dec: "decode_superblock crc bs = Inr (pb_new_superblock c)"
    using assms by (auto simp: candidate_ok_def)
  show ?thesis
    by (auto simp: publish_candidate_def published_def bindS_def liftR_def ok_orS_def st_modify_def Let_def com(1,3) dec
        checked_add_one_Some [OF com(2)] checked_add_one_Some [OF batch])
qed

text \<open>A sequence of publications, each over the pages the previous ones left.\<close>

fun base_steps :: "prepared_batch list \<Rightarrow> (page_id \<Rightarrow> page_data result) \<Rightarrow> page_id \<Rightarrow> page_data result" where
  "base_steps [] base = base"
| "base_steps (c # cs) base = base_steps cs (base_step (pb_changed_decoded c) base)"

fun reads_ok :: "prepared_batch list \<Rightarrow> (page_id \<Rightarrow> page_data result) \<Rightarrow> bool" where
  "reads_ok [] base \<longleftrightarrow> True"
| "reads_ok (c # cs) base \<longleftrightarrow>
     (\<forall>p page. map_of (pb_read_pages c) p = Some page \<longrightarrow> base p = Inr page) \<and>
     reads_ok cs (base_step (pb_changed_decoded c) base)"

inductive publishes :: "prepared_batch list \<Rightarrow> ('f, 'w) btree_store \<Rightarrow> ('f, 'w) btree_store \<Rightarrow> bool" where
  publishes_Nil: "publishes [] st st"
| publishes_Cons: "published c st st1 \<Longrightarrow> publishes cs st1 st' \<Longrightarrow> publishes (c # cs) st st'"

inductive_cases publishes_NilE: "publishes [] st st'"
inductive_cases publishes_ConsE: "publishes (c # cs) st st'"

lemma publishes_pages:
  assumes "publishes cs st st'" "list_all (\<lambda>c. candidate_ok crc c \<and> pages_wf c) cs" "coherent crc view st" "reads_ok cs (stored_page crc view st)"
  shows "stored_page crc view st' = base_steps cs (stored_page crc view st)" "coherent crc view st'"
    and "st_file st' = st_file st" "st_wal st' = st_wal st" "st_broken st' = st_broken st"
    and "st_fault_injector st' = st_fault_injector st" "st_config st' = st_config st"
proof -
  have "stored_page crc view st' = base_steps cs (stored_page crc view st) \<and> coherent crc view st' \<and> st_file st' = st_file st \<and>
      st_wal st' = st_wal st \<and> st_broken st' = st_broken st \<and> st_fault_injector st' = st_fault_injector st \<and> st_config st' = st_config st"
    using assms
  proof (induction rule: publishes.induct)
    case (publishes_Cons c st st1 cs st')
    have ok: "candidate_ok crc c" "pages_wf c" and wf: "bm_wf (pb_read_pages c)" "bm_wf (pb_changed_decoded c)"
      using publishes_Cons.prems(1) by (auto simp: candidate_ok_def images_of_def)
    have "stored_page crc view st1 = base_step (pb_changed_decoded c) (stored_page crc view st)"
      by (rule stored_page_publish [OF ok]) (use publishes_Cons.hyps(1) in \<open>simp_all add: published_def\<close>)
    moreover from this have "coherent crc view st1"
      by (rule coherent_publish [OF publishes_Cons.prems(2) wf, rotated])
        (use publishes_Cons.hyps(1) publishes_Cons.prems(3) in \<open>simp_all add: published_def\<close>)
    ultimately show ?case
      using publishes_Cons.IH publishes_Cons.prems publishes_Cons.hyps(1) by (simp add: published_def)
  qed simp
  then show "stored_page crc view st' = base_steps cs (stored_page crc view st)" "coherent crc view st'"
    "st_file st' = st_file st" "st_wal st' = st_wal st" "st_broken st' = st_broken st"
    "st_fault_injector st' = st_fault_injector st" "st_config st' = st_config st" by simp_all
qed

lemma encode_candidates_run:
  assumes "list_all (candidate_ok crc) cs"
  shows "\<exists>bss commits. encode_candidates crc wal cs = Inr (bss, commits) \<and>
    list_all2 (\<lambda>c bs. encode_superblock crc (pb_new_superblock c) = Inr bs) cs bss"
  using assms
proof (induction cs)
  case (Cons c cs)
  then obtain bs com bss commits where "encode_superblock crc (pb_new_superblock c) = Inr bs" "pb_commit_lsn c = Some com"
    "encode_candidates crc wal cs = Inr (bss, commits)" "list_all2 (\<lambda>c bs. encode_superblock crc (pb_new_superblock c) = Inr bs) cs bss"
    by (auto simp: candidate_ok_def)
  then show ?case by (simp add: wal_commit_of_def)
qed simp

lemma publish_candidates_run:
  assumes "list_all (candidate_ok crc) cs" "list_all2 (\<lambda>c bs. encode_superblock crc (pb_new_superblock c) = Inr bs) cs bss"
  shows "\<exists>st'. publish_candidates crc cs bss st = (Inr (), st') \<and> publishes cs st st'"
  using assms(2,1)
proof (induction arbitrary: st rule: list_all2_induct)
  case Nil
  then show ?case by (auto simp: returnS_def intro: publishes_Nil)
next
  case (Cons c cs bs bss)
  obtain st1 where one: "publish_candidate crc c bs st = (Inr (), st1)" "published c st st1"
    using publish_candidate_run [of crc c bs st] Cons by auto
  obtain st' where "publish_candidates crc cs bss st1 = (Inr (), st')" "publishes cs st1 st'" using Cons by auto
  then show ?case using one by (auto simp: bindS_def intro: publishes_Cons)
qed

end
