(* ===== verification/Btree_Growth.thy ===== *)
theory Btree_Growth
  imports Btree_Prepare
begin

text \<open>
  The high-water mark of an overlay never falls: page ids are only ever handed out past it. Only
  the allocation of a page moves it at all, so every operation that allocates nothing is
  \<open>steady\<close>, and the others are shown to grow by the structure of their code. The rules are collected
  in \<open>keeps_intros\<close> and \<open>grows_intros\<close>.
\<close>

section \<open>Operations that allocate nothing\<close>

abbreviation steady :: "('f, 'w, 'a) overlay_op \<Rightarrow> bool" where
  "steady \<equiv> keeps ov_high_water_page_id"

lemma keeps_ok_orS [keeps_intros]: "keeps field (ok_orS y e)"
  by (simp add: keeps_def ok_orS_def liftR_def)

lemma steady_pure [keeps_intros]:
  "steady (replace_page p page)" "steady allocate_revision"
  "steady (validate_value v)" "steady (check_page_id p)" "steady (ov_get field)" "steady (free_page p lsn)"
  by (simp_all add: keeps_def replace_page_def allocate_revision_def Let_def
      validate_value_def check_page_id_def ov_get_def free_page_def bindS_def)

lemma steady_ov_page [keeps_intros]: "steady (ov_page crc ops p)"
  unfolding ov_page_def by (rule keeps_bindS, rule keeps_intros) (auto simp: keeps_def split: option.splits prod.splits sum.splits)

lemma steady_ov_leaf [keeps_intros]: "steady (ov_leaf crc ops p)" "steady (ov_internal crc ops p)"
  unfolding ov_leaf_def ov_internal_def by (auto intro!: keeps_intros split: page_data.splits)

lemma steady_write_overflow_pages [keeps_intros]: "steady (write_overflow_pages lsn len ps cs)"
  by (induction lsn len ps cs rule: write_overflow_pages.induct) (auto intro!: keeps_intros)

lemma steady_free_chain: "ov_high_water_page_id (snd (free_chain crc ops len lsn p vis n k ov)) = ov_high_water_page_id ov"
proof (induction crc ops len lsn p vis n k ov rule: free_chain.induct)
  case (2 crc ops len lsn current visited acc_len count ov)
  obtain r ov1 where r: "ov_page crc ops current ov = (r, ov1)" by force
  have eq: "ov_high_water_page_id ov1 = ov_high_water_page_id ov" by (rule keeps_run [OF steady_ov_page r])
  have free: "ov_high_water_page_id (snd (free_page current lsn ov1)) = ov_high_water_page_id ov1"
    by (simp add: free_page_def bindS_def replace_page_def)
  show ?case
    using 2 r eq free by (subst free_chain.simps) (auto split: sum.splits page_data.splits option.splits)
qed simp

lemma steady_find_leaf_loop: "ov_high_water_page_id (snd (find_leaf_loop crc ops key p route vis ov)) = ov_high_water_page_id ov"
proof (induction crc ops key p route vis ov rule: find_leaf_loop.induct)
  case (1 crc ops key p route vis ov)
  obtain r ov1 where r: "ov_page crc ops p ov = (r, ov1)" by force
  have eq: "ov_high_water_page_id ov1 = ov_high_water_page_id ov" by (rule keeps_run [OF steady_ov_page r])
  show ?case
    using 1 r eq by (subst find_leaf_loop.simps) (auto simp: Let_def split: sum.splits page_data.splits)
qed

lemma steady_loops [keeps_intros]: "steady (free_chain crc ops len lsn p vis n k)" "steady (find_leaf crc ops key)"
  using steady_free_chain steady_find_leaf_loop by (auto simp: keeps_def find_leaf_def)

lemma steady_free_value [keeps_intros]: "steady (free_value crc ops v lsn)"
  unfolding free_value_def by (auto intro!: keeps_intros split: option.splits value_ref.splits)

lemma steady_get_observed_state [keeps_intros]: "steady (get_observed_state crc ops key)"
  unfolding get_observed_state_def Let_def by (auto intro!: keeps_intros split: prod.splits option.splits)

lemma steady_stages [keeps_intros]: "steady (check_conditions crc ops cs)" "steady (validate_mutations ms)"
  by (induction cs, auto intro!: keeps_intros split: if_splits)
    (induction ms, auto intro!: keeps_intros simp: validate_transaction_mutation_def split: transaction_mutation.splits)

lemma steady_restamp_dirty [keeps_intros]: "steady (restamp_dirty prov com pids)"
proof -
  have "ov_high_water_page_id (snd (restamp_dirty prov com pids ov)) = ov_high_water_page_id ov" for ov :: "('a, 'b) overlay"
    by (induction pids arbitrary: ov) (simp_all split: option.splits)
  then show ?thesis by (simp add: keeps_def)
qed

lemma steady_ov_modify [keeps_intros]: "(\<And>ov. ov_high_water_page_id (update ov) = ov_high_water_page_id ov) \<Longrightarrow> steady (ov_modify update)"
  by (simp add: keeps_def ov_modify_def)

lemma steady_finish_transaction [keeps_intros]: "steady (finish_transaction crc)"
  unfolding finish_transaction_def Let_def by (auto intro!: keeps_intros split: prod.splits)

section \<open>Operations that may allocate\<close>

definition grows :: "('f, 'w, 'a) overlay_op \<Rightarrow> bool" where
  "grows m \<longleftrightarrow> (\<forall>ov. ov_high_water_page_id ov \<le> ov_high_water_page_id (snd (m ov)))"

named_theorems grows_intros

lemma grows_run: "grows m \<Longrightarrow> m ov = (r, ov') \<Longrightarrow> ov_high_water_page_id ov \<le> ov_high_water_page_id ov'"
  unfolding grows_def by (metis snd_conv)

lemma grows_bindS [grows_intros]:
  assumes "grows m" "\<And>x. grows (f x)"
  shows "grows (bindS m f)"
  unfolding grows_def
proof
  fix ov
  obtain r ov1 where r: "m ov = (r, ov1)" by force
  show "ov_high_water_page_id ov \<le> ov_high_water_page_id (snd (bindS m f ov))"
  proof (cases r)
    case (Inl e)
    then show ?thesis using grows_run [OF assms(1) r] r by (simp add: bindS_def)
  next
    case (Inr x)
    then show ?thesis
      using grows_run [OF assms(1) r] r assms(2) [of x] order_trans by (fastforce simp: bindS_def grows_def)
  qed
qed

lemma steady_grows: "steady m \<Longrightarrow> grows m"
  by (simp add: keeps_def grows_def)

declare keeps_pure [THEN steady_grows, grows_intros] keeps_ok_orS [THEN steady_grows, grows_intros]
  steady_pure [THEN steady_grows, grows_intros] steady_ov_page [THEN steady_grows, grows_intros]
  steady_ov_leaf [THEN steady_grows, grows_intros] steady_write_overflow_pages [THEN steady_grows, grows_intros]
  steady_loops [THEN steady_grows, grows_intros] steady_free_value [THEN steady_grows, grows_intros]
  steady_stages [THEN steady_grows, grows_intros] steady_finish_transaction [THEN steady_grows, grows_intros]

lemma grows_allocate_page [grows_intros]: "grows (allocate_page crc ops :: ('f, 'w, page_id) overlay_op)"
  unfolding grows_def
proof
  fix ov :: "('f, 'w) overlay"
  show "ov_high_water_page_id ov \<le> ov_high_water_page_id (snd (allocate_page crc ops ov))"
  proof (cases "ov_free_list_head ov")
    case None
    then show ?thesis
      by (auto simp: allocate_page_def dest!: checked_add_u64_less split: option.splits)
  next
    case (Some p)
    have "grows (bindS (ov_page crc ops p) (\<lambda>page ov. case page of
        FreePage _ nxt \<Rightarrow> (Inr p, ov\<lparr>ov_free_list_head := nxt, ov_allocated := insert p (ov_allocated ov)\<rparr>)
      | _ \<Rightarrow> (Inl Corruption, ov)) :: ('f, 'w, page_id) overlay_op)"
      by (rule grows_bindS, rule grows_intros) (simp add: grows_def split: page_data.splits)
    then show ?thesis using Some by (simp add: allocate_page_def grows_def)
  qed
qed

lemma grows_allocate_pages [grows_intros]: "grows (allocate_pages crc ops n ps)"
  by (induction n arbitrary: ps) (auto intro!: grows_intros)

lemma grows_make_value [grows_intros]: "grows (make_value crc ops val lsn :: ('f, 'w, value_ref) overlay_op)"
proof -
  have "grows (bindS (allocate_pages crc ops n []) (\<lambda>page_ids.
      bindS (write_overflow_pages lsn len page_ids cs) (\<lambda>_. returnS (Overflow (hd page_ids) len))) :: ('f, 'w, value_ref) overlay_op)"
    for n len cs
    by (intro grows_intros)
  then show ?thesis by (simp add: grows_def make_value_def Let_def)
qed

lemma grows_insert_parent_loop [grows_intros]: "grows (insert_parent_loop crc ops route sep right lsn)"
proof (induction route arbitrary: sep right)
  case Nil
  have "grows (\<lambda>ov. bindS (replace_page p (InternalPage lsn (ov_root_page_id ov) es)) (\<lambda>_ ov. (Inr (), ov\<lparr>ov_root_page_id := p\<rparr>)) ov)" for p es
    by (simp add: grows_def bindS_def replace_page_def)
  then show ?case by (auto intro!: grows_intros)
next
  case (Cons p route)
  then show ?case by (auto simp: Let_def intro!: grows_intros split: prod.splits)
qed

lemma grows_insert_leaf_entries [grows_intros]: "grows (insert_leaf_entries crc ops p route nxt es lsn)"
  unfolding insert_leaf_entries_def insert_parent_separator_def Let_def
  by (auto intro!: grows_intros split: list.splits)

lemma grows_put_delete [grows_intros]: "grows (ov_put crc ops key val)" "grows (ov_delete crc ops key)"
  unfolding ov_put_def ov_delete_def Let_def by (auto intro!: grows_intros split: prod.splits sum.splits)

lemma grows_apply_mutations [grows_intros]: "grows (apply_mutations crc ops ms)"
  by (induction ms) (auto intro!: grows_intros split: transaction_mutation.splits)

lemma grows_prepare_transaction: "grows (prepare_transaction crc ops req)"
  unfolding prepare_transaction_def by (auto intro!: grows_intros)

end
