(* ===== verification/Btree_Commit.thy ===== *)
theory Btree_Commit
  imports Btree_Publish Btree_Growth
begin

text \<open>
  A transaction from its request to its publication, on a store with a write-ahead log. The store
  refines the reference database of the test kit: it accepts and rejects what the reference does,
  and what it represents afterwards is the reference's next state. Requests are also run in
  groups that share one log append; a group is equivalent to its requests one after the other.
\<close>

section \<open>Without an armed fault the log appends without one\<close>

definition quiet :: "('f wal_state, error, 'a) stateful \<Rightarrow> bool" where
  "quiet m \<longleftrightarrow> (\<forall>w. snd (snd (m (w, None))) = None)"

named_theorems quiet_intros

lemma quiet_bindS [quiet_intros]: "quiet m \<Longrightarrow> (\<And>x. quiet (f x)) \<Longrightarrow> quiet (bindS m f)"
  unfolding quiet_def bindS_def by (auto split: prod.splits sum.splits) (metis prod.collapse snd_conv)+

lemma quiet_basic [quiet_intros]:
  "quiet (liftR r)" "quiet (returnS x)" "quiet (ok_orS y e)" "quiet (wal_hit point)" "quiet (wal_get field)"
  "quiet (wal_modify update)" "quiet (wal_io io)" "quiet (wal_len ops)"
  by (simp_all add: quiet_def liftR_def returnS_def ok_orS_def wal_hit_def wal_get_def wal_modify_def wal_io_def wal_len_def
      split: prod.splits)

lemma quiet_map_errS [quiet_intros]: "quiet m \<Longrightarrow> quiet (map_errS g m)"
  by (simp add: quiet_def map_errS_def split_def)

lemma quiet_append_frame [quiet_intros]: "quiet (append_frame crc ops t lsn batch index payload)"
  unfolding append_frame_def Let_def by (intro quiet_intros)

lemma quiet_append_page_images [quiet_intros]: "quiet (append_page_images crc ops c lsn i pages d n)"
  by (induction pages arbitrary: i d n) (auto intro!: quiet_intros)

lemma quiet_append_group_commit [quiet_intros]: "quiet (append_group_commit crc ops c lsn batch)"
  unfolding append_group_commit_def append_commit_record_def Let_def
  by (auto intro!: quiet_intros split: prod.splits)

lemma quiet_append_commits [quiet_intros]: "quiet (append_commits crc ops cs lsn batch reports com)"
  by (induction cs arbitrary: lsn batch reports com) (auto intro!: quiet_intros)

lemma quiet_append_group: "quiet (append_group crc ops cs)"
  unfolding append_group_def append_group_records_def finish_group_def
  by (auto intro!: quiet_intros split: prod.splits)

section \<open>Publishing a group\<close>

text \<open>The parts of a store that the log append touches.\<close>

definition logged :: "('f, 'w) btree_store \<Rightarrow> ('f, 'w) btree_store \<Rightarrow> bool" where
  "logged st st' \<longleftrightarrow> (\<exists>w b. st' = st\<lparr>st_wal := Some w, st_broken := b\<rparr>)"

lemma publishes_fault: "publishes cs st st' \<Longrightarrow> st_fault_injector st' = st_fault_injector st"
  by (induction rule: publishes.induct) (simp_all add: published_def)

lemma publish_prepared_group_cases:
  assumes "list_all (candidate_ok crc) cs" "st_wal st \<noteq> None" "st_fault_injector st = None"
    and "\<exists>c \<in> set cs. pb_changed_pages c \<noteq> []"
  shows "case publish_prepared_group crc ops wops cs st of
      (Inr _, st') \<Rightarrow> contiguous_generations (sb_generation (st_current_superblock st)) cs \<and>
        (\<exists>st1. logged st st1 \<and> st_broken st1 = st_broken st \<and> publishes cs st1 st')
    | (Inl e, st') \<Rightarrow> st' = st \<and> (st_broken st \<or> \<not> contiguous_generations (sb_generation (st_current_superblock st)) cs) \<or>
        logged st st' \<and> st_broken st'"
proof -
  obtain wal where wal: "st_wal st = Some wal" using assms(2) by blast
  obtain bss commits where enc: "encode_candidates crc True cs = Inr (bss, commits)"
    and bss: "list_all2 (\<lambda>c bs. encode_superblock crc (pb_new_superblock c) = Inr bs) cs bss"
    using encode_candidates_run [OF assms(1)] by blast
  obtain r wal' i where run: "append_group crc wops commits (wal, None) = (r, wal', i)" by (metis prod.collapse)
  have i: "i = None" using quiet_append_group [of crc wops commits] run by (metis quiet_def snd_conv)
  let ?st = "st\<lparr>st_wal := Some wal'\<rparr>"
  have some: "\<not> list_all (\<lambda>c. pb_changed_pages c = []) cs" using assms(4) by (auto simp: list_all_iff)
  have upd: "st\<lparr>st_wal := Some wal', st_fault_injector := None\<rparr> = ?st" using assms(3) by simp
  obtain st' where pub: "publish_candidates crc cs bss ?st = (Inr (), st')" "publishes cs ?st st'"
    using publish_candidates_run [OF assms(1) bss] by blast
  have fault: "st_fault_injector st' = None" using publishes_fault [OF pub(2)] assms(3) by simp
  then have same: "st'\<lparr>st_fault_injector := None\<rparr> = st'" by simp
  show ?thesis
  proof (cases "st_broken st \<or> \<not> contiguous_generations (sb_generation (st_current_superblock st)) cs")
    case True
    then show ?thesis by (auto simp: publish_prepared_group_def bindS_def st_get_def liftR_def)
  next
    case False
    show ?thesis
    proof (cases r)
      case (Inl e)
      then show ?thesis
        using False some wal enc run i
        by (auto simp: publish_prepared_group_def bindS_def st_get_def liftR_def or_broken_def append_to_wal_def assms(3)
            logged_def upd)
    next
      case (Inr reports)
      have "logged st ?st" by (auto simp: logged_def intro!: exI [of _ wal'] exI [of _ "st_broken st"])
      then show ?thesis
        using False some wal enc run i Inr pub fault
        by (auto simp: publish_prepared_group_def bindS_def st_get_def liftR_def or_broken_def append_to_wal_def assms(3)
            upd st_hit_fault_def same intro!: exI [of _ ?st])
    qed
  qed
qed

section \<open>Candidates of prepared transactions\<close>

lemma finished_reads:
  assumes "represents crc view healthy st0 db ov" "finished crc prov ov com c ov'"
  shows "map_of (pb_read_pages c) p = Some page \<Longrightarrow> snd st0 p = Inr page" "bm_wf (pb_read_pages c)"
  using assms by (auto simp: represents_def finished_def ov_holds_def clean_pages_def dest!: tree_state_arena arena_holds)

lemma finished_candidate:
  assumes "represents crc view healthy st0 db ov" "finished crc prov ov com c ov'" "superblock_ok (ov_current_superblock ov)"
  shows "candidate_ok crc c"
  using assms(2) finished_reads(2) [OF assms(1,2)] next_superblock_ok(3) [OF assms(3)]
  by (auto simp: candidate_ok_def finished_def)

lemma finished_pages_wf:
  assumes "represents crc view healthy st0 db ov" "finished crc prov ov com c ov'" "pb_high_water_page_id c \<noteq> NULL_PAGE_ID"
  shows "pages_wf c"
  unfolding pages_wf_def
proof (intro allI impI)
  fix p page
  assume decoded: "map_of (pb_changed_decoded c) p = Some page"
  note fin = assms(2) [unfolded finished_def]
  obtain V t cells fs where st: "tree_state crc view healthy st0 V t (cell_pages cells) fs ov"
    using assms(1) by (auto simp: represents_def)
  note holds = arena_holds [OF tree_state_arena [OF st]]
  have over: "handed_over prov com (pb_changed_decoded c) ov ov'" using fin by simp
  have p: "p \<in> set (ov_dirty ov)" and page: "map_of (ov_pages ov') p = Some page"
    using decoded over by (auto simp: handed_over_def split: if_splits)
  obtain page0 where V: "V p = Some page0" using holds p by (auto simp: ov_holds_def)
  then have new: "restamp_heap prov com (ov_dirty ov) V p = Some (restamp prov com page0)"
    using p by (simp add: restamp_heap_def)
  have "ov_view crc view ov' p = Inr (restamp prov com page0)" "page_sound (ov_high_water_page_id ov') (restamp prov com page0)"
    using handed_over_holds [OF holds over] new by (auto simp: ov_holds_def)
  then have "page_sound (pb_high_water_page_id c) page"
    using page fin over by (simp add: ov_view_def handed_over_def)
  then show "page_data_wf page" using assms(3) by (rule page_sound_wf)
qed

lemma bm_insert_in: "(k, v) \<in> set (bm_insert k v m)"
  by (induction m) auto

lemma ref_apply_writes:
  assumes "ms \<noteq> []"
  shows "\<exists>k s. (k, s) \<in> set (ref_apply r ms m) \<and> state_revision s = r"
proof -
  obtain ms' mu where ms: "ms = ms' @ [mu]" using assms by (cases ms rule: rev_cases) auto
  have "ref_apply r ms m = bm_insert (mutation_key mu) (mutation_state r mu) (ref_apply r ms' m)"
    by (simp add: ms ref_apply_def)
  then show ?thesis using bm_insert_in state_revision_mutation_state by metis
qed

lemma finished_changed:
  assumes "represents crc view healthy st0 (encoded (ref_apply prov ms m)) ov" "ms \<noteq> []" "revisions_below prov (snd st0)"
    and "finished crc prov ov com c ov'"
  shows "pb_changed_pages c \<noteq> []"
proof
  assume none: "pb_changed_pages c = []"
  have over: "handed_over prov com (pb_changed_decoded c) ov ov'" and im: "images_of crc (pb_changed_pages c) (pb_changed_decoded c)"
    using assms(4) by (simp_all add: finished_def)
  have unchanged: "map_of (pb_changed_decoded c) p = None" for p
  proof -
    have "rel_option (\<lambda>bs page. page_data_encode crc p page = Inr bs) (map_of (pb_changed_pages c) p) (map_of (pb_changed_decoded c) p)"
      using im by (simp add: images_of_def)
    then show ?thesis by (simp add: none)
  qed
  obtain V t cells fs where st: "tree_state crc view healthy st0 V t (cell_pages cells) fs ov"
    using assms(1) by (auto simp: represents_def)
  have sub: "set (ov_dirty ov) \<subseteq> dom (map_of (ov_pages ov))"
    using arena_holds [OF tree_state_arena [OF st]] by (auto simp: ov_holds_def clean_pages_def)
  have "p \<notin> set (ov_dirty ov)" for p
  proof
    assume p: "p \<in> set (ov_dirty ov)"
    then obtain page where "map_of (ov_pages ov) p = Some page" using sub by blast
    then have "map_of (pb_changed_decoded c) p \<noteq> None" using over p by (simp add: handed_over_def)
    then show False using unchanged by simp
  qed
  then have dirty: "ov_dirty ov = []" by (cases "ov_dirty ov") auto
  obtain k s where "(k, s) \<in> set (ref_apply prov ms m)" "state_revision s = prov" using ref_apply_writes [OF assms(2)] by blast
  then have "(document_key_encode k, s) \<in> set (encoded (ref_apply prov ms m))" by (auto simp: encoded_in)
  from represents_below [OF assms(1) dirty assms(3) this] show False using \<open>state_revision s = prov\<close> by simp
qed

text \<open>What the overlay was when a candidate was handed over: the store after its publication.\<close>

definition ends_at ::
  "(bytes \<Rightarrow> u32) \<Rightarrow> ('f \<Rightarrow> bytes) \<Rightarrow> ('f \<Rightarrow> bool) \<Rightarrow> ('f, 'w) base \<Rightarrow> (document_key, revision_state) bmap \<Rightarrow> prepared_batch \<Rightarrow> bool"
where
  "ends_at crc view healthy st0 m c \<longleftrightarrow>
     (\<exists>ov. ov_ready crc view healthy st0 m ov \<and> ov_dirty ov = [] \<and>
        pb_root_page_id c = ov_root_page_id ov \<and> pb_free_list_head c = ov_free_list_head ov \<and>
        pb_high_water_page_id c = ov_high_water_page_id ov \<and> pb_next_revision c = ov_next_revision ov \<and>
        ov_next_lsn ov = ov_next_revision ov \<and> pb_new_superblock c = ov_current_superblock ov)"

lemma finished_ends:
  assumes "finished crc prov ov com c ov'" "ov_ready crc view healthy st0 m ov'"
  shows "ends_at crc view healthy st0 m c"
  unfolding ends_at_def
  by (rule exI [of _ ov']) (use assms in \<open>auto simp: finished_def handed_over_def ov_stamp_def\<close>)

text \<open>
  The candidates of a group, in order: each carries the images of its pages, was staged over the
  pages its predecessors left, and continues their generations and their high-water mark.
\<close>

fun candidates ::
  "(bytes \<Rightarrow> u32) \<Rightarrow> ('f \<Rightarrow> bytes) \<Rightarrow> ('f \<Rightarrow> bool) \<Rightarrow> ('f, 'w) base \<Rightarrow> u64 \<Rightarrow> page_id \<Rightarrow> prepared_batch list
     \<Rightarrow> (document_key, revision_state) bmap \<Rightarrow> (document_key, revision_state) bmap \<Rightarrow> bool"
where
  "candidates crc view healthy st0 gen low [] m m' \<longleftrightarrow> m' = m"
| "candidates crc view healthy st0 gen low (c # cs) m m' \<longleftrightarrow>
     candidate_ok crc c \<and> (pb_high_water_page_id c \<noteq> NULL_PAGE_ID \<longrightarrow> pages_wf c) \<and> pb_changed_pages c \<noteq> [] \<and>
     pb_base_generation c = gen \<and> low \<le> pb_high_water_page_id c \<and>
     (\<forall>p page. map_of (pb_read_pages c) p = Some page \<longrightarrow> snd st0 p = Inr page) \<and>
     (\<exists>m1. ends_at crc view healthy (fst st0, base_step (pb_changed_decoded c) (snd st0)) m1 c \<and>
        candidates crc view healthy (fst st0, base_step (pb_changed_decoded c) (snd st0)) (sb_generation (pb_new_superblock c))
          (pb_high_water_page_id c) cs m1 m')"

lemma candidates_low: "candidates crc view healthy st0 gen low cs m m' \<Longrightarrow> low' \<le> low \<Longrightarrow> candidates crc view healthy st0 gen low' cs m m'"
  by (cases cs) (auto intro: order_trans)

lemma candidates_high:
  "candidates crc view healthy st0 gen low cs m m' \<Longrightarrow> c \<in> set cs \<Longrightarrow> pb_high_water_page_id c \<le> pb_high_water_page_id (last cs)"
proof (induction cs arbitrary: st0 gen low m c)
  case (Cons d cs)
  show ?case
  proof (cases cs)
    case (Cons d' cs')
    obtain m1 where tail: "candidates crc view healthy (fst st0, base_step (pb_changed_decoded d) (snd st0))
        (sb_generation (pb_new_superblock d)) (pb_high_water_page_id d) cs m1 m'"
      using Cons.prems(1) unfolding candidates.simps by blast
    have le: "pb_high_water_page_id c \<le> pb_high_water_page_id (last cs)" if "c \<in> set cs" for c by (rule Cons.IH [OF tail that])
    have "pb_high_water_page_id d \<le> pb_high_water_page_id d'" using tail local.Cons by simp
    also have "pb_high_water_page_id d' \<le> pb_high_water_page_id (last cs)" using le local.Cons by simp
    finally show ?thesis using Cons.prems(2) le local.Cons by auto
  qed (use Cons.prems in simp)
qed simp

lemma candidates_ok:
  assumes "candidates crc view healthy st0 gen low cs m m'"
  shows "reads_ok cs (snd st0)" "contiguous_generations gen cs" "\<forall>c \<in> set cs. pb_changed_pages c \<noteq> []"
    and "cs \<noteq> [] \<Longrightarrow> ends_at crc view healthy (fst st0, base_steps cs (snd st0)) m' (last cs)"
proof -
  have "reads_ok cs (snd st0) \<and> contiguous_generations gen cs \<and> (\<forall>c \<in> set cs. pb_changed_pages c \<noteq> []) \<and>
      (cs \<noteq> [] \<longrightarrow> ends_at crc view healthy (fst st0, base_steps cs (snd st0)) m' (last cs))"
    using assms by (induction cs arbitrary: st0 gen low m) fastforce+
  then show "reads_ok cs (snd st0)" "contiguous_generations gen cs" "\<forall>c \<in> set cs. pb_changed_pages c \<noteq> []"
    "cs \<noteq> [] \<Longrightarrow> ends_at crc view healthy (fst st0, base_steps cs (snd st0)) m' (last cs)" by simp_all
qed

lemma candidates_images:
  assumes "candidates crc view healthy st0 gen low cs m m'"
  shows "list_all (candidate_ok crc) cs"
    and "pb_high_water_page_id (last cs) \<noteq> NULL_PAGE_ID \<Longrightarrow> list_all (\<lambda>c. candidate_ok crc c \<and> pages_wf c) cs"
proof -
  have all: "\<forall>c \<in> set cs. candidate_ok crc c \<and> (pb_high_water_page_id c \<noteq> NULL_PAGE_ID \<longrightarrow> pages_wf c)"
    using assms by (induction cs arbitrary: st0 gen low m) fastforce+
  then show "list_all (candidate_ok crc) cs" by (simp add: list_all_iff)
  assume "pb_high_water_page_id (last cs) \<noteq> NULL_PAGE_ID"
  then have "pb_high_water_page_id c \<noteq> NULL_PAGE_ID" if "c \<in> set cs" for c
    using candidates_high [OF assms that] by (metis word_order.extremum_uniqueI)
  then show "list_all (\<lambda>c. candidate_ok crc c \<and> pages_wf c) cs" using all by (simp add: list_all_iff)
qed

lemma publishes_last:
  "publishes cs st st' \<Longrightarrow> cs \<noteq> [] \<Longrightarrow>
    st_root_page_id st' = pb_root_page_id (last cs) \<and> st_free_list_head st' = pb_free_list_head (last cs) \<and>
    st_high_water_page_id st' = pb_high_water_page_id (last cs) \<and> st_next_revision st' = pb_next_revision (last cs) \<and>
    st_next_lsn st' = pb_next_revision (last cs) \<and> st_current_superblock st' = pb_new_superblock (last cs)"
proof (induction rule: publishes.induct)
  case (publishes_Cons c st st1 cs st')
  then show ?case by (cases cs) (auto simp: published_def elim: publishes_NilE)
qed simp

lemma publishes_ready:
  assumes "candidates crc view healthy (st0, stored_page crc view st0) gen low cs m m'" "cs \<noteq> []" "publishes cs st st'"
    and "stored_page crc view st = stored_page crc view st0" "coherent crc view st" "length (view (st_file st)) < 2 ^ 64"
    and "st_wal st = None \<longleftrightarrow> st_wal st0 = None" "list_all (\<lambda>c. candidate_ok crc c \<and> pages_wf c) cs"
  shows "store_ready crc view healthy m' st'"
proof -
  note ok = candidates_ok [OF assms(1)]
  have pages: "stored_page crc view st' = base_steps cs (stored_page crc view st0)" "coherent crc view st'" "st_file st' = st_file st"
    "st_wal st' = st_wal st"
    using publishes_pages [OF assms(3,8,5)] ok(1) by (simp_all add: assms(4))
  obtain ov where ov: "ov_ready crc view healthy (st0, base_steps cs (stored_page crc view st0)) m' ov" "ov_dirty ov = []"
    "pb_root_page_id (last cs) = ov_root_page_id ov" "pb_free_list_head (last cs) = ov_free_list_head ov"
    "pb_high_water_page_id (last cs) = ov_high_water_page_id ov" "pb_next_revision (last cs) = ov_next_revision ov"
    "ov_next_lsn ov = ov_next_revision ov" "pb_new_superblock (last cs) = ov_current_superblock ov"
    using ok(4) [OF assms(2)] by (auto simp: ends_at_def)
  have below: "revisions_below (ov_next_revision ov) (stored_page crc view st')"
    using ov(1) pages(1) by (simp add: ov_ready_def)
  show ?thesis
    by (rule ov_ready_rebase [OF ov(1) _ ov(2) below pages(2)])
      (use publishes_last [OF assms(3,2)] ov pages assms(6,7) in \<open>simp_all\<close>)
qed

lemma logged_store:
  assumes "logged st st'"
  shows "stored_page crc view st' = stored_page crc view st" "coherent crc view st' = coherent crc view st"
    "st_file st' = st_file st" "st_wal st' \<noteq> None"
proof -
  show same: "stored_page crc view st' = stored_page crc view st"
    by (rule stored_page_cong) (use assms in \<open>auto simp: logged_def\<close>)
  show "coherent crc view st' = coherent crc view st" "st_file st' = st_file st" "st_wal st' \<noteq> None"
    unfolding coherent_def same using assms by (auto simp: logged_def)
qed

lemma logged_ready:
  assumes "store_ready crc view healthy m st" "logged st st'" "st_wal st \<noteq> None"
  shows "store_ready crc view healthy m st'"
proof (rule store_ready_cong [OF assms(1) logged_store(1) [OF assms(2)]])
  show "coherent crc view st'" "length (view (st_file st')) < 2 ^ 64" "st_wal st' = None \<longleftrightarrow> st_wal st = None"
    using store_ready_committed [OF assms(1)] logged_store [OF assms(2)] assms(3) by (auto simp: same_committed_def)
qed (use assms(2) in \<open>auto simp: logged_def\<close>)

text \<open>
  The candidates of a group are published together: on success the store represents the state
  after the last of them; on failure it represents what it did, and refuses further commits.
\<close>

lemma publish_group_ready:
  assumes "store_ready crc view healthy m st0" "st_wal st0 \<noteq> None" "st_fault_injector st0 = None"
    and "same_committed crc view healthy st0 st" "cs \<noteq> []"
    and "candidates crc view healthy (st0, stored_page crc view st0) (sb_generation (st_current_superblock st0)) low cs m m'"
  shows "case publish_prepared_group crc ops wops cs st of
      (Inr _, st') \<Rightarrow> (st_high_water_page_id st' \<noteq> NULL_PAGE_ID \<longrightarrow> store_ready crc view healthy m' st') \<and> \<not> st_broken st0
    | (Inl e, st') \<Rightarrow> store_ready crc view healthy m st' \<and> st_broken st'"
proof -
  note ok = candidates_ok [OF assms(6)] and images = candidates_images [OF assms(6)]
  note com = same_committed_fields [OF assms(4)]
  have some: "\<exists>c \<in> set cs. pb_changed_pages c \<noteq> []" using ok(3) assms(5) by (cases cs) auto
  have ready: "store_ready crc view healthy m st" by (rule store_ready_same_committed [OF assms(1,4)])
  obtain r st' where run: "publish_prepared_group crc ops wops cs st = (r, st')" by force
  note cases = publish_prepared_group_cases [OF images(1), of st ops wops, unfolded com, OF assms(2,3) some, unfolded run prod.case]
  show ?thesis
  proof (cases r)
    case (Inl e)
    then show ?thesis
      using cases ok(2) ready logged_ready [OF ready, of st'] assms(2) com by (auto simp: run)
  next
    case (Inr u)
    then obtain st1 where st1: "logged st st1" "publishes cs st1 st'" using cases by auto
    have "coherent crc view st1" "stored_page crc view st1 = stored_page crc view st0" "length (view (st_file st1)) < 2 ^ 64"
      using assms(4) logged_store [OF st1(1)] same_committed_stored [OF assms(4)] by (simp_all add: same_committed_def)
    then have "store_ready crc view healthy m' st'" if "st_high_water_page_id st' \<noteq> NULL_PAGE_ID"
      using publishes_ready [OF assms(6,5) st1(2)] logged_store(4) [OF st1(1)] assms(2) images(2) that
        publishes_last [OF st1(2) assms(5)] by simp
    moreover have "\<not> st_broken st0"
    proof
      assume "st_broken st0"
      then have "r = Inl DurabilityFailure"
        using run com by (simp add: publish_prepared_group_def bindS_def st_get_def liftR_def)
      then show False using Inr by simp
    qed
    ultimately show ?thesis using Inr by (simp add: run)
  qed
qed

section \<open>Groups are serial\<close>

text \<open>
  The results of requests run one after the other by the reference database, at LSNs that grow
  from one commit to the next. A request over the size limits of the store, which the reference
  does not have, is rejected with \<open>InvalidInput\<close>.
\<close>

inductive serial ::
  "database_config \<Rightarrow> revision \<Rightarrow> transaction_request list \<Rightarrow> transaction_result result list \<Rightarrow> reference_db \<Rightarrow> reference_db \<Rightarrow> bool"
  for cfg
where
  serial_Nil: "serial cfg n [] [] db db"
| serial_commit: "ref_transact_at req lsn db = (Inr (Some lsn), db1) \<Longrightarrow> n \<le> lsn \<Longrightarrow> serial cfg (lsn + 1) reqs ress db1 db' \<Longrightarrow>
    serial cfg n (req # reqs) (Inr \<lparr>result_commit_lsn = Some lsn\<rparr> # ress) db db'"
| serial_check: "(\<And>lsn. ref_transact_at req lsn db = (Inr None, db)) \<Longrightarrow> serial cfg n reqs ress db db' \<Longrightarrow>
    serial cfg n (req # reqs) (Inr \<lparr>result_commit_lsn = None\<rparr> # ress) db db'"
| serial_reject: "(\<And>lsn. ref_transact_at req lsn db = (Inl e, db)) \<Longrightarrow> serial cfg n reqs ress db db' \<Longrightarrow>
    serial cfg n (req # reqs) (Inl e # ress) db db'"
| serial_oversized: "\<not> request_fits cfg req \<Longrightarrow> serial cfg n reqs ress db db' \<Longrightarrow>
    serial cfg n (req # reqs) (Inl InvalidInput # ress) db db'"

text \<open>No request within the limits failed while its mutations were applied.\<close>

definition untainted :: "database_config \<Rightarrow> transaction_request list \<Rightarrow> transaction_result result list \<Rightarrow> bool" where
  "untainted cfg reqs ress \<longleftrightarrow>
     list_all (\<lambda>(req, res). res = Inl InvalidInput \<longrightarrow> \<not> request_fits cfg req) (zip reqs ress)"

lemma prepare_group_acc:
  "prepare_group crc ops reqs cs ress ov =
     (case prepare_group crc ops reqs [] [] ov of
        (Inl e, ov') \<Rightarrow> (Inl e, ov')
      | (Inr (cs', ress'), ov') \<Rightarrow> (Inr (cs @ cs', ress @ ress'), ov'))"
proof (induction reqs arbitrary: cs ress ov)
  case (Cons req reqs)
  obtain r ov1 where r: "prepare_transaction crc ops req ov = (r, ov1)" by force
  have step: "prepare_group crc ops reqs (cs @ cs1) (ress @ ress1) ov1 =
      (case prepare_group crc ops reqs cs1 ress1 ov1 of
        (Inl e, ov') \<Rightarrow> (Inl e, ov')
      | (Inr (cs', ress'), ov') \<Rightarrow> (Inr (cs @ cs', ress @ ress'), ov'))" for cs1 ress1
    unfolding Cons [of "cs @ cs1" "ress @ ress1" ov1] Cons [of cs1 ress1 ov1] by (simp split: prod.splits sum.splits)
  show ?case
    using step [of "[]"] step
    by (cases r) (auto simp: r split: option.splits)
qed simp

lemma prepare_group_grows:
  "prepare_group crc ops reqs cs ress ov = (r, ov') \<Longrightarrow> ov_high_water_page_id ov \<le> ov_high_water_page_id ov'"
proof (induction reqs arbitrary: cs ress ov)
  case (Cons req reqs)
  obtain r1 ov1 where r1: "prepare_transaction crc ops req ov = (r1, ov1)" by force
  have "ov_high_water_page_id ov \<le> ov_high_water_page_id ov1" by (rule grows_run [OF grows_prepare_transaction r1])
  moreover have "ov_high_water_page_id ov1 \<le> ov_high_water_page_id ov'"
    using Cons r1 by (auto split: sum.splits option.splits if_splits)
  ultimately show ?case by (rule order_trans)
qed simp

lemma prepared_candidate:
  assumes "prepared crc view healthy st0 db req ov (Some c) ov'" "ov_ready crc view healthy st0 (states db) ov"
    and "ov_high_water_page_id ov \<le> ov_high_water_page_id ov'"
  obtains com db' where "pb_commit_lsn c = Some com" "ref_transact_at req com db = (Inr (Some com), db')"
    "ov_next_revision ov \<le> com" "ov_next_revision ov' = com + 1"
    "ov_ready crc view healthy (fst st0, base_step (pb_changed_decoded c) (snd st0)) (states db') ov'"
    "\<And>cs m'. candidates crc view healthy (fst st0, base_step (pb_changed_decoded c) (snd st0))
        (sb_generation (ov_current_superblock ov')) (ov_high_water_page_id ov') cs (states db') m' \<Longrightarrow>
      candidates crc view healthy st0 (sb_generation (ov_current_superblock ov)) (ov_high_water_page_id ov) (c # cs) (states db) m'"
proof -
  let ?nr = "ov_next_revision ov"
  obtain ov1 com db' where
    rep: "represents crc view healthy st0 (encoded (ref_apply ?nr (mutations req) (states db))) ov1"
    and stamp: "ov_stamp ov1 = ov_stamp (ov\<lparr>ov_last_lsn := Some ?nr\<rparr>)"
    and fin: "finished crc ?nr ov1 com c ov'" and ref: "ref_transact_at req com db = (Inr (Some com), db')"
    and ready: "ov_ready crc view healthy (fst st0, base_step (pb_changed_decoded c) (snd st0)) (states db') ov'"
    using assms(1) by (auto simp: prepared_def)
  note f = fin [unfolded finished_def]
  have hw: "pb_high_water_page_id c = ov_high_water_page_id ov'" using f by (simp add: handed_over_def)
  have sb: "superblock_ok (ov_current_superblock ov1)" using assms(2) stamp by (simp add: ov_ready_def ov_stamp_def)
  note cand = finished_candidate [OF rep fin sb]
  have changed: "pb_changed_pages c \<noteq> []"
    using finished_changed [OF rep ref_transact_at_committed(2) [OF ref] _ fin] assms(2) by (simp add: ov_ready_def)
  show thesis
  proof (rule that [OF _ ref _ _ ready])
    show "pb_commit_lsn c = Some com" "?nr \<le> com" "ov_next_revision ov' = com + 1" using f by (simp_all add: ov_stamp_def)
    show "candidates crc view healthy st0 (sb_generation (ov_current_superblock ov)) (ov_high_water_page_id ov) (c # cs) (states db) m'"
      if "candidates crc view healthy (fst st0, base_step (pb_changed_decoded c) (snd st0))
        (sb_generation (ov_current_superblock ov')) (ov_high_water_page_id ov') cs (states db') m'" for cs m'
    proof -
      have "pb_base_generation c = sb_generation (ov_current_superblock ov)" "ov_current_superblock ov' = pb_new_superblock c"
        using f stamp by (simp_all add: ov_stamp_def)
      moreover have "\<forall>p page. map_of (pb_read_pages c) p = Some page \<longrightarrow> snd st0 p = Inr page"
        using finished_reads(1) [OF rep fin] by blast
      ultimately show ?thesis
        using that finished_ends [OF fin ready] changed cand finished_pages_wf [OF rep fin] assms(3) hw by auto
    qed
  qed
qed

context page_store
begin

lemma prepare_group_serial:
  assumes "ov_ready crc view healthy (st0, base) (states db) ov" "healthy (st_file st0)"
    and "prepare_group crc ops reqs [] [] ov = (Inr (cs, ress), ov')" "untainted (st_config st0) reqs ress"
  shows "same_committed crc view healthy st0 (ov_store ov') \<and>
    (\<exists>db'. serial (st_config st0) (ov_next_revision ov) reqs ress db db' \<and>
      candidates crc view healthy (st0, base) (sb_generation (ov_current_superblock ov)) (ov_high_water_page_id ov)
        cs (states db) (states db'))"
  using assms
proof (induction reqs arbitrary: base db ov cs ress)
  case Nil
  then show ?case
    by (auto simp: ov_ready_def represents_def tree_state_def dest!: arena_committed intro: serial_Nil)
next
  case (Cons req reqs)
  obtain r ov1 where r: "prepare_transaction crc ops req ov = (r, ov1)" by force
  note out = prepare_transaction_outcome [OF Cons.prems(1), of req, unfolded r]
  have grown: "ov_high_water_page_id ov \<le> ov_high_water_page_id ov1" by (rule grows_run [OF grows_prepare_transaction r])
  have untainted: "untainted (st_config st0) reqs ress1" "res = Inl InvalidInput \<Longrightarrow> \<not> request_fits (st_config st0) req"
    if "ress = res # ress1" for res ress1
    using Cons.prems(4) that by (auto simp: untainted_def)
  have unchanged: ?case
    if ready: "ov_ready crc view healthy (st0, base) (states db) ov1" and core: "ov_core ov1 = ov_core ov"
      and ress: "ress = res # ress1" and run: "prepare_group crc ops reqs [] [] ov1 = (Inr (cs, ress1), ov')"
      and step: "\<And>n db'. serial (st_config st0) n reqs ress1 db db' \<Longrightarrow> serial (st_config st0) n (req # reqs) ress db db'"
    for res ress1
  proof -
    have same: "ov_next_revision ov1 = ov_next_revision ov" "ov_current_superblock ov1 = ov_current_superblock ov"
      using ov_coreD(2) [OF core] by (simp_all add: ov_stamp_def)
    show ?thesis
      using Cons.IH [OF ready Cons.prems(2) run untainted(1) [OF ress], unfolded same] step
        candidates_low [OF _ grown, of crc view healthy "(st0, base)"] by blast
  qed
  show ?case
  proof (cases r)
    case (Inl e)
    have rej: "rejects_candidate e" and run: "prepare_group crc ops reqs [] [Inl e] ov1 = (Inr (cs, ress), ov')"
      using Cons.prems(3) r Inl by (auto split: if_splits)
    obtain ress1 where ress: "ress = Inl e # ress1" and run1: "prepare_group crc ops reqs [] [] ov1 = (Inr (cs, ress1), ov')"
      using run by (subst (asm) prepare_group_acc) (auto split: prod.splits sum.splits)
    have "e \<notin> late_errors (st_config st0) req"
      using rej untainted(2) [OF ress] by (auto simp: late_errors_def split: if_splits)
    then have rejd: "rejected crc view healthy (st0, base) db req ov e ov1"
      using out Cons.prems(2) by (auto simp: Inl fails_def)
    show ?thesis
      by (rule unchanged [OF _ _ ress run1]) (use rejd in \<open>auto simp: rejected_def ress intro: serial_reject serial_oversized\<close>)
  next
    case (Inr co)
    show ?thesis
    proof (cases co)
      case None
      have run: "prepare_group crc ops reqs [] [Inr \<lparr>result_commit_lsn = None\<rparr>] ov1 = (Inr (cs, ress), ov')"
        using Cons.prems(3) r Inr None by auto
      obtain ress1 where ress: "ress = Inr \<lparr>result_commit_lsn = None\<rparr> # ress1" and run1: "prepare_group crc ops reqs [] [] ov1 = (Inr (cs, ress1), ov')"
        using run by (subst (asm) prepare_group_acc) (auto split: prod.splits sum.splits)
      have p: "prepared crc view healthy (st0, base) db req ov None ov1" using out by (simp add: Inr None)
      show ?thesis
        by (rule unchanged [OF _ _ ress run1]) (use p in \<open>auto simp: prepared_def ress intro: serial_check\<close>)
    next
      case (Some c)
      have p: "prepared crc view healthy (st0, base) db req ov (Some c) ov1" using out by (simp add: Inr Some)
      obtain com db1 where com: "pb_commit_lsn c = Some com" "ref_transact_at req com db = (Inr (Some com), db1)"
        "ov_next_revision ov \<le> com" "ov_next_revision ov1 = com + 1"
        and ready: "ov_ready crc view healthy (st0, base_step (pb_changed_decoded c) base) (states db1) ov1"
        and cand: "\<And>cs m'. candidates crc view healthy (st0, base_step (pb_changed_decoded c) base)
            (sb_generation (ov_current_superblock ov1)) (ov_high_water_page_id ov1) cs (states db1) m' \<Longrightarrow>
          candidates crc view healthy (st0, base) (sb_generation (ov_current_superblock ov)) (ov_high_water_page_id ov)
            (c # cs) (states db) m'"
        using prepared_candidate [OF p Cons.prems(1) grown] unfolding fst_conv snd_conv by metis
      have run: "prepare_group crc ops reqs [c] [Inr \<lparr>result_commit_lsn = Some com\<rparr>] ov1 = (Inr (cs, ress), ov')"
        using Cons.prems(3) r Inr Some com(1) by auto
      obtain cs1 ress1 where ress: "ress = Inr \<lparr>result_commit_lsn = Some com\<rparr> # ress1" "cs = c # cs1"
        and run1: "prepare_group crc ops reqs [] [] ov1 = (Inr (cs1, ress1), ov')"
        using run by (subst (asm) prepare_group_acc) (auto split: prod.splits sum.splits)
      from Cons.IH [OF ready Cons.prems(2) run1 untainted(1) [OF ress(1)], unfolded com(4)] show ?thesis
        unfolding ress using serial_commit [OF com(2,3)] cand by blast
    qed
  qed
qed

end

end
