(* ===== verification/Btree_Refinement.thy ===== *)
theory Btree_Refinement
  imports Btree_Commit
begin

text \<open>
  The store refines the reference database. \<open>store_ready\<close> is the simulation relation: the store
  represents the states of the reference database, and its counters are past every revision in
  them. A transaction moves both to related states, with the same result.
\<close>

section \<open>Transactions and groups\<close>

lemma ov_ready_committed:
  "ov_ready crc view healthy st0 m ov \<Longrightarrow> same_committed crc view healthy (fst st0) (ov_store ov)"
  by (auto simp: ov_ready_def represents_def tree_state_def dest: arena_committed)

lemma store_ready_broken: "store_ready crc view healthy m st \<Longrightarrow> store_ready crc view healthy m (st\<lparr>st_broken := b\<rparr>)"
proof -
  assume ready: "store_ready crc view healthy m st"
  then have own: "same_committed crc view healthy st st" using ov_ready_committed by (fastforce simp: store_ready_def overlay_new_def)
  have eq: "stored_page crc view (st\<lparr>st_broken := b\<rparr>) = stored_page crc view st" by (rule stored_page_cong) simp_all
  have "coherent crc view (st\<lparr>st_broken := b\<rparr>)" unfolding coherent_def eq using own by (simp add: same_committed_def coherent_def)
  then show ?thesis using own by (intro store_ready_cong [OF ready eq]) (simp_all add: same_committed_def)
qed

context page_store
begin

lemma with_overlay_group:
  assumes "apply_transaction_group crc ops wops reqs st = (r, st')" "reqs \<noteq> []"
  obtains p ov where "prepare_group crc ops reqs [] [] (overlay_new st) = (p, ov)"
    "(r, st') = (case p of
       Inl e \<Rightarrow> (Inl e, ov_store ov)
     | Inr (cs, ress) \<Rightarrow> if cs = [] then (Inr ress, ov_store ov)
         else bindS (publish_prepared_group crc ops wops cs) (\<lambda>_. returnS ress) (ov_store ov))"
proof -
  obtain p ov where p: "prepare_group crc ops reqs [] [] (overlay_new st) = (p, ov)" by force
  show thesis
    by (rule that [OF p])
      (use assms p in \<open>auto simp: apply_transaction_group_def with_overlay_def bindS_def returnS_def split: sum.splits prod.splits\<close>)
qed

lemma apply_group_refines:
  assumes "store_ready crc view healthy (states db) st" "st_wal st \<noteq> None" "st_fault_injector st = None" "healthy (st_file st)"
    and "apply_transaction_group crc ops wops reqs st = (Inr ress, st')" "untainted (st_config st) reqs ress"
    and "st_high_water_page_id st' \<noteq> NULL_PAGE_ID"
  shows "\<exists>db'. serial (st_config st) (st_next_revision st) reqs ress db db' \<and> store_ready crc view healthy (states db') st'"
proof (cases "reqs = []")
  case True
  then show ?thesis using assms(1,5) by (auto simp: apply_transaction_group_def returnS_def intro: serial_Nil)
next
  case False
  obtain p ov where p: "prepare_group crc ops reqs [] [] (overlay_new st) = (p, ov)"
    and run: "(Inr ress, st') = (case p of
       Inl e \<Rightarrow> (Inl e, ov_store ov)
     | Inr (cs, ress) \<Rightarrow> if cs = [] then (Inr ress, ov_store ov)
         else bindS (publish_prepared_group crc ops wops cs) (\<lambda>_. returnS ress) (ov_store ov))"
    by (rule with_overlay_group [OF assms(5) False])
  obtain cs where cs: "p = Inr (cs, ress)"
    using run by (auto simp: bindS_def returnS_def split: sum.splits prod.splits if_splits)
  have new: "ov_next_revision (overlay_new st) = st_next_revision st" "ov_current_superblock (overlay_new st) = st_current_superblock st"
    "ov_high_water_page_id (overlay_new st) = st_high_water_page_id st"
    by (simp_all add: overlay_new_def)
  from prepare_group_serial [OF assms(1) [unfolded store_ready_def] assms(4) p [unfolded cs] assms(6), unfolded new]
  obtain db' where com: "same_committed crc view healthy st (ov_store ov)"
    and ser: "serial (st_config st) (st_next_revision st) reqs ress db db'"
    and cand: "candidates crc view healthy (st, stored_page crc view st) (sb_generation (st_current_superblock st))
      (st_high_water_page_id st) cs (states db) (states db')" by blast
  show ?thesis
  proof (cases "cs = []")
    case True
    then have "st' = ov_store ov" "states db' = states db" using run cand by (simp_all add: cs)
    then show ?thesis using ser store_ready_same_committed [OF assms(1) com] by auto
  next
    case False
    obtain u st2 where u: "publish_prepared_group crc ops wops cs (ov_store ov) = (u, st2)" by force
    have "\<exists>x. u = Inr x" "st' = st2" using run False u by (cases u; simp add: cs bindS_def returnS_def)+
    then show ?thesis
      using publish_group_ready [OF assms(1-3) com False cand, of ops wops] ser assms(7) by (auto simp: u)
  qed
qed

text \<open>A transaction on its own: it is refused, it writes nothing, or its candidate is published.\<close>

lemma transact_cases:
  fixes db :: reference_db
  assumes "store_ready crc view healthy (states db) st" "transact crc ops wops req st = (r, st')"
  obtains (refused) e ov where "prepare_transaction crc ops req (overlay_new st) = (Inl e, ov)"
      "r = Inl e" "st' = ov_store ov" "same_committed crc view healthy st st'"
  | (reads) ov where "prepare_transaction crc ops req (overlay_new st) = (Inr None, ov)"
      "r = Inr \<lparr>result_commit_lsn = None\<rparr>" "st' = ov_store ov" "same_committed crc view healthy st st'"
  | (writes) c ov u com where "prepare_transaction crc ops req (overlay_new st) = (Inr (Some c), ov)"
      "pb_commit_lsn c = Some com" "publish_prepared_group crc ops wops [c] (ov_store ov) = (u, st')"
      "r = (case u of Inl e \<Rightarrow> Inl e | Inr _ \<Rightarrow> Inr \<lparr>result_commit_lsn = Some com\<rparr>)"
      "same_committed crc view healthy st (ov_store ov)"
proof -
  obtain g st1 where g: "apply_transaction_group crc ops wops [req] st = (g, st1)" by force
  obtain p ov where p: "prepare_group crc ops [req] [] [] (overlay_new st) = (p, ov)"
    and run: "(g, st1) = (case p of
       Inl e \<Rightarrow> (Inl e, ov_store ov)
     | Inr (cs, ress) \<Rightarrow> if cs = [] then (Inr ress, ov_store ov)
         else bindS (publish_prepared_group crc ops wops cs) (\<lambda>_. returnS ress) (ov_store ov))"
    by (rule with_overlay_group [OF g]) simp_all
  obtain q ov1 where q: "prepare_transaction crc ops req (overlay_new st) = (q, ov1)" by force
  note out = prepare_transaction_outcome [OF assms(1) [unfolded store_ready_def], of req, unfolded q]
  have com: "same_committed crc view healthy st (ov_store ov1)"
    using out by (cases q) (auto simp: rejected_def prepared_def fails_def dest!: ov_ready_committed split: option.splits)
  show thesis
  proof (cases q)
    case (Inl e)
    have "(r, st') = (Inl e, ov_store ov1)"
      using p run q Inl g assms(2) by (auto simp: transact_def bindS_def liftR_def split: if_splits)
    then show thesis using refused q com by (simp add: Inl)
  next
    case (Inr co)
    show thesis
    proof (cases co)
      case None
      have "(r, st') = (Inr \<lparr>result_commit_lsn = None\<rparr>, ov_store ov1)"
        using p run q Inr None g assms(2) by (auto simp: transact_def bindS_def liftR_def)
      then show thesis using reads q com by (simp add: Inr None)
    next
      case (Some c)
      obtain lsn where lsn: "pb_commit_lsn c = Some lsn" using out by (auto simp: Inr Some prepared_def finished_def)
      obtain u st2 where u: "publish_prepared_group crc ops wops [c] (ov_store ov1) = (u, st2)" by force
      have "(r, st') = (case u of Inl e \<Rightarrow> (Inl e, st2) | Inr _ \<Rightarrow> (Inr \<lparr>result_commit_lsn = Some lsn\<rparr>, st2))"
        using p run q Inr Some g assms(2) lsn u
        by (auto simp: transact_def bindS_def liftR_def returnS_def split: sum.splits)
      then show thesis using writes [of c ov1 lsn u] q com u lsn by (cases u) (auto simp: Inr Some)
    qed
  qed
qed

lemma transact_refines_store:
  assumes "store_ready crc view healthy (states db) st" "st_wal st \<noteq> None" "st_fault_injector st = None"
    and "transact crc ops wops req st = (r, st')" "st_high_water_page_id st' \<noteq> NULL_PAGE_ID"
  shows "case r of
      Inr res \<Rightarrow> (\<exists>lsn db'. st_next_revision st \<le> lsn \<and> ref_transact_at req lsn db = (Inr (result_commit_lsn res), db') \<and>
        store_ready crc view healthy (states db') st')
    | Inl e \<Rightarrow> store_ready crc view healthy (states db) st' \<and>
        (healthy (st_file st) \<longrightarrow> st_broken st' \<or> (\<forall>lsn. ref_transact_at req lsn db = (Inl e, db)) \<or>
           e = InvalidInput \<or> e = InternalInvariantViolation)"
  using assms(1,4)
proof (cases rule: transact_cases)
  case (refused e ov)
  note out = prepare_transaction_outcome [OF assms(1) [unfolded store_ready_def], of req, unfolded refused(1)]
  have "(\<forall>lsn. ref_transact_at req lsn db = (Inl e, db)) \<or> e = InvalidInput \<or> e = InternalInvariantViolation"
    if "healthy (st_file st)"
    using out that by (auto simp: rejected_def fails_def late_errors_def split: if_splits)
  then show ?thesis using store_ready_same_committed [OF assms(1) refused(4)] refused(2) by auto
next
  case (reads ov)
  have "prepared crc view healthy (st, stored_page crc view st) db req (overlay_new st) None ov"
    using prepare_transaction_outcome [OF assms(1) [unfolded store_ready_def], of req, unfolded reads(1)] by simp
  then show ?thesis
    using store_ready_same_committed [OF assms(1) reads(4)] reads(2) by (auto simp: prepared_def)
next
  case (writes c ov u com)
  have new: "ov_next_revision (overlay_new st) = st_next_revision st" "ov_current_superblock (overlay_new st) = st_current_superblock st"
    "ov_high_water_page_id (overlay_new st) = st_high_water_page_id st"
    by (simp_all add: overlay_new_def)
  have pr: "prepared crc view healthy (st, stored_page crc view st) db req (overlay_new st) (Some c) ov"
    using prepare_transaction_outcome [OF assms(1) [unfolded store_ready_def], of req, unfolded writes(1)] by simp
  obtain db1 where c: "ref_transact_at req com db = (Inr (Some com), db1)" "st_next_revision st \<le> com"
    and cand: "candidates crc view healthy (st, stored_page crc view st) (sb_generation (st_current_superblock st))
      (st_high_water_page_id st) [c] (states db) (states db1)"
    using prepared_candidate [OF pr assms(1) [unfolded store_ready_def] grows_run [OF grows_prepare_transaction writes(1)]] writes(2)
    unfolding new fst_conv snd_conv by (metis candidates.simps(1) option.inject)
  show ?thesis
    using publish_group_ready [OF assms(1-3) writes(5) _ cand, of ops wops] writes(3,4) c assms(5) by (auto split: sum.splits)
qed

text \<open>The high-water mark of the store moves only with a published candidate.\<close>

lemma transact_high_water:
  fixes db :: reference_db
  assumes "store_ready crc view healthy (states db) st" "st_wal st \<noteq> None" "st_fault_injector st = None"
    and "transact crc ops wops req st = (r, st')"
    and "ov_high_water_page_id (snd (prepare_transaction crc ops req (overlay_new st))) = st_high_water_page_id st"
  shows "st_high_water_page_id st' = st_high_water_page_id st"
  using assms(1,4)
proof (cases rule: transact_cases)
  case (writes c ov u com)
  have pr: "prepared crc view healthy (st, stored_page crc view st) db req (overlay_new st) (Some c) ov"
    using prepare_transaction_outcome [OF assms(1) [unfolded store_ready_def], of req, unfolded writes(1)] by simp
  have hw: "pb_high_water_page_id c = ov_high_water_page_id ov"
    using pr by (auto simp: prepared_def finished_def handed_over_def)
  have "candidate_ok crc c" "pb_changed_pages c \<noteq> []"
    using prepared_candidate [OF pr assms(1) [unfolded store_ready_def] grows_run [OF grows_prepare_transaction writes(1)]]
    by (metis candidates.simps)+
  then have "case u of Inr _ \<Rightarrow> \<exists>st1. publishes [c] st1 st' | Inl e \<Rightarrow> st' = ov_store ov \<or> logged (ov_store ov) st'"
    using publish_prepared_group_cases [of crc "[c]" "ov_store ov" ops wops] assms(2,3) same_committed_fields [OF writes(5)] writes(3)
    by (auto split: sum.splits)
  then show ?thesis
    using publishes_last [of "[c]" _ st'] hw assms(5) writes(1) same_committed_fields(3) [OF writes(5)]
    by (auto simp: logged_def split: sum.splits)
qed (auto dest: same_committed_fields(3))

text \<open>A request without mutations gets the verdict of the reference database when its file has no faults.\<close>

lemma prepare_check_run:
  fixes db :: reference_db
  assumes "ov_ready crc view healthy st0 (states db) ov" "healthy (st_file (fst st0))"
    and "mutations req = []" "request_fits (st_config (fst st0)) req"
  shows "\<exists>ov'. prepare_transaction crc ops req ov = (map_sum id (\<lambda>_. None) (fst (ref_transact_at req lsn db)), ov') \<and>
    ov_ready crc view healthy st0 (states db) ov' \<and> ov_core ov' = ov_core ov"
proof -
  obtain r ov' where r: "prepare_transaction crc ops req ov = (r, ov')" by force
  note out = prepare_transaction_outcome [OF assms(1), of req, unfolded r]
  have no: "r \<noteq> Inr (Some c)" for c
  proof
    assume "r = Inr (Some c)"
    then obtain com db' where "ref_transact_at req com db = (Inr (Some com), db')" using out by (auto simp: prepared_def)
    then show False using assms(3) by (auto simp: ref_transact_at_def bindR_def split: sum.splits if_splits)
  qed
  show ?thesis
  proof (cases r)
    case (Inl e)
    then show ?thesis using out assms(2-4) r by (auto simp: rejected_def fails_def late_errors_def)
  next
    case (Inr co)
    then show ?thesis using out r no by (cases co) (auto simp: prepared_def)
  qed
qed

text \<open>A broken store commits nothing.\<close>

lemma broken_never_commits:
  fixes db :: reference_db
  assumes "store_ready crc view healthy (states db) st" "st_wal st \<noteq> None" "st_fault_injector st = None" "st_broken st"
    and "transact crc ops wops req st = (r, st')"
  shows "r \<noteq> Inr \<lparr>result_commit_lsn = Some lsn\<rparr> \<and> st_broken st' \<and> store_ready crc view healthy (states db) st'"
  using assms(1,5)
proof (cases rule: transact_cases)
  case (writes c ov u com)
  have "st_broken (ov_store ov)" using same_committed_fields(11) [OF writes(5)] assms(4) by simp
  then have "(u, st') = (Inl DurabilityFailure, ov_store ov)"
    using writes(3) by (simp add: publish_prepared_group_def bindS_def st_get_def liftR_def)
  then show ?thesis
    using writes(4) store_ready_same_committed [OF assms(1) writes(5)] \<open>st_broken (ov_store ov)\<close> by simp
qed (use assms(4) in \<open>auto dest: same_committed_fields(11) intro: store_ready_same_committed [OF assms(1)]\<close>)

end

end
