(* ===== verification/Btree_Init.thy ===== *)
theory Btree_Init
  imports Btree_Refinement Btree_Recovery
begin

text \<open>
  A new database. \<open>initialize\<close> writes two copies of the first superblock and an empty leaf as the
  root. On a file without faults it returns, and the store it returns represents the empty map.
\<close>

section \<open>The bytes of a new database\<close>

lemma empty_leaf_sound: "page_sound hw (LeafPage 0 None [])"
  and empty_leaf_fits: "leaf_fits []"
proof -
  have "is_ok (encode_leaf None [])"
    unfolding encode_leaf_def
    by (subst encode_slotted_ok [of _ _ leaf_record_length, OF _ encode_leaf_record_length])
      simp_all
  then show "page_sound hw (LeafPage 0 None [])" "leaf_fits []"
    by (simp_all add: page_sound_def ref_le_def leaf_fits_def)
qed

lemma empty_leaf_encodes:
  obtains bs where "page_data_encode crc pid (LeafPage 0 None []) = Inr bs" "length bs = PAGE_SIZE"
    "decode_page_data crc pid bs = Inr (LeafPage 0 None [])"
proof -
  obtain body where "encode_body (LeafPage 0 None []) = Inr body"
    using empty_leaf_sound [of 0] unfolding page_sound_def is_ok_iff by blast
  then obtain bs where bs: "page_data_encode crc pid (LeafPage 0 None []) = Inr bs"
    using encode_body_ok_page by blast
  have dec: "decode_page_data crc pid bs = Inr (LeafPage 0 None [])"
    by (rule decode_page_data_encode [OF bs]) simp
  have "length bs = PAGE_SIZE" using dec by (auto simp: decode_page_data_def decode_page_at_ok)
  then show thesis using that bs dec by blast
qed

lemma initial_superblock_ok: "length (cfg_database_uuid config) = 16 \<Longrightarrow> superblock_ok (initial_superblock config)"
  by (simp add: superblock_ok_def superblock_wf_def initial_superblock_def superblock_new_def)

lemma initial_superblock_encodes:
  assumes "length (cfg_database_uuid config) = 16"
  obtains bs where "encode_superblock crc (initial_superblock config) = Inr bs" "length bs = PAGE_SIZE"
    "\<And>pid. \<exists>e. decode_page_data crc pid bs = Inl e"
proof -
  have ok: "superblock_wf (initial_superblock config)"
    using initial_superblock_ok [OF assms] by (simp add: superblock_ok_def)
  obtain bs where bs: "encode_superblock crc (initial_superblock config) = Inr bs"
    using initial_superblock_ok [OF assms] by (auto simp: superblock_ok_def encode_superblock_ok)
  have "byte_slice 0 4 bs = SUPERBLOCK_MAGIC"
    using decode_encode_superblock [OF bs ok] by (auto simp: decode_superblock_def split: if_splits)
  then have "byte_slice 0 4 bs \<noteq> PAGE_MAGIC" by (simp add: SUPERBLOCK_MAGIC_def PAGE_MAGIC_def)
  then have "decode_page_data crc pid bs \<noteq> Inr page" for pid page
    by (auto simp: decode_page_data_def decode_page_at_ok)
  then have "\<exists>e. decode_page_data crc pid bs = Inl e" for pid by (cases "decode_page_data crc pid bs") auto
  then show thesis using that bs length_encode_superblock [OF bs ok] by blast
qed

text \<open>The pages of a file of three pages are its thirds.\<close>

lemma three_pages:
  assumes "view (st_file st) = a @ b @ c" "length a = PAGE_SIZE" "length b = PAGE_SIZE" "length c = PAGE_SIZE"
    and "st_dirty_pages st = []"
  shows "stored_page crc view st p =
    (if p = 0 then decode_page_data crc 0 a else if p = 1 then decode_page_data crc 1 b
     else if p = 2 then decode_page_data crc 2 c else Inl Corruption)"
proof -
  have p: "unat p = 0 \<longleftrightarrow> p = 0" "unat p = 1 \<longleftrightarrow> p = 1" "unat p = 2 \<longleftrightarrow> p = 2"
    using word_unat_eq_iff [of p 0] word_unat_eq_iff [of p 1] word_unat_eq_iff [of p 2] by simp_all
  show ?thesis
  proof (cases "unat p \<le> 2")
    case False
    then show ?thesis using assms p by (auto simp: stored_page_def)
  next
    case True
    then consider "unat p = 0" | "unat p = 1" | "unat p = 2" by linarith
    then show ?thesis
      using assms p by cases (auto simp: stored_page_def byte_slice_def)
  qed
qed

section \<open>A new database is empty\<close>

definition fresh_store :: "(bytes \<Rightarrow> u32) \<Rightarrow> ('f \<Rightarrow> bytes) \<Rightarrow> database_config \<Rightarrow> ('f, 'w) btree_store \<Rightarrow> bool" where
  "fresh_store crc view config st \<longleftrightarrow>
     (\<exists>sb root. view (st_file st) = sb @ sb @ root \<and> encode_superblock crc (initial_superblock config) = Inr sb \<and>
        page_data_encode crc 2 (LeafPage 0 None []) = Inr root) \<and>
     st_current_superblock st = initial_superblock config \<and> st_root_page_id st = 2 \<and>
     st_free_list_head st = None \<and> st_high_water_page_id st = 2 \<and> st_next_revision st = 1 \<and>
     0 < st_next_lsn st \<and> cache_pages (st_cache st) = [] \<and> st_dirty_pages st = [] \<and>
     st_broken st = False \<and> st_fault_injector st = None \<and> st_config st = config"

lemma fresh_store_pages:
  assumes "fresh_store crc view config st" "length (cfg_database_uuid config) = 16"
  shows "stored_page crc view st p = Inr page \<longleftrightarrow> p = 2 \<and> page = LeafPage 0 None []" "length (view (st_file st)) = 12288"
proof -
  obtain sb root where whole: "view (st_file st) = sb @ sb @ root" "encode_superblock crc (initial_superblock config) = Inr sb"
    "page_data_encode crc 2 (LeafPage 0 None []) = Inr root" and clean: "st_dirty_pages st = []"
    using assms(1) by (auto simp: fresh_store_def)
  have sb: "length sb = PAGE_SIZE" "\<exists>e. decode_page_data crc q sb = Inl e" for q
    using initial_superblock_encodes [OF assms(2), of crc] whole(2) by (metis sum.inject(2))+
  have root: "length root = PAGE_SIZE" "decode_page_data crc 2 root = Inr (LeafPage 0 None [])"
    using empty_leaf_encodes [of crc 2] whole(3) by (metis sum.inject(2))+
  show "stored_page crc view st p = Inr page \<longleftrightarrow> p = 2 \<and> page = LeafPage 0 None []"
    using three_pages [of view st sb sb root crc p, OF whole(1) sb(1) sb(1) root(1) clean] sb(2) [of 0] sb(2) [of 1] root(2) by auto
  show "length (view (st_file st)) = 12288" using whole(1) sb(1) root(1) by simp
qed

lemma fresh_store_holds:
  assumes "fresh_store crc view config st" "length (cfg_database_uuid config) = 16"
  shows "ov_holds crc view healthy (st, stored_page crc view st) [2 \<mapsto> LeafPage 0 None []] (overlay_new st)"
proof -
  have "coherent crc view st" using assms(1) by (simp add: coherent_def cache_lookup_def fresh_store_def)
  then have "same_committed crc view healthy st st"
    using fresh_store_pages(2) [OF assms] by (simp add: same_committed_def)
  then show ?thesis
    using fresh_store_pages(1) [OF assms] empty_leaf_sound [of 2] assms(1)
    by (auto simp: ov_holds_def clean_pages_def ov_view_def overlay_new_def fresh_store_def)
qed

lemma fresh_store_ready:
  assumes "fresh_store crc view config st" "length (cfg_database_uuid config) = 16"
  shows "store_ready crc view healthy [] st"
proof -
  let ?V = "[2 \<mapsto> LeafPage 0 None []] :: page_heap"
  have fields: "st_current_superblock st = initial_superblock config" "st_root_page_id st = 2" "st_free_list_head st = None"
    "st_high_water_page_id st = 2" "st_next_revision st = 1" "0 < st_next_lsn st" "cache_pages (st_cache st) = []"
    using assms(1) by (simp_all add: fresh_store_def)
  have "tree_state crc view healthy (st, stored_page crc view st) ?V (GLeaf 2 []) (cell_pages []) [] (overlay_new st)"
    using fields empty_leaf_fits fresh_store_holds [OF assms, of healthy] by (simp add: tree_state_def arena_def overlay_new_def)
  from representsI [OF this, of "[]"] have "represents crc view healthy (st, stored_page crc view st) (encoded []) (overlay_new st)"
    by (simp add: leaf_entries_def encoded_def)
  then show ?thesis
    using fields initial_superblock_ok [OF assms(2)] fresh_store_pages(1) [OF assms]
    by (auto simp: store_ready_def ov_ready_def overlay_new_def revisions_below_def word_less_nat_alt word_le_nat_alt)
qed

context page_store
begin

lemma initialize_returns:
  assumes "healthy f" "length (cfg_database_uuid config) = 16"
  shows "\<exists>st f'. initialize crc ops config f = (Inr st, f') \<and> st_file st = f' \<and> healthy f' \<and>
    st_wal st = None \<and> fresh_store crc view config (st :: ('f, 'w) btree_store)"
proof -
  obtain root where root: "page_data_encode crc 2 (LeafPage 0 None []) = Inr root" "length root = PAGE_SIZE"
    by (rule empty_leaf_encodes [of crc 2]) blast
  obtain sb where sb: "encode_superblock crc (initial_superblock config) = Inr sb" "length sb = PAGE_SIZE"
    by (rule initial_superblock_encodes [OF assms(2)]) blast
  obtain f1 where f1: "df_set_len ops 12288 f = (Inr (), f1)" "healthy f1" "length (view f1) = 12288"
    using healthy_set_len [OF assms(1), of 12288] set_len_ok by fastforce
  obtain f2 where f2: "write_all_at ops 0 sb f1 = (Inr (), f2)" "healthy f2" "view f2 = file_splice 0 sb (view f1)"
    using write_all_at_returns [OF f1(2), of 0 sb] sb(2) by auto
  obtain f3 where f3: "write_all_at ops 4096 sb f2 = (Inr (), f3)" "healthy f3" "view f3 = file_splice 4096 sb (view f2)"
    using write_all_at_returns [OF f2(2), of 4096 sb] sb(2) f1(3) f2(3) by auto
  obtain f4 where f4: "write_all_at ops 8192 root f3 = (Inr (), f4)" "healthy f4" "view f4 = file_splice 8192 root (view f3)"
    using write_all_at_returns [OF f3(2), of 8192 root] root(2) sb(2) f1(3) f2(3) f3(3) by auto
  obtain f5 where f5: "df_sync_all ops f4 = (Inr (), f5)" "healthy f5" "view f5 = view f4"
    using healthy_sync_all [OF f4(2)] sync_all_view by blast
  have "view f5 = sb @ sb @ root"
    using f1(3) sb(2) root(2) by (simp add: f5(3) f4(3) f3(3) f2(3) splice_eq resize_def)
  then show ?thesis
    using root(1) sb(1) f1(1) f2(1) f3(1) f4(1) f5(1,2)
    by (auto simp: initialize_def fresh_store_def bindS_def liftR_def cache_new_def page_offset_def)
qed

text \<open>A small value put into a tree that is one empty leaf allocates no page.\<close>

lemma put_first_steady:
  fixes st :: "('f, 'w) btree_store"
  assumes "fresh_store crc view config st" "length (cfg_database_uuid config) = 16"
    and "length val \<le> limit_inline_value (cfg_limits config)" "length val \<le> INLINE_VALUE_LIMIT"
    and "\<And>r. leaf_fits [\<lparr>le_key = document_key_encode key, le_revision = r, le_value = Some (Inline val)\<rparr>]"
  shows "ov_high_water_page_id (snd (ov_put crc ops key val (overlay_new st))) = 2"
proof -
  let ?B = "(st, stored_page crc view st)"
  let ?P = "\<lambda>ov. Holds ?B [2 \<mapsto> LeafPage 0 None []] ov \<and> ov_root_page_id ov = 2"
  let ?Q = "\<lambda>m ov. ov_high_water_page_id (snd (m ov)) = ov_high_water_page_id ov"
  have conf: "st_config (ov_store ov) = config" if "?P ov" for ov
    using that same_committed_fields(10) [of crc view healthy st "ov_store ov"] assms(1)
    by (simp add: ov_holds_def fresh_store_def)
  have page: "r = LeafPage 0 None [] \<and> ?P ov'" if "?P ov" "ov_page crc ops 2 ov = (Inr r, ov')" for ov ov' r
    using ov_page_outcome [of ?B "[2 \<mapsto> LeafPage 0 None []]" ov 2 "LeafPage 0 None []"] that by (simp add: ov_core_def)
  have leaf: "r = (None, []) \<and> ?P ov'" if "?P ov" "ov_leaf crc ops 2 ov = (Inr r, ov')" for ov ov' r
    using that page [OF that(1)] by (auto simp: ov_leaf_def bindS_def liftR_def returnS_def split: prod.splits sum.splits page_data.splits)
  have find: "r = (2, [2]) \<and> ?P ov'" if "?P ov" "find_leaf crc ops k ov = (Inr r, ov')" for ov ov' r k
    using that page [OF that(1)]
    by (subst (asm) find_leaf_def, subst (asm) find_leaf_loop.simps)
      (auto simp: Let_def split: prod.splits sum.splits page_data.splits)
  have insert: "?Q (insert_leaf_entries crc ops 2 route None [\<lparr>le_key = document_key_encode key, le_revision = r, le_value = Some (Inline val)\<rparr>] r) ov"
    for ov route r
    using assms(5) by (simp add: insert_leaf_entries_def replace_page_def)
  have finish: "?Q (bindS m (\<lambda>_. returnS x)) ov" if "?Q m ov" for m :: "('f, 'w, unit) overlay_op" and x :: revision and ov
    using that by (auto simp: bindS_def returnS_def split: prod.splits sum.splits)
  have start: "?P (overlay_new st)"
    using fresh_store_holds [OF assms(1,2)] assms(1) by (simp add: overlay_new_def fresh_store_def)
  have keeps: "?P ov1" if "?P ov" "validate_value val ov = (Inr u, ov1)" for u ov ov1
    using that by (simp add: validate_value_def split: if_splits)
  have last: "?P ov1" if "?P ov" "allocate_revision ov = (Inr r, ov1)" for r ov ov1
  proof -
    have ov1: "ov1 = ov\<lparr>ov_last_lsn := Some r\<rparr>" using that(2) by (auto simp: allocate_revision_def Let_def)
    show ?thesis using that(1) ov_holds_cong [of crc view healthy ?B _ ov ov1] by (simp add: ov1)
  qed
  have "?Q (ov_put crc ops key val) (overlay_new st)"
    unfolding ov_put_def Let_def
  proof (rule keeps_bindS_run [OF steady_pure(3)], rule keeps_bindS_run [OF keeps_pure(1)],
      rule keeps_bindS_run [OF steady_pure(2)], rule keeps_bindS_run [OF steady_loops(2)], goal_cases)
    case (1 u ov1 v ov2 r ov3 x ov4)
    have "ov2 = ov1" using 1(2) by (simp add: liftR_def)
    then have "?P ov3" using last [OF _ 1(3)] keeps [OF start 1(1)] by simp
    from find [OF this 1(4)] have x: "x = (2, [2])" and P: "?P ov4" by simp_all
    show ?case
      unfolding x prod.case
    proof (rule keeps_bindS_run [OF steady_ov_leaf(1)], goal_cases)
      case (1 y ov5)
      from leaf [OF P 1] have y: "y = (None, [])" and P: "?P ov5" by simp_all
      have "make_value crc ops val r ov5 = (Inr (Inline val), ov5)" using conf [OF P] assms(3,4) by (simp add: make_value_def)
      then show ?case
        unfolding y prod.case
        by (simp add: leaf_search_def bindS_Inr finish [OF insert])
    qed
  qed
  then show ?thesis using assms(1) by (simp add: overlay_new_def fresh_store_def)
qed

lemma transact_first_high_water:
  fixes st :: "('f, 'w) btree_store"
  assumes "fresh_store crc view config st" "length (cfg_database_uuid config) = 16" "st_wal st \<noteq> None"
    and "length val \<le> limit_inline_value (cfg_limits config)" "length val \<le> INLINE_VALUE_LIMIT"
    and "\<And>r. leaf_fits [\<lparr>le_key = document_key_encode key, le_revision = r, le_value = Some (Inline val)\<rparr>]"
    and "transact crc ops wops \<lparr>conditions = [], mutations = [MutPut key val]\<rparr> st = (r, st')"
  shows "st_high_water_page_id st' = 2"
proof -
  let ?req = "\<lparr>conditions = [], mutations = [MutPut key val]\<rparr>" and ?ov = "overlay_new st"
  have fields: "st_fault_injector st = None" "st_high_water_page_id st = 2" using assms(1) by (simp_all add: fresh_store_def)
  have ready: "store_ready crc view healthy (states ref_new) st"
    using fresh_store_ready [OF assms(1,2)] by (simp add: ref_new_def)
  have put: "ov_high_water_page_id (snd (ov_put crc ops key val ?ov)) = 2" by (rule put_first_steady [OF assms(1,2,4-6)])
  have "ov_high_water_page_id (snd (prepare_transaction crc ops ?req ?ov)) = ov_high_water_page_id ?ov"
    unfolding prepare_transaction_def
  proof (rule keeps_bindS_run [OF keeps_pure(1)], rule keeps_bindS_run [OF steady_stages(2)], goal_cases)
    case (1 u ov1 v ov2)
    have ov: "ov2 = ?ov" using 1 unfolding validate_mutations_run by (simp add: liftR_def)
    obtain q ov3 where q: "ov_put crc ops key val ?ov = (q, ov3)" by force
    have finish: "ov_high_water_page_id ov4 = ov_high_water_page_id ov3" if "finish_transaction crc ov3 = (c, ov4)" for c ov4
      by (rule keeps_run [OF steady_finish_transaction that])
    show ?case
      unfolding ov using put q finish fields(2)
      by (auto simp: bindS_def returnS_def overlay_new_def split: sum.splits prod.splits)
  qed
  then show ?thesis
    using transact_high_water [OF ready assms(3) fields(1) assms(7)] fields(2) by (simp add: overlay_new_def)
qed

end

end
