(* ===== verification/Btree_Query.thy ===== *)
theory Btree_Query
  imports Btree_Refinement
begin

text \<open>
  Reads of a represented tree. Point reads, queries and scans return what the reference database
  returns, in the same order, unless the response budget is exceeded or the file fails; they
  change neither the tree nor the committed state.
\<close>

section \<open>Operations under a response budget\<close>

lemma outcome_on_overlay:
  "outcome (\<lambda>x ov. Q x (ov, snd s)) (\<lambda>e ov. E e (ov, snd s)) (m (fst s)) \<Longrightarrow> outcome Q E (on_overlay m s)"
  by (cases "m (fst s)") (simp add: on_overlay_def outcome_def split: sum.splits)

lemma budget_reserve_cases:
  obtains b' where "budget_reserve wire mem b = (Inr (), b')" | "budget_reserve wire mem b = (Inl ResponseTooLarge, b)"
  by (cases "budget_reserve wire mem b") (auto simp: budget_reserve_def split: option.splits if_splits)

lemma outcome_reserve:
  assumes "\<And>b. Q () (fst s, b)" "\<And>b. E ResponseTooLarge (fst s, b)"
  shows "outcome Q E (on_budget (reserve_state n) s)" "outcome Q E (on_budget (reserve_document key n) s)"
proof -
  have "outcome Q E (on_budget (budget_reserve w m) s)" for w m
    by (rule budget_reserve_cases [of w m "snd s"])
      (use assms(1) assms(2) [of "snd s"] in \<open>simp_all add: on_budget_def\<close>)
  then show "outcome Q E (on_budget (reserve_state n) s)" "outcome Q E (on_budget (reserve_document key n) s)"
    by (simp_all only: reserve_state_def reserve_document_def Let_def)
qed

section \<open>The rows of a map\<close>

definition row_of :: "bytes \<times> revision_state \<Rightarrow> stored_document option" where
  "row_of kv =
     (case (document_key_decode (fst kv), snd kv) of
        (Inr key, Present val r) \<Rightarrow> Some \<lparr>sd_key = key, sd_value = val, sd_revision = r\<rparr>
      | _ \<Rightarrow> None)"

definition scan_rows :: "bytes option \<Rightarrow> (bytes, revision_state) bmap \<Rightarrow> stored_document list" where
  "scan_rows cursor kvs =
     List.map_filter (\<lambda>kv. if (case cursor of None \<Rightarrow> False | Some c \<Rightarrow> fst kv \<le> c) then None else row_of kv) kvs"

lemma scan_rows_simps [simp]: "scan_rows cursor [] = []"
  "scan_rows cursor (xs @ ys) = scan_rows cursor xs @ scan_rows cursor ys"
  by (simp_all add: scan_rows_def map_filter_def)

lemma scan_rows_Cons:
  "scan_rows cursor ((k, x) # kvs) =
     (if (case cursor of None \<Rightarrow> False | Some c \<Rightarrow> k \<le> c) then []
      else case row_of (k, x) of None \<Rightarrow> [] | Some row \<Rightarrow> [row]) @ scan_rows cursor kvs"
  by (simp add: scan_rows_def map_filter_simps split: option.splits)

definition canonical :: "leaf_entry \<Rightarrow> bool" where
  "canonical e \<longleftrightarrow> (\<exists>k. le_key e = document_key_encode k)"

lemma scan_rows_skip: "(\<And>kv. kv \<in> set kvs \<Longrightarrow> fst kv \<le> c) \<Longrightarrow> scan_rows (Some c) kvs = []"
  by (auto simp: scan_rows_def map_filter_def)

section \<open>Reading a tree\<close>

definition reading ::
  "(bytes \<Rightarrow> u32) \<Rightarrow> ('f \<Rightarrow> bytes) \<Rightarrow> ('f \<Rightarrow> bool) \<Rightarrow> ('f, 'w) base \<Rightarrow> page_heap \<Rightarrow> gtree
     \<Rightarrow> (page_id list \<times> revision_state) list \<Rightarrow> page_id list
     \<Rightarrow> (page_id \<times> revision \<times> lsn option \<times> lsn \<times> u64 \<times> superblock \<times> superblock_slot) \<Rightarrow> ('f, 'w) overlay \<Rightarrow> bool"
where
  "reading crc view healthy st0 V t cells fs core ov \<longleftrightarrow>
     tree_state crc view healthy st0 V t (cell_pages cells) fs ov \<and> cells_ok V (leaf_entries (leaves t)) cells \<and>
     ov_core ov = core"

lemma distinct_concat_map: "distinct (concat (map f xs)) \<Longrightarrow> x \<in> set xs \<Longrightarrow> distinct (f x)"
  by (induction xs) auto

lemma holds_value_length: "holds_value V vref ps val \<Longrightarrow> value_length vref = Inr (length val)"
  by (cases vref) (auto simp: holds_value_def unat_u64_of_nat)

lemma find_zip:
  "length es = length cells \<Longrightarrow>
    (case find (\<lambda>e. le_key e = k) es of
       None \<Rightarrow> map_of (cell_map es cells) k = None
     | Some e \<Rightarrow> \<exists>c. (e, c) \<in> set (zip es cells) \<and> map_of (cell_map es cells) k = Some (snd c))"
  by (induction rule: list_induct2) (auto split: option.splits)

context page_store
begin

abbreviation Reading where "Reading \<equiv> reading crc view healthy"

lemma reading_value:
  assumes "Reading st0 V t cells fs core ov" "(e, c) \<in> set (zip (leaf_entries (leaves t)) cells)" "le_value e = Some vref"
  obtains val where "snd c = Present val (le_revision e)" "value_length vref = Inr (length val)"
    "outcome (\<lambda>out ov'. out = val \<and> Reading st0 V t cells fs core ov') (Fails st0 {}) (read_value crc ops vref ov)"
proof -
  have st: "tree_state crc view healthy st0 V t (cell_pages cells) fs ov" and cells: "cells_ok V (leaf_entries (leaves t)) cells"
    and core: "ov_core ov = core" using assms(1) by (simp_all add: reading_def)
  have "cell_ok V e c" using cells assms(2) by (auto simp: list_all2_iff)
  then obtain val where val: "holds_value V vref (fst c) val" "snd c = Present val (le_revision e)"
    using assms(3) by (auto simp: cell_ok_def)
  have "c \<in> set cells" using assms(2) by (rule set_zip_rightD)
  then have "distinct (fst c)"
    using arena_distinct [OF tree_state_arena [OF st]] by (intro distinct_concat_map [of fst cells]) auto
  then have "outcome (\<lambda>out ov'. out = val \<and> Reading st0 V t cells fs core ov') (Fails st0 {}) (read_value crc ops vref ov)"
    by (rule outcome_mono [OF read_value_outcome [OF tree_state_arena [OF st] val(1)]])
      (use tree_state_same [OF st] cells core in \<open>auto simp: reading_def\<close>)
  then show thesis using that val(2) holds_value_length [OF val(1)] by blast
qed

abbreviation TooLarge where "TooLarge st0 \<equiv> (\<lambda>e s. Fails st0 {ResponseTooLarge} e (fst s))"

lemma reading_fails:
  "Reading st0 V t cells fs core ov \<Longrightarrow> Fails st0 {ResponseTooLarge} ResponseTooLarge ov"
  by (auto simp: reading_def fails_def tree_state_def dest: arena_committed)

lemma outcome_read:
  assumes "outcome Q (Fails st0 {}) (m (fst s))"
  shows "outcome (\<lambda>x s'. Q x (fst s')) (TooLarge st0) (on_overlay m s)"
  by (rule outcome_on_overlay) (rule outcome_mono [OF assms], auto intro: fails_mono)

lemma read_row_outcome:
  assumes "Reading st0 V t cells fs core (fst s)" "(e, c) \<in> set (zip (leaf_entries (leaves t)) cells)"
    and "le_value e = Some vref" "document_key_decode (le_key e) = Inr key"
  shows "outcome (\<lambda>row s'. row_of (le_key e, snd c) = Some row \<and> Reading st0 V t cells fs core (fst s')) (TooLarge st0)
    (read_row crc ops key vref (le_revision e) s)"
proof -
  obtain val where c: "snd c = Present val (le_revision e)" and len: "value_length vref = Inr (length val)"
    by (rule reading_value [OF assms(1-3)])
  have read: "outcome (\<lambda>out s'. out = val \<and> Reading st0 V t cells fs core (fst s')) (TooLarge st0)
      (on_overlay (read_value crc ops vref) s1)" if "Reading st0 V t cells fs core (fst s1)" for s1
    by (rule reading_value [OF that assms(2,3)], rule outcome_read) (use c in auto)
  show ?thesis
    unfolding read_row_def
    apply (rule outcome_bindS [where R = "\<lambda>n s'. n = length val \<and> s' = s"], simp add: len)
    apply (elim conjE, hypsubst, rule outcome_bindS [where R = "\<lambda>_ s'. Reading st0 V t cells fs core (fst s')"])
     apply (rule outcome_reserve(2); simp only: fst_conv, use assms(1) reading_fails [OF assms(1)] in blast)
    apply (rule outcome_bindS [OF read], assumption)
    by (auto simp: row_of_def c assms(4))
qed

lemma scan_entries_outcome:
  fixes s :: "('f, 'w) overlay \<times> response_budget"
  assumes "Reading st0 V t cells fs core (fst s)" "length rows < limit"
    and "set (zip es cs) \<subseteq> set (zip (leaf_entries (leaves t)) cells)" "length es = length cs" "list_all canonical es"
  shows "outcome (\<lambda>(complete, rows') s'. Reading st0 V t cells fs core (fst s') \<and>
      rows' = rows @ take (limit - length rows) (scan_rows cursor (cell_map es cs)) \<and> complete = (length rows' = limit))
    (TooLarge st0) (scan_entries crc ops cursor limit rows es s)"
  using assms(4,1-3,5)
proof (induction es cs arbitrary: rows s rule: list_induct2)
  case Nil
  then show ?case by simp
next
  case (Cons e es c cs)
  have mem: "(e, c) \<in> set (zip (leaf_entries (leaves t)) cells)" using Cons.prems(3) by simp
  have sub: "set (zip es cs) \<subseteq> set (zip (leaf_entries (leaves t)) cells)" "list_all canonical es" using Cons.prems(3,4) by auto
  obtain key where key: "document_key_decode (le_key e) = Inr key" using Cons.prems(4) by (auto simp: canonical_def document_key.decode_encode)
  have rd: "cells_ok V (leaf_entries (leaves t)) cells" using Cons.prems(1) by (simp add: reading_def)
  then have cell: "cell_ok V e c" using mem by (auto simp: list_all2_iff)
  show ?case
  proof (cases "case cursor of None \<Rightarrow> False | Some k \<Rightarrow> le_key e \<le> k")
    case True
    then show ?thesis using Cons.IH [OF Cons.prems(1,2) sub] by (simp add: scan_rows_Cons)
  next
    case False
    show ?thesis
    proof (cases "le_value e")
      case None
      then have "row_of (le_key e, snd c) = None" using cell by (simp add: cell_ok_def row_of_def key)
      then show ?thesis
        using False None Cons.IH [OF Cons.prems(1,2) sub] by (simp add: scan_rows_Cons bindS_def liftR_def key)
    next
      case (Some vref)
      have "outcome (\<lambda>(complete, rows') s'. Reading st0 V t cells fs core (fst s') \<and>
          rows' = rows @ take (limit - length rows) (scan_rows cursor (cell_map (e # es) (c # cs))) \<and>
          complete = (length rows' = limit)) (TooLarge st0)
        (bindS (read_row crc ops key vref (le_revision e)) (\<lambda>row.
           if length (rows @ [row]) = limit then returnS (True, rows @ [row])
           else scan_entries crc ops cursor limit (rows @ [row]) es) s)"
      proof (rule outcome_bindS, rule read_row_outcome [OF Cons.prems(1) mem Some key], elim conjE)
        fix row and s1 :: "('f, 'w) overlay \<times> response_budget"
        assume row: "row_of (le_key e, snd c) = Some row" and rd1: "Reading st0 V t cells fs core (fst s1)"
        have rows: "scan_rows cursor (cell_map (e # es) (c # cs)) = row # scan_rows cursor (cell_map es cs)"
          using False row by (simp add: scan_rows_Cons)
        show "outcome (\<lambda>(complete, rows') s'. Reading st0 V t cells fs core (fst s') \<and>
            rows' = rows @ take (limit - length rows) (scan_rows cursor (cell_map (e # es) (c # cs))) \<and>
            complete = (length rows' = limit)) (TooLarge st0)
          ((if length (rows @ [row]) = limit then returnS (True, rows @ [row])
            else scan_entries crc ops cursor limit (rows @ [row]) es) s1)"
        proof (cases "length (rows @ [row]) = limit")
          case True
          then have "limit - length rows = 1" by simp
          then show ?thesis unfolding rows using True rd1 by simp
        next
          case False
          then have n: "limit - length rows = Suc (limit - length (rows @ [row]))" "length (rows @ [row]) < limit"
            using Cons.prems(2) by auto
          show ?thesis
            unfolding rows using False Cons.IH [OF rd1 n(2) sub] by (simp add: n(1))
        qed
      qed
      then show ?thesis using False Some by (simp add: bindS_def liftR_def key)
    qed
  qed
qed

text \<open>A leaf of the tree, with the cells of its entries.\<close>

lemma reading_leaf:
  fixes ov :: "('f, 'w) overlay"
  assumes "Reading st0 V t cells fs core ov" "leaves t = ls1 @ (p, es) # ls2"
    and "cells = C1 @ C2" "length C1 = length (leaf_entries ls1)"
  obtains c C3 where "C2 = c @ C3" "length es = length c" "length C3 = length (leaf_entries ls2)"
    "set (zip es c) \<subseteq> set (zip (leaf_entries (leaves t)) cells)" "p \<notin> fst ` set ls1"
    "outcome (\<lambda>r ov'. r = (first_leaf ls2 None, es) \<and> Reading st0 V t cells fs core ov') (Fails st0 {}) (ov_leaf crc ops p ov)"
proof -
  have st: "tree_state crc view healthy st0 V t (cell_pages cells) fs ov" and cells: "cells_ok V (leaf_entries (leaves t)) cells"
    and core: "ov_core ov = core" using assms(1) by (simp_all add: reading_def)
  have all: "leaf_entries (leaves t) = leaf_entries ls1 @ es @ leaf_entries ls2" by (simp add: assms(2))
  have "length C2 = length es + length (leaf_entries ls2)"
    using list_all2_lengthD [OF cells] assms(3,4) by (simp add: all)
  then obtain c C3 where c: "C2 = c @ C3" "length es = length c" "length C3 = length (leaf_entries ls2)"
    by (intro that [of "take (length es) C2" "drop (length es) C2"]) simp_all
  have sub: "set (zip es c) \<subseteq> set (zip (leaf_entries (leaves t)) cells)"
    using assms(4) c by (auto simp: all assms(3))
  have p: "p \<notin> fst ` set ls1" using arena_distinct [OF tree_state_arena [OF st]] by (auto simp: assms(2))
  obtain lsn where V: "V p = Some (LeafPage lsn (first_leaf ls2 None) es)"
    using st by (auto simp: tree_state_def assms(2) leaf_links_middle simp del: leaf_links.simps)
  have "outcome (\<lambda>r ov'. r = (first_leaf ls2 None, es) \<and> Reading st0 V t cells fs core ov') (Fails st0 {}) (ov_leaf crc ops p ov)"
    by (rule outcome_mono [OF ov_leaf_outcome [OF tree_state_arena [OF st] V]])
      (use tree_state_same [OF st] cells core in \<open>auto simp: reading_def\<close>)
  then show thesis using that c sub p by blast
qed

lemma scan_leaves_outcome:
  fixes s :: "('f, 'w) overlay \<times> response_budget"
  assumes "Reading st0 V t cells fs core (fst s)" "list_all canonical (leaf_entries (leaves t))"
    and "leaves t = ls1 @ (p, es) # ls2" "cells = C1 @ C2" "length C1 = length (leaf_entries ls1)"
    and "visited \<subseteq> fst ` set ls1" "length rows < limit"
  shows "outcome (\<lambda>rows' s'. Reading st0 V t cells fs core (fst s') \<and>
      rows' = rows @ take (limit - length rows) (scan_rows cursor (cell_map (es @ leaf_entries ls2) C2)))
    (TooLarge st0) (scan_leaves crc ops cursor limit p visited rows s)"
  using assms(1,3-)
proof (induction ls2 arbitrary: ls1 p es C1 C2 visited rows s rule: length_induct)
  case (1 ls2)
  note prems = 1(2-)
  obtain c C3 where c: "C2 = c @ C3" "length es = length c" "length C3 = length (leaf_entries ls2)"
    and sub: "set (zip es c) \<subseteq> set (zip (leaf_entries (leaves t)) cells)" and p: "p \<notin> fst ` set ls1"
    and leaf: "outcome (\<lambda>r ov'. r = (first_leaf ls2 None, es) \<and> Reading st0 V t cells fs core ov') (Fails st0 {}) (ov_leaf crc ops p (fst s))"
    by (rule reading_leaf [OF prems(1-4)])
  have can: "list_all canonical es" using assms(2) by (simp add: prems(2))
  let ?Q = "\<lambda>rows' s'. Reading st0 V t cells fs core (fst s') \<and>
      rows' = rows @ take (limit - length rows) (scan_rows cursor (cell_map (es @ leaf_entries ls2) C2))"
  have split: "scan_rows cursor (cell_map (es @ leaf_entries ls2) C2) =
      scan_rows cursor (cell_map es c) @ scan_rows cursor (cell_map (leaf_entries ls2) C3)"
    using c by (simp add: cell_map_append)
  have tail: "outcome ?Q (TooLarge st0)
      (if complete then (Inr rows', s2)
       else case first_leaf ls2 None of None \<Rightarrow> (Inr rows', s2)
         | Some q \<Rightarrow> scan_leaves crc ops cursor limit q (insert p visited) rows' s2)"
    if rd: "Reading st0 V t cells fs core (fst s2)"
      and rows': "rows' = rows @ take (limit - length rows) (scan_rows cursor (cell_map es c))" "complete = (length rows' = limit)"
    for complete rows' and s2 :: "('f, 'w) overlay \<times> response_budget"
  proof (cases complete)
    case True
    then have "limit - length rows \<le> length (scan_rows cursor (cell_map es c))" using rows' prems(6) by simp
    then show ?thesis using True rd rows' by (simp add: split)
  next
    case False
    then have short: "length (scan_rows cursor (cell_map es c)) < limit - length rows"
      using rows' prems(6) by (auto simp: min_def split: if_splits)
    then have rows: "rows' = rows @ scan_rows cursor (cell_map es c)" "length rows' < limit" using rows'(1) by auto
    show ?thesis
    proof (cases ls2)
      case Nil
      then show ?thesis unfolding split using False rd short c(3) by (simp add: rows)
    next
      case (Cons l ls3)
      obtain q es' where l: "l = (q, es')" by force
      have "outcome (\<lambda>rows'' s'. Reading st0 V t cells fs core (fst s') \<and>
          rows'' = rows' @ take (limit - length rows') (scan_rows cursor (cell_map (es' @ leaf_entries ls3) C3)))
          (TooLarge st0) (scan_leaves crc ops cursor limit q (insert p visited) rows' s2)"
        by (rule 1(1) [rule_format, of ls3 s2 "ls1 @ [(p, es)]" q es' "C1 @ c" C3])
          (use Cons l rd prems c rows(2) in auto)
      then show ?thesis
        unfolding split using False short by (auto simp: Cons l rows elim!: outcome_mono)
    qed
  qed
  have "p \<notin> visited" using p prems(5) by blast
  then show ?case
    apply (subst scan_leaves.simps, simp only: if_False)
    apply (rule outcome_bindS, rule outcome_read, rule leaf)
    apply (elim conjE, simp only: prod.case)
    apply (rule outcome_bindS, rule scan_entries_outcome [OF _ prems(6) sub c(2) can], assumption)
    subgoal for x s1 y s2 using tail [of s2] by (cases y) auto
    done
qed

lemma find_leaf_reading:
  fixes ov :: "('f, 'w) overlay"
  assumes "Reading st0 V t cells fs core ov"
  shows "outcome (\<lambda>(leaf_id, route) ov'. (\<exists>ls1 es ls2. leaves t = ls1 @ (leaf_id, es) # ls2 \<and>
      (\<forall>e \<in> set (leaf_entries ls1). le_key e < key) \<and> (\<forall>e \<in> set (leaf_entries ls2). key < le_key e)) \<and> Reading st0 V t cells fs core ov')
    (Fails st0 {}) (find_leaf crc ops key ov)"
proof -
  have st: "tree_state crc view healthy st0 V t (cell_pages cells) fs ov" using assms by (simp add: reading_def)
  show ?thesis
  proof (rule outcome_mono [OF find_leaf_tree [OF st, of key]], goal_cases)
    case (1 r ov')
    then obtain leaf_id route ctx es where r: "r = (leaf_id, route)"
      and t: "t = plug ctx (GLeaf leaf_id es)" "list_all frame_shape ctx" "within (ctx_lo None ctx) (ctx_hi None ctx) key"
      and st': "tree_state crc view healthy st0 V t (cell_pages cells) fs ov'" "ov_core ov' = ov_core ov"
      by (cases r) auto
    have "le_key e < key" if "e \<in> set (leaf_entries (ctx_left ctx))" for e
      using tree_state_position(1) [OF st [unfolded t(1)] t(2,3) that] .
    moreover have "key < le_key e" if "e \<in> set (leaf_entries (ctx_right ctx))" for e
      using tree_state_position(2) [OF st [unfolded t(1)] t(2,3) that] .
    moreover have "leaves t = ctx_left ctx @ (leaf_id, es) # ctx_right ctx" by (simp add: t(1))
    moreover have "Reading st0 V t cells fs core ov'" using st' assms by (simp add: reading_def)
    ultimately show ?case unfolding r prod.case by blast
  qed
qed

lemma leftmost_leaf_reading:
  assumes "Reading st0 V t cells fs core ov"
  shows "outcome (\<lambda>leaf_id ov'. (\<exists>es ls2. leaves t = (leaf_id, es) # ls2) \<and> Reading st0 V t cells fs core ov')
    (Fails st0 {}) (leftmost_leaf crc ops ov)"
proof -
  have st: "tree_state crc view healthy st0 V t (cell_pages cells) fs ov" using assms by (simp add: reading_def)
  then have ord: "ordered None None t" "ov_root_page_id ov = root_id t" by (simp_all add: tree_state_def)
  obtain p es ls where ls: "leaves t = (p, es) # ls" using ordered_leaves(1) [OF ord(1)] by (cases "leaves t") auto
  show ?thesis
    unfolding leftmost_leaf_def ord(2)
    by (rule outcome_mono [OF leftmost_leaf_loop_outcome [OF tree_state_arena [OF st] tree_state_heap [OF st] ord(1)]])
      (use ls assms tree_state_same [OF st] in \<open>auto simp: reading_def\<close>)
qed

lemma scan_with_budget_outcome:
  fixes s :: "('f, 'w) overlay \<times> response_budget"
  assumes "Reading st0 V t cells fs core (fst s)" "list_all canonical (leaf_entries (leaves t))"
    and "\<And>k. cursor = Some k \<Longrightarrow> length (document_key_encode k) \<le> MAX_ENCODED_KEY_SIZE"
  shows "outcome (\<lambda>rows s'. Reading st0 V t cells fs core (fst s') \<and>
      rows = take limit (scan_rows (map_option document_key_encode cursor) (cell_map (leaf_entries (leaves t)) cells)))
    (TooLarge st0) (scan_with_budget crc ops cursor limit s)"
proof (cases "limit = 0")
  case True
  then show ?thesis using assms(1) by (simp add: scan_with_budget_def)
next
  case False
  let ?c = "map_option document_key_encode cursor"
  have cells: "length cells = length (leaf_entries (leaves t))"
    using assms(1) by (auto simp: reading_def dest: list_all2_lengthD)
  have rest: "outcome (\<lambda>rows s'. Reading st0 V t cells fs core (fst s') \<and>
      rows = take limit (scan_rows ?c (cell_map (leaf_entries (leaves t)) cells)))
      (TooLarge st0) (scan_leaves crc ops ?c limit p {} [] s1)"
    if rd: "Reading st0 V t cells fs core (fst s1)" and t: "leaves t = ls1 @ (p, es) # ls2"
      and low: "\<And>e. e \<in> set (leaf_entries ls1) \<Longrightarrow> \<exists>k. ?c = Some k \<and> le_key e < k" for p ls1 es ls2 s1
  proof -
    let ?C1 = "take (length (leaf_entries ls1)) cells" and ?C2 = "drop (length (leaf_entries ls1)) cells"
    have C1: "length ?C1 = length (leaf_entries ls1)" using cells by (simp add: t)
    have "scan_rows ?c (cell_map (leaf_entries ls1) ?C1) = []"
    proof (cases "leaf_entries ls1 = []")
      case False
      then obtain k where k: "?c = Some k" using low by (metis list.set_intros(1) neq_Nil_conv)
      show ?thesis
        unfolding k
      proof (rule scan_rows_skip)
        fix kv assume "kv \<in> set (cell_map (leaf_entries ls1) ?C1)"
        then obtain e where "e \<in> set (leaf_entries ls1)" "fst kv = le_key e"
          using fst_set_cell_map [of "leaf_entries ls1" ?C1] by auto
        then show "fst kv \<le> k" using low k by fastforce
      qed
    qed simp
    then have "scan_rows ?c (cell_map (leaf_entries (leaves t)) cells) = scan_rows ?c (cell_map (es @ leaf_entries ls2) ?C2)"
      using cell_map_append [of "leaf_entries ls1" ?C1 "es @ leaf_entries ls2" ?C2] C1 by (simp add: t)
    then show ?thesis
      using scan_leaves_outcome [OF rd assms(2) t, of ?C1 ?C2 "{}" "[]" limit ?c] C1 False by simp
  qed
  show ?thesis
  proof (cases cursor)
    case None
    show ?thesis
      unfolding scan_with_budget_def using False
      apply (simp add: None)
      apply (rule outcome_bindS, rule outcome_read, rule leftmost_leaf_reading [OF assms(1)])
      using rest [of _ "[]"] by (auto simp: None)
  next
    case (Some key)
    have valid: "validate_encoded_key (document_key_encode key) = Inr ()" using assms(3) Some by (simp add: validate_encoded_key_def)
    show ?thesis
      unfolding scan_with_budget_def using False
      apply (simp add: Some Let_def bindS_assoc)
      apply (rule outcome_bindS [where R = "\<lambda>_ s'. s' = s"], simp add: valid)
      apply (hypsubst, rule outcome_bindS, rule outcome_read, rule find_leaf_reading [OF assms(1), of "document_key_encode key"])
      subgoal premises prems for u s1 r s2
      proof -
        obtain leaf_id route lsa es lsb where r: "r = (leaf_id, route)" and t: "leaves t = lsa @ (leaf_id, es) # lsb"
          and low: "\<forall>e \<in> set (leaf_entries lsa). le_key e < document_key_encode key"
          and rd: "Reading st0 V t cells fs core (fst s2)"
          using prems by (cases r) auto
        have "outcome (\<lambda>rows s'. Reading st0 V t cells fs core (fst s') \<and>
            rows = take limit (scan_rows ?c (cell_map (leaf_entries (leaves t)) cells)))
            (TooLarge st0) (scan_leaves crc ops ?c limit leaf_id {} [] s2)"
          by (rule rest [OF rd t]) (use low Some in simp)
        then show ?thesis by (simp add: r Some bindS_def returnS_def)
      qed
      done
  qed
qed

end

section \<open>Queries\<close>

definition matches :: "primary_key \<Rightarrow> sort_key option \<Rightarrow> document_key \<Rightarrow> bool" where
  "matches qpk after_sk key \<longleftrightarrow> pk key = qpk \<and> \<not> (case after_sk of None \<Rightarrow> False | Some c \<Rightarrow> sk key \<le> c)"

definition query_rows :: "primary_key \<Rightarrow> sort_key option \<Rightarrow> (bytes, revision_state) bmap \<Rightarrow> stored_document list" where
  "query_rows qpk after_sk kvs =
     List.map_filter (\<lambda>kv. case document_key_decode (fst kv) of
        Inr key \<Rightarrow> if matches qpk after_sk key then row_of kv else None | Inl _ \<Rightarrow> None) kvs"

lemma query_rows_simps [simp]: "query_rows qpk after_sk [] = []"
  "query_rows qpk after_sk (xs @ ys) = query_rows qpk after_sk xs @ query_rows qpk after_sk ys"
  by (simp_all add: query_rows_def map_filter_def)

lemma query_rows_Cons:
  "query_rows qpk after_sk ((document_key_encode key, x) # kvs) =
     (if matches qpk after_sk key then case row_of (document_key_encode key, x) of None \<Rightarrow> [] | Some row \<Rightarrow> [row] else []) @
     query_rows qpk after_sk kvs"
  by (simp add: query_rows_def map_filter_simps document_key.decode_encode split: option.splits)

lemma query_rows_none:
  assumes "\<And>k x. (document_key_encode k, x) \<in> set kvs \<Longrightarrow> \<not> matches qpk after_sk k"
  shows "query_rows qpk after_sk kvs = []"
proof -
  have "(case document_key_decode (fst kv) of Inr key \<Rightarrow> if matches qpk after_sk key then row_of kv else None | Inl _ \<Rightarrow> None) = None"
    if "kv \<in> set kvs" for kv
    using assms [of _ "snd kv"] that by (cases kv) (auto simp: document_key.decode_iff split: sum.splits)
  then show ?thesis by (simp add: query_rows_def map_filter_def)
qed

text \<open>Keys at the cursor or before it, and keys of a larger primary key, do not match.\<close>

lemma matches_cursor:
  "after_sk = Some c \<Longrightarrow> document_key_encode k \<le> document_key_encode (DocumentKey qpk c) \<Longrightarrow> \<not> matches qpk after_sk k"
  by (auto simp: document_key.encode_le_iff less_eq_document_key_def matches_def)

lemma matches_start: "document_key_encode k < document_key_encode (DocumentKey qpk []) \<Longrightarrow> \<not> matches qpk after_sk k"
  by (auto simp: document_key.encode_less_iff less_document_key_def matches_def)

lemma query_rows_beyond:
  assumes "sorted_wrt (<) (map le_key es)" "list_all canonical es" "length es = length cs"
    and "\<exists>e k. e = hd es \<and> le_key e = document_key_encode k \<and> qpk < pk k" "es \<noteq> []"
  shows "query_rows qpk after_sk (cell_map es cs) = []"
proof (rule query_rows_none)
  fix k x assume "(document_key_encode k, x) \<in> set (cell_map es cs)"
  then obtain e where e: "e \<in> set es" "le_key e = document_key_encode k" using fst_set_cell_map [of es cs] by force
  obtain k0 where k0: "le_key (hd es) = document_key_encode k0" "qpk < pk k0" using assms(4) by blast
  have "le_key (hd es) \<le> le_key e" using assms(1,5) e(1) by (cases es) auto
  then have "pk k0 \<le> pk k" using k0(1) e(2) by (auto simp: document_key.encode_le_iff less_eq_document_key_def)
  then show "\<not> matches qpk after_sk k" using k0(2) by (auto simp: matches_def)
qed

context page_store
begin

lemma query_entries_outcome:
  fixes s :: "('f, 'w) overlay \<times> response_budget"
  assumes "Reading st0 V t cells fs core (fst s)" "length rows < limit"
    and "set (zip es cs) \<subseteq> set (zip (leaf_entries (leaves t)) cells)" "length es = length cs" "list_all canonical es"
    and "sorted_wrt (<) (map le_key es)" "cursor = map_option (\<lambda>c. document_key_encode (DocumentKey qpk c)) after_sk"
  shows "outcome (\<lambda>(complete, first', rows') s'. Reading st0 V t cells fs core (fst s') \<and>
      rows' = rows @ take (limit - length rows) (query_rows qpk after_sk (cell_map es cs)) \<and>
      (if complete then length rows' = limit \<or> (\<exists>e \<in> set es. \<exists>k. le_key e = document_key_encode k \<and> qpk < pk k)
       else length rows' < limit))
    (TooLarge st0) (query_entries crc ops qpk after_sk cursor limit first rows es s)"
  using assms(4,1-3,5-6)
proof (induction es cs arbitrary: rows s first rule: list_induct2)
  case Nil
  then show ?case by simp
next
  case (Cons e es c cs)
  let ?P = "\<lambda>rows es cs. \<lambda>(complete, first', rows') s'. Reading st0 V t cells fs core (fst s') \<and>
      rows' = rows @ take (limit - length rows) (query_rows qpk after_sk (cell_map es cs)) \<and>
      (if complete then length rows' = limit \<or> (\<exists>e \<in> set es. \<exists>k. le_key e = document_key_encode k \<and> qpk < pk k)
       else length rows' < limit)"
  have mem: "(e, c) \<in> set (zip (leaf_entries (leaves t)) cells)" using Cons.prems(3) by simp
  have sub: "set (zip es cs) \<subseteq> set (zip (leaf_entries (leaves t)) cells)" "list_all canonical es" "sorted_wrt (<) (map le_key es)"
    using Cons.prems(3,4,5) by auto
  obtain key where key: "le_key e = document_key_encode key" using Cons.prems(4) by (auto simp: canonical_def)
  have cell: "cell_ok V e c" using Cons.prems(1) mem by (auto simp: reading_def list_all2_iff)
  note IH = Cons.IH [OF _ _ sub]
  have skip: "outcome (?P rows (e # es) (c # cs)) (TooLarge st0) (query_entries crc ops qpk after_sk cursor limit b rows es s)"
    if "\<not> matches qpk after_sk key \<or> row_of (le_key e, snd c) = None" for b
    by (rule outcome_mono [OF IH [OF Cons.prems(1,2)]]) (use that in \<open>auto simp: query_rows_Cons key split: if_splits\<close>)
  have dec: "document_key_decode (le_key e) = Inr key" by (simp add: key document_key.decode_encode)
  let ?body = "if pk key \<noteq> qpk then
        if qpk < pk key then returnS (True, False, rows) else query_entries crc ops qpk after_sk cursor limit False rows es
      else if (case after_sk of None \<Rightarrow> False | Some c \<Rightarrow> sk key \<le> c)
      then query_entries crc ops qpk after_sk cursor limit False rows es
      else (case le_value e of None \<Rightarrow> query_entries crc ops qpk after_sk cursor limit False rows es
        | Some vref \<Rightarrow> bindS (read_row crc ops key vref (le_revision e)) (\<lambda>row.
            if length (rows @ [row]) = limit then returnS (True, False, rows @ [row])
            else query_entries crc ops qpk after_sk cursor limit False (rows @ [row]) es))"
  have body: "outcome (?P rows (e # es) (c # cs)) (TooLarge st0) (?body s)"
  proof (cases "matches qpk after_sk key")
    case False
    have "query_rows qpk after_sk (cell_map (e # es) (c # cs)) = []" if "qpk < pk key"
      by (rule query_rows_beyond) (use that Cons.prems(4,5) Cons.hyps key in auto)
    then show ?thesis
      using False Cons.prems(1,2) skip [of False] key by (auto simp: matches_def simp del: cell_map_simps)
  next
    case match: True
    then have m: "pk key = qpk" "\<not> (case after_sk of None \<Rightarrow> False | Some c \<Rightarrow> sk key \<le> c)" by (simp_all add: matches_def)
    show ?thesis
    proof (cases "le_value e")
      case None
      then have "row_of (le_key e, snd c) = None" using cell by (simp add: cell_ok_def row_of_def dec)
      then show ?thesis using m None skip [of False] by simp
    next
      case (Some vref)
      have "outcome (?P rows (e # es) (c # cs)) (TooLarge st0)
        (bindS (read_row crc ops key vref (le_revision e)) (\<lambda>row.
            if length (rows @ [row]) = limit then returnS (True, False, rows @ [row])
            else query_entries crc ops qpk after_sk cursor limit False (rows @ [row]) es) s)"
      proof (rule outcome_bindS, rule read_row_outcome [OF Cons.prems(1) mem Some dec], elim conjE)
        fix row and s1 :: "('f, 'w) overlay \<times> response_budget"
        assume row: "row_of (le_key e, snd c) = Some row" and rd1: "Reading st0 V t cells fs core (fst s1)"
        have rows: "query_rows qpk after_sk (cell_map (e # es) (c # cs)) = row # query_rows qpk after_sk (cell_map es cs)"
          using match row by (simp add: query_rows_Cons key)
        show "outcome (?P rows (e # es) (c # cs)) (TooLarge st0)
          ((if length (rows @ [row]) = limit then returnS (True, False, rows @ [row])
            else query_entries crc ops qpk after_sk cursor limit False (rows @ [row]) es) s1)"
        proof (cases "length (rows @ [row]) = limit")
          case True
          then have "limit - length rows = 1" by simp
          then show ?thesis unfolding rows using True rd1 by simp
        next
          case False
          then have n: "limit - length rows = Suc (limit - length (rows @ [row]))" "length (rows @ [row]) < limit"
            using Cons.prems(2) by auto
          have "outcome (?P (rows @ [row]) es cs) (TooLarge st0) (query_entries crc ops qpk after_sk cursor limit False (rows @ [row]) es s1)"
            by (rule IH [OF rd1 n(2)])
          then have "outcome (?P rows (e # es) (c # cs)) (TooLarge st0) (query_entries crc ops qpk after_sk cursor limit False (rows @ [row]) es s1)"
            by (rule outcome_mono) (auto simp: rows n(1) simp del: cell_map_simps split: if_splits)
          then show ?thesis using False by simp
        qed
      qed
      then show ?thesis using m Some by simp
    qed
  qed
  have low: "\<not> matches qpk after_sk key" if "case cursor of None \<Rightarrow> False | Some k \<Rightarrow> le_key e \<le> k"
    using that assms(7) matches_cursor [of after_sk _ key qpk] by (auto simp: key split: option.splits)
  have run: "liftR (map_err (\<lambda>_. Corruption) (document_key_decode (le_key e))) s = (Inr key, s)" by (simp add: liftR_def dec)
  show ?case
  proof (cases "first \<and> (case cursor of None \<Rightarrow> False | Some k \<Rightarrow> le_key e \<le> k)")
    case True
    then have "\<not> matches qpk after_sk key" using low by blast
    with True show ?thesis using skip [of first] by (simp only: query_entries.simps if_True HOL.simp_thms)
  next
    case False
    then show ?thesis using body by (simp only: query_entries.simps if_False bindS_Inr [of "liftR (map_err (\<lambda>_. Corruption) (document_key_decode (le_key e)))", OF run])
  qed
qed

lemma query_leaves_outcome:
  fixes s :: "('f, 'w) overlay \<times> response_budget"
  assumes "Reading st0 V t cells fs core (fst s)" "list_all canonical (leaf_entries (leaves t))"
    and cursor: "cursor = map_option (\<lambda>c. document_key_encode (DocumentKey qpk c)) after_sk"
    and "leaves t = ls1 @ (p, es) # ls2" "cells = C1 @ C2" "length C1 = length (leaf_entries ls1)"
    and "visited \<subseteq> fst ` set ls1" "length rows < limit"
  shows "outcome (\<lambda>rows' s'. Reading st0 V t cells fs core (fst s') \<and>
      rows' = rows @ take (limit - length rows) (query_rows qpk after_sk (cell_map (es @ leaf_entries ls2) C2)))
    (TooLarge st0) (query_leaves crc ops qpk after_sk cursor limit p first visited rows s)"
  using assms(1,4-)
proof (induction ls2 arbitrary: ls1 p es C1 C2 visited rows s first rule: length_induct)
  case (1 ls2)
  note prems = 1(2-)
  obtain c C3 where c: "C2 = c @ C3" "length es = length c" "length C3 = length (leaf_entries ls2)"
    and sub: "set (zip es c) \<subseteq> set (zip (leaf_entries (leaves t)) cells)" and p: "p \<notin> fst ` set ls1"
    and leaf: "outcome (\<lambda>r ov'. r = (first_leaf ls2 None, es) \<and> Reading st0 V t cells fs core ov') (Fails st0 {}) (ov_leaf crc ops p (fst s))"
    by (rule reading_leaf [OF prems(1-4)])
  have sorted: "sorted_wrt (<) (map le_key (es @ leaf_entries ls2))" "list_all canonical (es @ leaf_entries ls2)"
    using prems(1) ordered_entries(1) [of None None t] assms(2)
    by (auto simp: reading_def tree_state_def prems(2) sorted_wrt_append)
  let ?Q = "\<lambda>rows' s'. Reading st0 V t cells fs core (fst s') \<and>
      rows' = rows @ take (limit - length rows) (query_rows qpk after_sk (cell_map (es @ leaf_entries ls2) C2))"
  have split: "query_rows qpk after_sk (cell_map (es @ leaf_entries ls2) C2) =
      query_rows qpk after_sk (cell_map es c) @ query_rows qpk after_sk (cell_map (leaf_entries ls2) C3)"
    using c by (simp add: cell_map_append)
  have beyond: "query_rows qpk after_sk (cell_map (leaf_entries ls2) C3) = []"
    if e: "e \<in> set es" "le_key e = document_key_encode k" "qpk < pk k" for e k
  proof (rule query_rows_none)
    fix k' x assume "(document_key_encode k', x) \<in> set (cell_map (leaf_entries ls2) C3)"
    then obtain e' where "e' \<in> set (leaf_entries ls2)" "le_key e' = document_key_encode k'"
      using fst_set_cell_map [of "leaf_entries ls2" C3] by force
    then have "document_key_encode k < document_key_encode k'" using sorted(1) e by (fastforce simp: sorted_wrt_append)
    then show "\<not> matches qpk after_sk k'"
      using e(3) by (auto simp: document_key.encode_less_iff less_document_key_def matches_def)
  qed
  have tail: "outcome ?Q (TooLarge st0)
      (if complete then (Inr rows', s2)
       else case first_leaf ls2 None of None \<Rightarrow> (Inr rows', s2)
         | Some q \<Rightarrow> query_leaves crc ops qpk after_sk cursor limit q False (insert p visited) rows' s2)"
    if rd: "Reading st0 V t cells fs core (fst s2)"
      and rows': "rows' = rows @ take (limit - length rows) (query_rows qpk after_sk (cell_map es c))"
      and complete: "if complete then length rows' = limit \<or> (\<exists>e \<in> set es. \<exists>k. le_key e = document_key_encode k \<and> qpk < pk k)
        else length rows' < limit"
    for complete rows' and s2 :: "('f, 'w) overlay \<times> response_budget"
  proof (cases complete)
    case True
    then have "limit - length rows \<le> length (query_rows qpk after_sk (cell_map es c)) \<or>
        query_rows qpk after_sk (cell_map (leaf_entries ls2) C3) = []"
      using rows' complete prems(6) beyond by auto
    then show ?thesis unfolding split using True rd rows' by auto
  next
    case False
    then have short: "length (query_rows qpk after_sk (cell_map es c)) < limit - length rows"
      using rows' complete prems(6) by (auto simp: min_def split: if_splits)
    then have rows: "rows' = rows @ query_rows qpk after_sk (cell_map es c)" "length rows' < limit" using rows' by auto
    show ?thesis
    proof (cases ls2)
      case Nil
      then show ?thesis unfolding split using False rd short c(3) by (simp add: rows)
    next
      case (Cons l ls3)
      obtain q es' where l: "l = (q, es')" by force
      have "outcome (\<lambda>rows'' s'. Reading st0 V t cells fs core (fst s') \<and>
          rows'' = rows' @ take (limit - length rows') (query_rows qpk after_sk (cell_map (es' @ leaf_entries ls3) C3)))
          (TooLarge st0) (query_leaves crc ops qpk after_sk cursor limit q False (insert p visited) rows' s2)"
        by (rule 1(1) [rule_format, of ls3 s2 "ls1 @ [(p, es)]" q es' "C1 @ c" C3])
          (use Cons l rd prems c rows(2) in auto)
      then show ?thesis
        unfolding split using False short by (auto simp: Cons l rows elim!: outcome_mono)
    qed
  qed
  have "p \<notin> visited" using p prems(5) by blast
  then show ?case
    apply (subst query_leaves.simps, simp only: if_False if_True prems(6))
    apply (rule outcome_bindS, rule outcome_read, rule leaf)
    apply (elim conjE, simp only: prod.case)
    apply (rule outcome_bindS, rule query_entries_outcome [OF _ prems(6) sub c(2) _ _ cursor], assumption)
    using sorted apply (simp_all add: sorted_wrt_append) [2]
    subgoal premises prems for x s1 y s2
    proof -
      obtain complete first' rows' where y: "y = (complete, first', rows')" by (cases y)
      show ?thesis unfolding y prod.case by (rule tail) (use prems y in auto)
    qed
    done
qed

lemma query_with_budget_outcome:
  fixes s :: "('f, 'w) overlay \<times> response_budget"
  assumes "Reading st0 V t cells fs core (fst s)" "list_all canonical (leaf_entries (leaves t))"
    and "length (document_key_encode (DocumentKey qpk [])) \<le> MAX_ENCODED_KEY_SIZE"
    and "\<And>c. after_sk = Some c \<Longrightarrow> length (document_key_encode (DocumentKey qpk c)) \<le> MAX_ENCODED_KEY_SIZE"
  shows "outcome (\<lambda>rows s'. Reading st0 V t cells fs core (fst s') \<and>
      rows = take limit (query_rows qpk after_sk (cell_map (leaf_entries (leaves t)) cells)))
    (TooLarge st0) (query_with_budget crc ops qpk after_sk limit s)"
proof (cases "limit = 0")
  case True
  then show ?thesis using assms(1) by (simp add: query_with_budget_def)
next
  case False
  let ?start = "document_key_encode (DocumentKey qpk [])"
    and ?c = "map_option (\<lambda>c. document_key_encode (DocumentKey qpk c)) after_sk"
  have cells: "length cells = length (leaf_entries (leaves t))"
    using assms(1) by (auto simp: reading_def dest: list_all2_lengthD)
  have valid: "validate_encoded_key ?start = Inr ()" "(case ?c of None \<Rightarrow> Inr () | Some c \<Rightarrow> validate_encoded_key c) = Inr ()"
    using assms(3,4) by (auto simp: validate_encoded_key_def split: option.splits)
  have rest: "outcome (\<lambda>rows s'. Reading st0 V t cells fs core (fst s') \<and>
      rows = take limit (query_rows qpk after_sk (cell_map (leaf_entries (leaves t)) cells)))
      (TooLarge st0) (query_leaves crc ops qpk after_sk ?c limit p True {} [] s1)"
    if rd: "Reading st0 V t cells fs core (fst s1)" and t: "leaves t = lsa @ (p, es) # lsb"
      and low: "\<forall>e \<in> set (leaf_entries lsa). le_key e < ?start" for p lsa es lsb s1
  proof -
    let ?C1 = "take (length (leaf_entries lsa)) cells" and ?C2 = "drop (length (leaf_entries lsa)) cells"
    have C1: "length ?C1 = length (leaf_entries lsa)" using cells by (simp add: t)
    have "query_rows qpk after_sk (cell_map (leaf_entries lsa) ?C1) = []"
    proof (rule query_rows_none)
      fix k x assume "(document_key_encode k, x) \<in> set (cell_map (leaf_entries lsa) ?C1)"
      then obtain e where "e \<in> set (leaf_entries lsa)" "le_key e = document_key_encode k"
        using fst_set_cell_map [of "leaf_entries lsa" ?C1] by force
      then show "\<not> matches qpk after_sk k" using low by (intro matches_start) auto
    qed
    then have "query_rows qpk after_sk (cell_map (leaf_entries (leaves t)) cells) =
        query_rows qpk after_sk (cell_map (es @ leaf_entries lsb) ?C2)"
      using cell_map_append [of "leaf_entries lsa" ?C1 "es @ leaf_entries lsb" ?C2] C1 by (simp add: t)
    then show ?thesis
      using query_leaves_outcome [OF rd assms(2) refl t, of ?C1 ?C2 "{}" "[]" limit qpk after_sk True] C1 False by simp
  qed
  show ?thesis
    unfolding query_with_budget_def Let_def using False
    apply simp
    apply (rule outcome_bindS [where R = "\<lambda>_ s'. s' = s"], simp add: valid)
    apply (hypsubst, rule outcome_bindS, rule outcome_read, rule find_leaf_reading [OF assms(1), of ?start])
    subgoal premises prems for u s1 r s2
    proof -
      obtain leaf_id route lsa es lsb where r: "r = (leaf_id, route)" and t: "leaves t = lsa @ (leaf_id, es) # lsb"
        and low: "\<forall>e \<in> set (leaf_entries lsa). le_key e < ?start" and rd: "Reading st0 V t cells fs core (fst s2)"
        using prems by (cases r) auto
      have "outcome (\<lambda>rows s'. Reading st0 V t cells fs core (fst s') \<and>
          rows = take limit (query_rows qpk after_sk (cell_map (leaf_entries (leaves t)) cells)))
          (TooLarge st0) (query_leaves crc ops qpk after_sk ?c limit leaf_id True {} [] s2)"
        by (rule rest [OF rd t low])
      then show ?thesis
        using assms(4) by (cases after_sk) (simp_all add: r bindS_def liftR_def validate_encoded_key_def)
    qed
    done
qed

lemma get_state_with_budget_outcome:
  fixes s :: "('f, 'w) overlay \<times> response_budget"
  assumes "Reading st0 V t cells fs core (fst s)" "length (document_key_encode key) \<le> MAX_ENCODED_KEY_SIZE"
  shows "outcome (\<lambda>r s'. r = db_get (cell_map (leaf_entries (leaves t)) cells) (document_key_encode key) \<and>
      Reading st0 V t cells fs core (fst s')) (TooLarge st0) (get_state_with_budget crc ops key s)"
proof -
  let ?k = "document_key_encode key"
  have valid: "validate_encoded_key ?k = Inr ()" using assms(2) by (simp add: validate_encoded_key_def)
  have cells: "length (leaf_entries (leaves t)) = length cells"
    using assms(1) by (auto simp: reading_def dest: list_all2_lengthD)
  have entry: "outcome (\<lambda>r s'. r = snd c \<and> Reading st0 V t cells fs core (fst s')) (TooLarge st0)
      ((case le_value e of
         Some value_ref \<Rightarrow>
           bindS (liftR (value_length value_ref)) (\<lambda>len.
           bindS (on_budget (reserve_state len)) (\<lambda>_.
           bindS (on_overlay (read_value crc ops value_ref)) (\<lambda>val. returnS (Present val (le_revision e)))))
       | None \<Rightarrow> bindS (on_budget (reserve_state 0)) (\<lambda>_. returnS (Missing (le_revision e)))) s1)"
    if rd: "Reading st0 V t cells fs core (fst s1)" and e: "(e, c) \<in> set (zip (leaf_entries (leaves t)) cells)"
    for e c and s1 :: "('f, 'w) overlay \<times> response_budget"
  proof (cases "le_value e")
    case None
    have "cell_ok V e c" using rd e by (auto simp: reading_def list_all2_iff)
    then have "snd c = Missing (le_revision e)" using None by (simp add: cell_ok_def)
    then show ?thesis
      using None rd reading_fails [OF rd]
      by (auto intro!: outcome_bindS [where R = "\<lambda>_ s'. Reading st0 V t cells fs core (fst s')"] outcome_reserve)
  next
    case (Some vref)
    obtain val where c: "snd c = Present val (le_revision e)" and len: "value_length vref = Inr (length val)"
      by (rule reading_value [OF rd e Some])
    have read: "outcome (\<lambda>out s'. out = val \<and> Reading st0 V t cells fs core (fst s')) (TooLarge st0)
        (on_overlay (read_value crc ops vref) s2)" if "Reading st0 V t cells fs core (fst s2)" for s2
      by (rule reading_value [OF that e Some], rule outcome_read) (use c in auto)
    show ?thesis
      unfolding Some option.case
      apply (rule outcome_bindS [where R = "\<lambda>n s'. n = length val \<and> s' = s1"], simp add: len)
      apply (elim conjE, hypsubst, rule outcome_bindS [where R = "\<lambda>_ s'. Reading st0 V t cells fs core (fst s')"])
       apply (rule outcome_reserve(1); simp only: fst_conv, use rd reading_fails [OF rd] in blast)
      apply (rule outcome_bindS [OF read], assumption)
      by (simp add: c)
  qed
  show ?thesis
    unfolding get_state_with_budget_def Let_def
    apply (rule outcome_bindS [where R = "\<lambda>_ s'. s' = s"], simp add: valid)
    apply (hypsubst, rule outcome_bindS, rule outcome_read, rule find_leaf_reading [OF assms(1), of ?k])
    subgoal premises prems for u s1 r s2
    proof -
      obtain p route lsa es lsb where r: "r = (p, route)" and t: "leaves t = lsa @ (p, es) # lsb"
        and out: "\<forall>e \<in> set (leaf_entries lsa). le_key e < ?k" "\<forall>e \<in> set (leaf_entries lsb). ?k < le_key e"
        and rd: "Reading st0 V t cells fs core (fst s2)"
        using prems by (cases r) auto
      have leaf: "outcome (\<lambda>r ov'. r = (first_leaf lsb None, es) \<and> Reading st0 V t cells fs core ov') (Fails st0 {}) (ov_leaf crc ops p (fst s2))"
        by (rule reading_leaf [OF rd t, of "take (length (leaf_entries lsa)) cells" "drop (length (leaf_entries lsa)) cells"])
          (use cells in \<open>simp_all add: t\<close>)
      have find: "find (\<lambda>e. le_key e = ?k) es = find (\<lambda>e. le_key e = ?k) (leaf_entries (leaves t))"
        using find_middle [of "leaf_entries lsa" ?k "leaf_entries lsb" es] out by (simp add: t)
      show ?thesis
        unfolding r prod.case
        apply (rule outcome_bindS, rule outcome_read, rule leaf)
        apply (elim conjE, simp only: prod.case find)
        subgoal for x s3
        proof (cases "find (\<lambda>e. le_key e = ?k) (leaf_entries (leaves t))")
          case None
          assume rd3: "Reading st0 V t cells fs core (fst s3)"
          then show ?thesis
            using find_zip [OF cells, of ?k] None reading_fails [OF rd3]
            by (auto simp: db_get_def intro!: outcome_bindS [where R = "\<lambda>_ s'. Reading st0 V t cells fs core (fst s')"] outcome_reserve)
        next
          case (Some e)
          assume rd3: "Reading st0 V t cells fs core (fst s3)"
          obtain c where c: "(e, c) \<in> set (zip (leaf_entries (leaves t)) cells)"
            and m: "map_of (cell_map (leaf_entries (leaves t)) cells) ?k = Some (snd c)"
            using find_zip [OF cells, of ?k] Some by auto
          show ?thesis unfolding Some option.case db_get_def m by (rule entry [OF rd3 c])
        qed
        done
    qed
    done
qed

end

section \<open>The reads of the reference database\<close>

definition stored :: "document \<Rightarrow> stored_document" where
  "stored d = \<lparr>sd_key = doc_key d, sd_value = doc_value d, sd_revision = doc_revision d\<rparr>"

lemma row_of_encoded: "row_of (document_key_encode k, x) = map_option stored (ref_row (k, x))"
  by (cases x) (simp_all add: row_of_def document_key.decode_encode stored_def)

lemma scan_rows_encoded:
  "take limit (scan_rows (map_option document_key_encode cursor) (encoded (states db))) = map stored (ref_scan db cursor limit)"
proof -
  have "scan_rows (map_option document_key_encode cursor) (encoded m) =
      map stored (List.map_filter (\<lambda>(k, s). if (case cursor of None \<Rightarrow> False | Some c \<Rightarrow> k \<le> c) then None else ref_row (k, s)) m)" for m
  proof (induction m)
    case (Cons kx m)
    obtain k x where kx: "kx = (k, x)" by force
    have "(case map_option document_key_encode cursor of None \<Rightarrow> False | Some c \<Rightarrow> document_key_encode k \<le> c) =
        (case cursor of None \<Rightarrow> False | Some c \<Rightarrow> k \<le> c)"
      by (cases cursor) (simp_all add: document_key.encode_le_iff)
    then show ?case
      using Cons unfolding kx by (simp add: encoded_def scan_rows_Cons row_of_encoded map_filter_simps split: option.splits)
  qed (simp add: encoded_def map_filter_simps)
  then show ?thesis by (simp add: ref_scan_def take_map)
qed

lemma query_rows_encoded:
  "take limit (query_rows qpk after_sk (encoded (states db))) = map stored (ref_query db qpk after_sk limit)"
proof -
  have "query_rows qpk after_sk (encoded m) =
      map stored (List.map_filter (\<lambda>(k, s). if pk k \<noteq> qpk \<or> (case after_sk of None \<Rightarrow> False | Some c \<Rightarrow> sk k \<le> c) then None else ref_row (k, s)) m)" for m
  proof (induction m)
    case (Cons kx m)
    obtain k x where kx: "kx = (k, x)" by force
    show ?case
      using Cons unfolding kx
      by (auto simp add: encoded_def query_rows_Cons row_of_encoded map_filter_simps matches_def split: option.splits)
  qed (simp add: encoded_def map_filter_simps)
  then show ?thesis by (simp add: ref_query_def take_map)
qed

end
