(* ===== verification/Btree_Batch.thy ===== *)
theory Btree_Batch
  imports Btree_Query
begin

text \<open>
  The read operations of the store. A batch of reads and a multi-key read answer as the reference
  database does and publish nothing: their overlay has no dirty page.
\<close>

section \<open>Reads make no page dirty\<close>

abbreviation idle :: "('f, 'w, 'a) overlay_op \<Rightarrow> bool" where "idle \<equiv> keeps ov_dirty"

abbreviation idle_budgeted :: "('f, 'w, 'a) budgeted_op \<Rightarrow> bool" where
  "idle_budgeted \<equiv> keeps (\<lambda>s. ov_dirty (fst s))"

lemma idle_ov_page [keeps_intros]: "idle (ov_page crc ops p)"
  unfolding ov_page_def
  by (rule keeps_bindS) (auto simp: keeps_def check_page_id_def split: option.splits prod.splits sum.splits)

lemma idle_ov_leaf [keeps_intros]: "idle (ov_leaf crc ops p)"
  unfolding ov_leaf_def by (auto intro!: keeps_intros split: page_data.splits)

lemma idle_read_chain: "ov_dirty (snd (read_chain crc ops len p vis out n ov)) = ov_dirty ov"
proof (induction crc ops len p vis out n ov rule: read_chain.induct)
  case (2 crc ops len current visited out count ov)
  obtain r ov1 where r: "ov_page crc ops current ov = (r, ov1)" by force
  show ?case
    using 2 r keeps_run [OF idle_ov_page r]
    by (subst read_chain.simps) (auto split: sum.splits page_data.splits)
qed simp

lemma idle_find_leaf_loop: "ov_dirty (snd (find_leaf_loop crc ops key p route vis ov)) = ov_dirty ov"
proof (induction crc ops key p route vis ov rule: find_leaf_loop.induct)
  case (1 crc ops key p route vis ov)
  obtain r ov1 where r: "ov_page crc ops p ov = (r, ov1)" by force
  show ?case
    using 1 r keeps_run [OF idle_ov_page r]
    by (subst find_leaf_loop.simps) (auto simp: Let_def split: sum.splits page_data.splits)
qed

lemma idle_leftmost_leaf_loop: "ov_dirty (snd (leftmost_leaf_loop crc ops p vis ov)) = ov_dirty ov"
proof (induction crc ops p vis ov rule: leftmost_leaf_loop.induct)
  case (1 crc ops p vis ov)
  obtain r ov1 where r: "ov_page crc ops p ov = (r, ov1)" by force
  show ?case
    using 1 r keeps_run [OF idle_ov_page r]
    by (subst leftmost_leaf_loop.simps) (auto simp: Let_def split: sum.splits page_data.splits)
qed

lemma idle_loops [keeps_intros]:
  "idle (read_chain crc ops len p vis out n)" "idle (find_leaf crc ops key)" "idle (leftmost_leaf crc ops)"
  using idle_read_chain idle_find_leaf_loop idle_leftmost_leaf_loop
  by (auto simp: keeps_def find_leaf_def leftmost_leaf_def)

lemma idle_read_value [keeps_intros]: "idle (read_value crc ops vref)"
  by (cases vref) (auto intro!: keeps_intros)

lemma idle_on_overlay [keeps_intros]: "idle m \<Longrightarrow> idle_budgeted (on_overlay m)"
  by (auto simp: keeps_def on_overlay_def split: prod.splits) (metis snd_conv)

lemma idle_on_budget [keeps_intros]: "idle_budgeted (on_budget m)"
  by (auto simp: keeps_def on_budget_def split: prod.splits)

lemma idle_read_row [keeps_intros]: "idle_budgeted (read_row crc ops key vref r)"
  unfolding read_row_def by (auto intro!: keeps_intros)

lemma idle_get_state [keeps_intros]: "idle_budgeted (get_state_with_budget crc ops key)"
  unfolding get_state_with_budget_def Let_def by (auto intro!: keeps_intros split: prod.splits option.splits)

lemma idle_entries [keeps_intros]:
  "idle_budgeted (query_entries crc ops qpk after_sk cursor limit first rows es)"
  "idle_budgeted (scan_entries crc ops cursor limit rows es)"
   apply (induction es arbitrary: first rows)
    apply (auto intro!: keeps_intros split: option.splits) [2]
  apply (induction es arbitrary: rows)
   apply (auto intro!: keeps_intros split: option.splits)
  done

lemma idle_scan_leaves: "ov_dirty (fst (snd (scan_leaves crc ops cursor limit p vis rows s))) = ov_dirty (fst s)"
proof (induction crc ops cursor limit p vis rows s rule: scan_leaves.induct)
  case (1 crc ops cursor limit p vis rows s)
  let ?d = "\<lambda>s. ov_dirty (fst s)"
  show ?case
  proof (cases "p \<in> vis")
    case False
    show ?thesis
      apply (subst scan_leaves.simps, simp only: False if_False)
      apply (rule keeps_bindS_run [where field = ?d, OF idle_on_overlay [OF idle_ov_leaf]])
      subgoal for leaf s1
        by (cases leaf, simp only: prod.case, rule keeps_bindS_run [where field = ?d, OF idle_entries(2)])
          (auto simp: 1 [OF False] split: option.splits)
      done
  qed (simp add: scan_leaves.simps)
qed

lemma idle_query_leaves:
  "ov_dirty (fst (snd (query_leaves crc ops qpk after_sk cursor limit p first vis rows s))) = ov_dirty (fst s)"
proof (induction crc ops qpk after_sk cursor limit p first vis rows s rule: query_leaves.induct)
  case (1 crc ops qpk after_sk cursor limit p first vis rows s)
  let ?d = "\<lambda>s. ov_dirty (fst s)"
  show ?case
  proof (cases "length rows < limit \<and> p \<notin> vis")
    case True
    then have c: "length rows < limit" "p \<notin> vis" by simp_all
    show ?thesis
      apply (subst query_leaves.simps, simp only: c if_True if_False)
      apply (rule keeps_bindS_run [where field = ?d, OF idle_on_overlay [OF idle_ov_leaf]])
      subgoal for leaf s1
        by (cases leaf, simp only: prod.case, rule keeps_bindS_run [where field = ?d, OF idle_entries(1)])
          (auto simp: 1 [OF c] split: option.splits)
      done
  qed (simp add: query_leaves.simps)
qed

lemma idle_ranges [keeps_intros]:
  "idle_budgeted (query_with_budget crc ops qpk after_sk limit)" "idle_budgeted (scan_with_budget crc ops cursor limit)"
proof -
  have "idle_budgeted (query_leaves crc ops qpk after_sk c limit p first vis rows)"
    "idle_budgeted (scan_leaves crc ops c limit p vis rows)" for c p first vis rows
    unfolding keeps_def by (rule allI, rule idle_query_leaves) (rule allI, rule idle_scan_leaves)
  then show "idle_budgeted (query_with_budget crc ops qpk after_sk limit)" "idle_budgeted (scan_with_budget crc ops cursor limit)"
    unfolding query_with_budget_def scan_with_budget_def Let_def
    by (auto intro!: keeps_intros split: prod.splits option.splits)
qed

fun is_read :: "batch_request \<Rightarrow> bool" where
  "is_read (ReqPut k v) = False"
| "is_read (ReqDelete k) = False"
| "is_read _ = True"

lemma idle_execute: "is_read req \<Longrightarrow> idle_budgeted (execute_with_budget crc ops req)"
  by (cases req) (auto simp: execute_with_budget_def intro!: keeps_intros)

lemma idle_execute_requests: "list_all is_read reqs \<Longrightarrow> idle_budgeted (execute_requests crc ops reqs responses)"
  by (induction reqs arbitrary: responses) (auto intro!: keeps_intros idle_execute)

section \<open>Reads answer as the reference database\<close>

fun read_fits :: "batch_request \<Rightarrow> bool" where
  "read_fits (ReqGet k) = key_fits k"
| "read_fits (ReqQuery qpk after_sk limit) \<longleftrightarrow>
     key_fits (DocumentKey qpk []) \<and> (case after_sk of None \<Rightarrow> True | Some c \<Rightarrow> key_fits (DocumentKey qpk c))"
| "read_fits (ReqScan cursor limit) = (case cursor of None \<Rightarrow> True | Some k \<Rightarrow> key_fits k)"
| "read_fits _ = False"

fun ref_read :: "reference_db \<Rightarrow> batch_request \<Rightarrow> batch_response option" where
  "ref_read db (ReqGet k) = Some (RespGet (ref_get db k))"
| "ref_read db (ReqQuery qpk after_sk limit) = Some (RespQuery (map stored (ref_query db qpk after_sk limit)))"
| "ref_read db (ReqScan cursor limit) = Some (RespScan (map stored (ref_scan db cursor limit)))"
| "ref_read db _ = None"

lemma read_fits_is_read: "read_fits req \<Longrightarrow> is_read req"
  by (cases req) auto

context page_store
begin

lemma ready_reading:
  fixes ov :: "('f, 'w) overlay"
  assumes "ov_ready crc view healthy st0 m ov"
  obtains V t cells fs where "Reading st0 V t cells fs (ov_core ov) ov"
    "cell_map (leaf_entries (leaves t)) cells = encoded m" "list_all canonical (leaf_entries (leaves t))"
proof -
  obtain V t cells fs where st: "tree_state crc view healthy st0 V t (cell_pages cells) fs ov"
    and cells: "cells_ok V (leaf_entries (leaves t)) cells" and m: "encoded m = cell_map (leaf_entries (leaves t)) cells"
    using assms by (auto simp: ov_ready_def represents_def)
  have "map le_key (leaf_entries (leaves t)) = map fst (encoded m)"
    using list_all2_lengthD [OF cells] by (simp add: m cell_map_def)
  then have "le_key e \<in> fst ` set (encoded m)" if "e \<in> set (leaf_entries (leaves t))" for e
    using that by (metis image_eqI list.set_map)
  then have "list_all canonical (leaf_entries (leaves t))"
    by (fastforce simp: list_all_iff canonical_def encoded_def)
  then show thesis using that [of V t cells fs] st cells m by (simp add: reading_def)
qed

lemma reading_committed:
  assumes "Reading st0 V t cells fs core ov"
  shows "same_committed crc view healthy (fst st0) (ov_store ov)" "ov_core ov = core"
  using assms by (auto simp: reading_def tree_state_def dest!: arena_committed)

lemma execute_read_outcome:
  fixes s :: "('f, 'w) overlay \<times> response_budget"
  assumes "Reading st0 V t cells fs core (fst s)" "cell_map (leaf_entries (leaves t)) cells = encoded (states db)"
    and "list_all canonical (leaf_entries (leaves t))" "read_fits req"
  shows "outcome (\<lambda>r s'. ref_read db req = Some r \<and> Reading st0 V t cells fs core (fst s')) (TooLarge st0)
    (execute_with_budget crc ops req s)"
proof (cases req)
  case (ReqGet k)
  show ?thesis
    unfolding execute_with_budget_def ReqGet batch_request.case
    by (rule outcome_bindS, rule get_state_with_budget_outcome [OF assms(1), of k])
      (use assms(2,4) in \<open>auto simp: ReqGet db_get_encoded\<close>)
next
  case (ReqQuery qpk after_sk limit)
  show ?thesis
    unfolding execute_with_budget_def ReqQuery batch_request.case
    by (rule outcome_bindS, rule query_with_budget_outcome [OF assms(1,3), of qpk after_sk limit])
      (use assms(4) query_rows_encoded [of limit qpk after_sk db] in \<open>auto simp: ReqQuery assms(2)\<close>)
next
  case (ReqScan cursor limit)
  show ?thesis
    unfolding execute_with_budget_def ReqScan batch_request.case
    by (rule outcome_bindS, rule scan_with_budget_outcome [OF assms(1,3), of cursor limit])
      (use assms(4) scan_rows_encoded [of limit cursor db] in \<open>auto simp: ReqScan assms(2)\<close>)
qed (use assms(4) in simp_all)

lemma execute_reads_outcome:
  fixes s :: "('f, 'w) overlay \<times> response_budget"
  assumes "Reading st0 V t cells fs core (fst s)" "cell_map (leaf_entries (leaves t)) cells = encoded (states db)"
    and "list_all canonical (leaf_entries (leaves t))" "list_all read_fits reqs"
  shows "outcome (\<lambda>rs s'. map Some rs = map Some responses @ map (ref_read db) reqs \<and> Reading st0 V t cells fs core (fst s'))
    (TooLarge st0) (execute_requests crc ops reqs responses s)"
  using assms(1,4)
proof (induction reqs arbitrary: responses s)
  case (Cons req reqs)
  show ?case
    unfolding execute_requests.simps
    apply (rule outcome_bindS, rule execute_read_outcome [OF Cons.prems(1) assms(2,3)])
    using Cons.prems(2) apply simp
    subgoal for r s1
      using Cons.IH [of s1 "responses @ [r]"] Cons.prems(2) by (auto elim!: outcome_mono)
    done
qed simp

lemma read_batch_refines:
  fixes st :: "('f, 'w) btree_store"
  assumes "store_ready crc view healthy (states db) st" "list_all read_fits reqs"
    and "apply_batch_with_response_budget crc ops wops reqs maximum st = (r, st')"
  shows "store_ready crc view healthy (states db) st' \<and> same_committed crc view healthy st st' \<and>
    (case r of
       Inr rs \<Rightarrow> map Some rs = map (ref_read db) reqs
     | Inl e \<Rightarrow> healthy (st_file st) \<longrightarrow> e = ResponseTooLarge \<or> e = DurabilityFailure \<and> st_broken st)"
proof -
  let ?B = "(st, stored_page crc view st)" and ?ov = "overlay_new st"
  obtain V t cells fs where rd: "Reading ?B V t cells fs (ov_core ?ov) ?ov"
    and m: "cell_map (leaf_entries (leaves t)) cells = encoded (states db)" and can: "list_all canonical (leaf_entries (leaves t))"
    by (rule ready_reading [OF assms(1) [unfolded store_ready_def]])
  obtain q ov where q: "with_budget maximum (execute_requests crc ops reqs []) ?ov = (q, ov)" by force
  have out: "same_committed crc view healthy st (ov_store ov) \<and>
      (case q of Inr rs \<Rightarrow> map Some rs = map (ref_read db) reqs \<and> ov_core ov = ov_core ?ov \<and> ov_dirty ov = []
       | Inl e \<Rightarrow> healthy (st_file st) \<longrightarrow> e = ResponseTooLarge)"
  proof (cases "budget_new maximum")
    case (Inl e)
    then show ?thesis
      using q reading_committed [OF rd] by (auto simp: with_budget_def budget_new_def split: if_splits)
  next
    case (Inr b)
    obtain ov1 b1 where run: "execute_requests crc ops reqs [] (?ov, b) = (q, ov1, b1)" "ov = ov1"
      using q by (auto simp: with_budget_def Inr split: prod.splits)
    have "ov_dirty ov = ov_dirty ?ov"
      using keeps_run [OF idle_execute_requests run(1)] assms(2) read_fits_is_read run(2) by (auto simp: list_all_iff)
    then show ?thesis
      using execute_reads_outcome [of ?B V t cells fs "ov_core ?ov" "(?ov, b)" db reqs "[]"] rd m can assms(2)
        reading_committed [of ?B V t cells fs "ov_core ?ov" ov1]
      unfolding run by (cases q) (auto simp: fails_def overlay_new_def)
  qed
  have ready: "store_ready crc view healthy (states db) (ov_store ov)"
    using store_ready_same_committed [OF assms(1)] out by blast
  show ?thesis
  proof (cases q)
    case (Inl e)
    then have "(r, st') = (Inl e, ov_store ov)"
      using assms(3) q
      by (simp add: apply_batch_with_response_budget_def prepare_batch_with_response_budget_def with_overlay_def bindS_def)
    then show ?thesis using out ready Inl by simp
  next
    case (Inr rs)
    then have rs: "map Some rs = map (ref_read db) reqs" and core: "ov_core ov = ov_core ?ov" "ov_dirty ov = []"
      using out by simp_all
    have last: "ov_last_lsn ov = None" using core(1) by (simp add: ov_core_def ov_stamp_def overlay_new_def)
    obtain c where c: "finish_batch crc ov rs = Inr c" "pb_responses c = rs" "pb_changed_pages c = []"
      "pb_base_generation c = sb_generation (st_current_superblock (ov_store ov))"
      by (simp add: finish_batch_def last core(2) Let_def)
    have "apply_batch_with_response_budget crc ops wops reqs maximum st = publish_prepared crc ops wops c (ov_store ov)"
      using q c(1) Inr
      by (simp add: apply_batch_with_response_budget_def prepare_batch_with_response_budget_def with_overlay_def bindS_def)
    also have "\<dots> = (if st_broken (ov_store ov) then Inl DurabilityFailure else Inr rs, ov_store ov)"
      by (simp add: publish_prepared_def publish_prepared_group_def bindS_def st_get_def liftR_def returnS_def c)
    finally show ?thesis
      using assms(3) out ready rs same_committed_fields(11) [of crc view healthy st "ov_store ov"] by auto
  qed
qed

lemma get_states_outcome:
  fixes s :: "('f, 'w) overlay \<times> response_budget"
  assumes "Reading st0 V t cells fs core (fst s)" "cell_map (leaf_entries (leaves t)) cells = encoded (states db)"
    and "list_all key_fits keys"
  shows "outcome (\<lambda>r s'. r = found @ ref_transact_get db keys \<and> Reading st0 V t cells fs core (fst s')) (TooLarge st0)
    (get_states crc ops keys found s)"
  using assms(1,3)
proof (induction keys arbitrary: found s)
  case (Cons key keys)
  show ?case
    unfolding get_states.simps
    apply (rule outcome_bindS, rule get_state_with_budget_outcome [OF Cons.prems(1)])
    using Cons.prems(2) apply simp
    subgoal for r s1
      using Cons.IH [of s1 "found @ [r]"] Cons.prems(2)
      by (auto simp: ref_transact_get_def assms(2) db_get_encoded elim!: outcome_mono)
    done
qed (simp add: ref_transact_get_def)

lemma transact_get_refines:
  fixes st :: "('f, 'w) btree_store"
  assumes "store_ready crc view healthy (states db) st" "list_all key_fits keys"
    and "transact_get_with_response_budget crc ops keys maximum st = (r, st')"
  shows "store_ready crc view healthy (states db) st' \<and> same_committed crc view healthy st st' \<and>
    (case r of
       Inr found \<Rightarrow> found = ref_transact_get db keys
     | Inl e \<Rightarrow> healthy (st_file st) \<longrightarrow> e = ResponseTooLarge \<or> e = DurabilityFailure \<and> st_broken st)"
proof -
  let ?B = "(st, stored_page crc view st)" and ?ov = "overlay_new st"
  obtain V t cells fs where rd: "Reading ?B V t cells fs (ov_core ?ov) ?ov"
    and m: "cell_map (leaf_entries (leaves t)) cells = encoded (states db)"
    by (rule ready_reading [OF assms(1) [unfolded store_ready_def]])
  have own: "same_committed crc view healthy st st" using reading_committed(1) [OF rd] by (simp add: overlay_new_def)
  obtain q ov where q: "with_budget maximum (get_states crc ops keys []) ?ov = (q, ov)" by force
  have out: "same_committed crc view healthy st (ov_store ov) \<and>
      (case q of Inr found \<Rightarrow> found = ref_transact_get db keys | Inl e \<Rightarrow> healthy (st_file st) \<longrightarrow> e = ResponseTooLarge)"
  proof (cases "budget_new maximum")
    case (Inl e)
    then show ?thesis
      using q reading_committed [OF rd] by (auto simp: with_budget_def budget_new_def split: if_splits)
  next
    case (Inr b)
    obtain ov1 b1 where run: "get_states crc ops keys [] (?ov, b) = (q, ov1, b1)" "ov = ov1"
      using q by (auto simp: with_budget_def Inr split: prod.splits)
    then show ?thesis
      using get_states_outcome [of ?B V t cells fs "ov_core ?ov" "(?ov, b)" db keys "[]"] rd m assms(2)
        reading_committed [of ?B V t cells fs "ov_core ?ov" ov1]
      unfolding run by (cases q) (auto simp: fails_def)
  qed
  have "(r, st') = (if st_broken st then (Inl DurabilityFailure, st) else (q, ov_store ov))"
    using assms(3) q
    by (cases "st_broken st")
      (simp_all add: transact_get_with_response_budget_def with_overlay_def bindS_def st_get_def liftR_def)
  then show ?thesis
    using out own store_ready_same_committed [OF assms(1)] assms(1) by (auto split: if_splits sum.splits)
qed

lemma observe_keys_outcome:
  assumes "Represents st0 (encoded (states db)) ov" "list_all key_fits keys"
  shows "outcome (\<lambda>r ov'. r = found @ map (\<lambda>k. observed (ref_get db k)) keys \<and> Represents st0 (encoded (states db)) ov')
    (Fails st0 {}) (observe_keys crc ops keys found ov)"
  using assms
proof (induction keys arbitrary: found ov)
  case (Cons key keys)
  show ?case
    unfolding observe_keys.simps
    apply (rule outcome_bindS, rule get_observed_state_outcome [OF Cons.prems(1)])
    using Cons.prems(2) apply simp
    subgoal for r ov1
      using Cons.IH [of ov1 "found @ [r]"] Cons.prems(2) by (auto simp: db_get_encoded elim!: outcome_mono)
    done
qed simp

lemma observe_refines:
  fixes st :: "('f, 'w) btree_store"
  assumes "store_ready crc view healthy (states db) st" "list_all key_fits keys" "healthy (st_file st)" "\<not> st_broken st"
  shows "\<exists>st'. observe crc ops keys st = (Inr (map (\<lambda>k. observed (ref_get db k)) keys), st') \<and>
    same_committed crc view healthy st st' \<and> store_ready crc view healthy (states db) st'"
proof -
  let ?B = "(st, stored_page crc view st)"
  have rep: "Represents ?B (encoded (states db)) (overlay_new st)" using assms(1) by (simp add: store_ready_def ov_ready_def)
  obtain q ov where q: "observe_keys crc ops keys [] (overlay_new st) = (q, ov)" by force
  have "q = Inr (map (\<lambda>k. observed (ref_get db k)) keys) \<and> same_committed crc view healthy st (ov_store ov)"
    using observe_keys_outcome [OF rep assms(2), of "[]"] assms(3) unfolding q
    by (cases q) (auto simp: fails_def represents_def tree_state_def dest!: arena_committed)
  then show ?thesis
    using q assms(4) store_ready_same_committed [OF assms(1)]
    by (simp add: observe_def bindS_def st_get_def with_overlay_def)
qed

end

end
