(* ===== verification/Spec2Isabelle.thy ===== *)
theory Spec2Isabelle
  imports Reference_Db Durable_File Wal_Progress Btree_Recovery Btree_Init Btree_Batch
begin

text \<open>
  A verification of \<open>dodb\<close>, the transactional document store of the repository
  (\<open>src/dodb/crates\<close>).
\<close>

section \<open>A concrete database\<close>

text \<open>The database and the request the witnesses below use.\<close>

definition example_key :: document_key where
  "example_key = DocumentKey [1] [2]"

definition example_wal :: "crashable_file wal_log" where
  "example_wal =
     \<lparr>wal_file = crashable_new, wal_identity = \<lparr>wi_database_uuid = replicate 16 0, wi_tenant_id = 0, wi_shard_id = 0, wi_shard_epoch = 0\<rparr>,
      wal_format_version = 1,
      wal_next_lsn = 1, wal_next_batch_id = 1, wal_history_start_lsn = 0, wal_committed = [],
      wal_scan_report = empty_scan_report, wal_sync_count = 0, wal_page_images = 0\<rparr>"

lemma example_leaf_fits: "leaf_fits [\<lparr>le_key = document_key_encode example_key, le_revision = r, le_value = Some (Inline [7])\<rparr>]"
  unfolding leaf_fits_iff example_key_def
  by (simp add: leaf_record_length_def key_ok_def length_document_key_encode document_key.decode_encode
      document_key_encoded_len_def encoded_component_len_def)

lemma example_store:
  obtains st f where "initialize crc crashable_ops database_config_default crashable_new = (Inr st, f)"
    "fault_free (st_file st)" "fresh_store crc volatile database_config_default (st\<lparr>st_wal := Some (example_wal :: crashable_file wal_log)\<rparr>)"
proof -
  have healthy: "fault_free crashable_new"
    by (simp add: fault_free_def crashable_new_def crashable_from_durable_def fault_plan_default_def)
  obtain st :: "(crashable_file, crashable_file) btree_store" and f
    where st: "initialize crc crashable_ops database_config_default crashable_new = (Inr st, f)" "st_file st = f" "fault_free f"
    "fresh_store crc volatile database_config_default st"
    using crashable_pages.initialize_returns [OF healthy, of database_config_default crc]
    by (auto simp: database_config_default_def)
  then show thesis by (intro that [of st f]) (simp_all add: fresh_store_def)
qed

section \<open>The store refines the reference database\<close>

text \<open>
  C1. The B+Tree store refines the reference database of the repository. Take a store with a
  write-ahead log whose pages represent the states of a reference database \<open>db\<close>. Whatever
  transaction runs on it, whatever the log file does: if \<open>transact\<close> returns a commit LSN, the
  reference database run on the same request at that LSN (which is past every earlier revision)
  returns the same result, and the pages of the store represent the reference database it leaves. If
  \<open>transact\<close> returns an error, the store still represents \<open>db\<close>; on a data file without faults the error
  is then the one the reference returns for the request at every LSN, or the log failed and the store
  is marked broken, or a key, value or page exceeded the limits of the storage format, which the
  reference does not have.
\<close>

theorem transact_refines:
  assumes "store_ready crc volatile fault_free (states db) st" "st_wal st \<noteq> None" "st_fault_injector st = None"
    and "transact crc crashable_ops wops req st = (r, st')" "st_high_water_page_id st' \<noteq> NULL_PAGE_ID"
  shows "case r of
      Inr res \<Rightarrow> (\<exists>lsn db'. st_next_revision st \<le> lsn \<and> ref_transact_at req lsn db = (Inr (result_commit_lsn res), db') \<and>
        store_ready crc volatile fault_free (states db') st')
    | Inl e \<Rightarrow> store_ready crc volatile fault_free (states db) st' \<and>
        (fault_free (st_file st) \<longrightarrow> st_broken st' \<or> (\<forall>lsn. ref_transact_at req lsn db = (Inl e, db)) \<or>
           e = InvalidInput \<or> e = InternalInvariantViolation)"
  by (rule crashable_pages.transact_refines_store [OF assms])

theorem transact_refines_witness:
  "\<exists>st r st'. store_ready (\<lambda>_. 3) volatile fault_free (states ref_new) st \<and> fault_free (st_file st) \<and>
     transact (\<lambda>_. 3) crashable_ops crashable_ops \<lparr>conditions = [], mutations = [MutPut example_key [7]]\<rparr> st = (r, st') \<and>
     (case r of
        Inr res \<Rightarrow> (\<exists>lsn db'. st_next_revision st \<le> lsn \<and>
          ref_transact_at \<lparr>conditions = [], mutations = [MutPut example_key [7]]\<rparr> lsn ref_new = (Inr (result_commit_lsn res), db') \<and>
          store_ready (\<lambda>_. 3) volatile fault_free (states db') st')
      | Inl e \<Rightarrow> store_ready (\<lambda>_. 3) volatile fault_free (states ref_new) st' \<and>
          (st_broken st' \<or> (\<forall>lsn. ref_transact_at \<lparr>conditions = [], mutations = [MutPut example_key [7]]\<rparr> lsn ref_new = (Inl e, ref_new)) \<or>
             e = InvalidInput \<or> e = InternalInvariantViolation))"
proof -
  let ?crc = "\<lambda>_. 3 :: u32" and ?req = "\<lparr>conditions = [], mutations = [MutPut example_key [7]]\<rparr>"
  obtain st0 where fresh: "fresh_store ?crc volatile database_config_default (st0\<lparr>st_wal := Some example_wal\<rparr>)"
    and ff: "fault_free (st_file st0)" by (rule example_store)
  define st where "st = st0\<lparr>st_wal := Some example_wal\<rparr>"
  have uuid: "length (cfg_database_uuid database_config_default) = 16" by (simp add: database_config_default_def)
  have wal: "st_wal st \<noteq> None" "st_fault_injector st = None" "fault_free (st_file st)"
    using fresh ff by (simp_all add: st_def fresh_store_def)
  have ready: "store_ready ?crc volatile fault_free (states ref_new) st"
    using fresh_store_ready [OF fresh uuid] by (simp add: st_def ref_new_def)
  obtain r st' where run: "transact ?crc crashable_ops crashable_ops ?req st = (r, st')" by force
  have "st_high_water_page_id st' = 2"
    by (rule crashable_pages.transact_first_high_water [OF fresh [folded st_def] uuid wal(1) _ _ _ run])
      (simp_all add: database_config_default_def storage_limits_default_def example_leaf_fits)
  then show ?thesis
    using transact_refines [OF ready wal(1,2) run] ready run wal(3)
    by (intro exI [of _ st] exI [of _ r] exI [of _ st']) (simp split: sum.splits)
qed



text \<open>
  C5. Reads answer as the reference database. A batch of point reads, queries of one primary key and
  scans (\<open>apply_batch_with_response_budget\<close>) on a store that represents a reference database returns,
  for every request, the state or the rows the reference returns, in the same order and cut at the
  same limit, however the documents are spread over leaves and overflow chains. It leaves every
  committed byte and counter alone. On a data file without faults it fails only when the response
  would exceed the budget, or when an earlier log failure has marked the store broken.
\<close>

theorem read_batch_reference:
  assumes "store_ready crc volatile fault_free (states db) st" "list_all read_fits reqs"
    and "apply_batch_with_response_budget crc crashable_ops wops reqs maximum st = (r, st')"
  shows "store_ready crc volatile fault_free (states db) st' \<and> same_committed crc volatile fault_free st st' \<and>
    (case r of
       Inr rs \<Rightarrow> map Some rs = map (ref_read db) reqs
     | Inl e \<Rightarrow> fault_free (st_file st) \<longrightarrow> e = ResponseTooLarge \<or> e = DurabilityFailure \<and> st_broken st)"
  by (rule crashable_pages.read_batch_refines [OF assms])

lemma example_ready:
  obtains st where "store_ready (\<lambda>_. 3) volatile fault_free (states ref_new) st" "fault_free (st_file st)"
    "\<not> st_broken st" "st_wal st = Some example_wal" "st_fault_injector st = None" "st_high_water_page_id st = 2"
proof -
  obtain st0 where fresh: "fresh_store (\<lambda>_. 3) volatile database_config_default (st0\<lparr>st_wal := Some example_wal\<rparr>)"
    and ff: "fault_free (st_file st0)" by (rule example_store)
  have "store_ready (\<lambda>_. 3) volatile fault_free (states ref_new) (st0\<lparr>st_wal := Some example_wal\<rparr>)"
    using fresh_store_ready [OF fresh] by (simp add: ref_new_def database_config_default_def)
  then show thesis using that fresh ff by (fastforce simp: fresh_store_def)
qed

theorem read_batch_reference_witness:
  "\<exists>st r st'. store_ready (\<lambda>_. 3) volatile fault_free (states ref_new) st \<and> fault_free (st_file st) \<and>
     apply_batch_with_response_budget (\<lambda>_. 3) crashable_ops crashable_ops
       [ReqGet example_key, ReqQuery [1] None 5, ReqScan None 5] 1000 st = (r, st') \<and>
     same_committed (\<lambda>_. 3) volatile fault_free st st' \<and>
     (case r of
        Inr rs \<Rightarrow> map Some rs = [Some (RespGet (Missing 0)), Some (RespQuery []), Some (RespScan [])]
      | Inl e \<Rightarrow> e = ResponseTooLarge)"
proof -
  let ?crc = "\<lambda>_. 3 :: u32" and ?reqs = "[ReqGet example_key, ReqQuery [1] None 5, ReqScan None 5]"
  obtain st where ready: "store_ready ?crc volatile fault_free (states ref_new) st" and st: "fault_free (st_file st)" "\<not> st_broken st"
    and wal: "st_wal st = Some example_wal"
    by (rule example_ready)
  obtain r st' where run: "apply_batch_with_response_budget ?crc crashable_ops crashable_ops ?reqs 1000 st = (r, st')" by force
  have fits: "list_all read_fits ?reqs"
    by (simp add: example_key_def length_document_key_encode document_key_encoded_len_def encoded_component_len_def)
  have refs: "map (ref_read ref_new) ?reqs = [Some (RespGet (Missing 0)), Some (RespQuery []), Some (RespScan [])]"
    by (simp add: ref_new_def ref_get_def ref_query_def ref_scan_def List.map_filter_simps)
  show ?thesis
    using read_batch_reference [OF ready fits run] ready run st unfolding refs
    by (intro exI [of _ st] exI [of _ r] exI [of _ st']) (auto split: sum.splits)
qed

text \<open>
  C6. Multi-key reads are consistent snapshots. \<open>transact_get_with_response_budget\<close> on a store that
  represents a reference database returns, for the keys in order, exactly the states the reference
  returns (values read back in full from inline entries and overflow chains, tombstones and missing
  keys included), and changes nothing. On a data file without faults it fails only for the response
  budget or on a broken store.
\<close>

theorem transact_get_reference:
  assumes "store_ready crc volatile fault_free (states db) st" "list_all key_fits keys"
    and "transact_get_with_response_budget crc crashable_ops keys maximum st = (r, st')"
  shows "store_ready crc volatile fault_free (states db) st' \<and> same_committed crc volatile fault_free st st' \<and>
    (case r of
       Inr found \<Rightarrow> found = ref_transact_get db keys
     | Inl e \<Rightarrow> fault_free (st_file st) \<longrightarrow> e = ResponseTooLarge \<or> e = DurabilityFailure \<and> st_broken st)"
  by (rule crashable_pages.transact_get_refines [OF assms])

theorem transact_get_reference_witness:
  "\<exists>(st :: (crashable_file, crashable_file) btree_store) r st'. store_ready (\<lambda>_. 3) volatile fault_free (states ref_new) st \<and>
     transact_get_with_response_budget (\<lambda>_. 3) crashable_ops [example_key] 1000 st = (r, st') \<and>
     (case r of Inr found \<Rightarrow> found = [Missing 0] | Inl e \<Rightarrow> e = ResponseTooLarge)"
proof -
  let ?crc = "\<lambda>_. 3 :: u32"
  obtain st where ready: "store_ready ?crc volatile fault_free (states ref_new) st" and st: "fault_free (st_file st)" "\<not> st_broken st"
    and wal: "st_wal st = Some example_wal"
    by (rule example_ready)
  obtain r st' where run: "transact_get_with_response_budget ?crc crashable_ops [example_key] 1000 st = (r, st')" by force
  have fits: "list_all key_fits [example_key]"
    by (simp add: example_key_def length_document_key_encode document_key_encoded_len_def encoded_component_len_def)
  have refs: "ref_transact_get ref_new [example_key] = [Missing 0]"
    by (simp add: ref_new_def ref_get_def ref_transact_get_def)
  show ?thesis
    using transact_get_reference [OF ready fits run] ready run st unfolding refs
    by (intro exI [of _ st] exI [of _ r] exI [of _ st']) (auto split: sum.splits)
qed

text \<open>
  C7. Reads of revisions return. On a store that is not broken, with a data file without faults,
  \<open>observe\<close> on keys within the size limit always returns, and returns the observed states the
  reference database has for the keys: the revisions that later validate optimistic transactions.
\<close>

theorem observe_returns:
  assumes "store_ready crc volatile fault_free (states db) st" "list_all key_fits keys" "fault_free (st_file st)"
    and "\<not> st_broken st"
  shows "\<exists>st'. observe crc crashable_ops keys st = (Inr (map (\<lambda>k. observed (ref_get db k)) keys), st') \<and>
    same_committed crc volatile fault_free st st' \<and> store_ready crc volatile fault_free (states db) st'"
  by (rule crashable_pages.observe_refines [OF assms])

theorem observe_returns_witness:
  "\<exists>(st :: (crashable_file, crashable_file) btree_store) st'.
     observe (\<lambda>_. 3) crashable_ops [example_key, example_key] st = (Inr [ObservedMissing 0, ObservedMissing 0], st') \<and>
     same_committed (\<lambda>_. 3) volatile fault_free st st'"
proof -
  obtain st where ready: "store_ready (\<lambda>_. 3) volatile fault_free (states ref_new) st" "fault_free (st_file st)" "\<not> st_broken st"
    and wal: "st_wal st = Some example_wal"
    by (rule example_ready)
  have fits: "list_all key_fits [example_key, example_key]"
    by (simp add: example_key_def length_document_key_encode document_key_encoded_len_def encoded_component_len_def)
  have "map (\<lambda>k. observed (ref_get ref_new k)) [example_key, example_key] = [ObservedMissing 0, ObservedMissing 0]"
    by (simp add: ref_new_def ref_get_def)
  then show ?thesis using observe_returns [OF ready(1) fits ready(2,3)] by auto
qed

text \<open>
  C8. A store whose log failed stops serving. Once the store is marked broken, no request commits:
  \<open>transact\<close> never returns a commit LSN, leaves the store broken and its documents as they were, and the
  multi-key read and the revision read refuse with \<open>DurabilityFailure\<close> without touching anything. So a
  client never observes a transaction whose durability is unknown.
\<close>

theorem broken_store_refuses:
  fixes db :: reference_db
  assumes "store_ready crc volatile fault_free (states db) st" "st_wal st \<noteq> None" "st_fault_injector st = None" "st_broken st"
    and "transact crc crashable_ops wops req st = (r, st')"
  shows "r \<noteq> Inr \<lparr>result_commit_lsn = Some lsn\<rparr> \<and> st_broken st' \<and> store_ready crc volatile fault_free (states db) st' \<and>
    transact_get_with_response_budget crc crashable_ops keys maximum st = (Inl DurabilityFailure, st) \<and>
    observe crc crashable_ops keys st = (Inl DurabilityFailure, st)"
  using crashable_pages.broken_never_commits [OF assms, of lsn] assms(4)
  by (simp add: transact_get_with_response_budget_def observe_def bindS_def st_get_def liftR_def)

theorem broken_store_refuses_witness:
  "\<exists>(st :: (crashable_file, crashable_file) btree_store) r st'. st_broken st \<and>
     transact (\<lambda>_. 3) crashable_ops crashable_ops \<lparr>conditions = [], mutations = [MutPut example_key [7]]\<rparr> st = (r, st') \<and>
     r \<noteq> Inr \<lparr>result_commit_lsn = Some 3\<rparr> \<and> st_broken st' \<and>
     observe (\<lambda>_. 3) crashable_ops [example_key] st = (Inl DurabilityFailure, st)"
proof -
  let ?req = "\<lparr>conditions = [], mutations = [MutPut example_key [7]]\<rparr>"
  obtain st0 where st0: "store_ready (\<lambda>_. 3) volatile fault_free (states ref_new) st0"
    and wal: "st_wal st0 = Some example_wal" "st_fault_injector st0 = None"
    by (rule example_ready)
  define st where "st = st0\<lparr>st_broken := True\<rparr>"
  have ready: "store_ready (\<lambda>_. 3) volatile fault_free (states ref_new) st"
    using store_ready_broken [OF st0] by (simp add: st_def)
  have st: "st_wal st \<noteq> None" "st_fault_injector st = None" "st_broken st" using wal by (simp_all add: st_def)
  obtain r st' where run: "transact (\<lambda>_. 3) crashable_ops crashable_ops ?req st = (r, st')" by force
  show ?thesis
    using broken_store_refuses [OF ready st run, of 3 "[example_key]" 1000] run st(3) by blast
qed

text \<open>
  C9. A new database is empty and ready. On a file without faults, whatever it held before,
  \<open>initialize\<close> returns, and the store it returns represents the states of a new reference database:
  no document exists, and every later transaction is covered by the refinement.
\<close>

theorem initialize_empty:
  assumes "fault_free f" "length (cfg_database_uuid config) = 16"
  shows "\<exists>st f'. initialize crc crashable_ops config f = (Inr st, f') \<and> st_file st = f' \<and> fault_free f' \<and>
    store_ready crc volatile fault_free (states ref_new) (st :: (crashable_file, 'w) btree_store)"
proof -
  obtain st :: "(crashable_file, 'w) btree_store" and f' where
    run: "initialize crc crashable_ops config f = (Inr st, f')" "st_file st = f'" "fault_free f'"
    and fresh: "fresh_store crc volatile config st"
    using crashable_pages.initialize_returns [OF assms, of crc] by blast
  then show ?thesis using fresh_store_ready [OF fresh assms(2)] by (auto simp: ref_new_def)
qed

theorem initialize_empty_witness:
  "\<exists>st f'. initialize (\<lambda>_. 3) crashable_ops database_config_default crashable_new = (Inr st, f') \<and>
     store_ready (\<lambda>_. 3) volatile fault_free (states ref_new) (st :: (crashable_file, crashable_file) btree_store)"
  using initialize_empty [of crashable_new database_config_default "\<lambda>_. 3"]
  by (auto simp: fault_free_def crashable_new_def crashable_from_durable_def fault_plan_default_def database_config_default_def)

end
